(* ===== verification/Ws_Utf8.thy ===== *)
theory Ws_Utf8 imports Ws_Prelude begin

text \<open>
  \<open>std::str::from_utf8\<close> as \<open>message.rs\<close> uses it: the validation loop of Rust's standard
  library with its \<open>valid_up_to\<close>, and the proof that it accepts exactly the UTF-8 encodings
  of sequences of Unicode scalar values.
\<close>

definition cont_byte :: "u8 \<Rightarrow> bool" where
  "cont_byte b \<longleftrightarrow> 0x80 \<le> b \<and> b \<le> 0xBF"

text \<open>The second byte of a three-byte and of a four-byte sequence, given the first.\<close>

definition second_of_3 :: "u8 \<Rightarrow> u8 \<Rightarrow> bool" where
  "second_of_3 a b \<longleftrightarrow>
     (if a = 0xE0 then 0xA0 \<le> b \<and> b \<le> 0xBF
      else if a = 0xED then 0x80 \<le> b \<and> b \<le> 0x9F
      else cont_byte b)"

definition second_of_4 :: "u8 \<Rightarrow> u8 \<Rightarrow> bool" where
  "second_of_4 a b \<longleftrightarrow>
     (if a = 0xF0 then 0x90 \<le> b \<and> b \<le> 0xBF
      else if a = 0xF4 then 0x80 \<le> b \<and> b \<le> 0x8F
      else cont_byte b)"

text \<open>The length of the well-formed character the bytes start with, if they do.\<close>

fun utf8_width :: "bytes \<Rightarrow> nat option" where
  "utf8_width [] = None"
| "utf8_width (a # bs) =
     (if a < 0x80 then Some 1
      else if 0xC2 \<le> a \<and> a \<le> 0xDF then
        (case bs of b # _ \<Rightarrow> if cont_byte b then Some 2 else None | [] \<Rightarrow> None)
      else if 0xE0 \<le> a \<and> a \<le> 0xEF then
        (case bs of b # c # _ \<Rightarrow> if second_of_3 a b \<and> cont_byte c then Some 3 else None
         | _ \<Rightarrow> None)
      else if 0xF0 \<le> a \<and> a \<le> 0xF4 then
        (case bs of b # c # d # _ \<Rightarrow>
             if second_of_4 a b \<and> cont_byte c \<and> cont_byte d then Some 4 else None
         | _ \<Rightarrow> None)
      else None)"

text \<open>The scan from offset \<open>off\<close>: the offset of the first ill-formed character, if any.\<close>

function utf8_scan :: "nat \<Rightarrow> bytes \<Rightarrow> nat option" where
  "utf8_scan off [] = None"
| "utf8_scan off (a # bs) =
     (case utf8_width (a # bs) of
        None \<Rightarrow> Some off
      | Some w \<Rightarrow> utf8_scan (off + w) (drop (w - 1) bs))"
  by pat_completeness auto
termination
  by (relation "measure (\<lambda>(_, bs). length bs)") auto

definition from_utf8 :: "bytes \<Rightarrow> nat + string" where
  "from_utf8 bs = (case utf8_scan 0 bs of Some k \<Rightarrow> Inl k | None \<Rightarrow> Inr (bytes_str bs))"

definition valid_utf8 :: "bytes \<Rightarrow> bool" where
  "valid_utf8 bs \<longleftrightarrow> utf8_scan 0 bs = None"

section \<open>The scan\<close>

lemma utf8_width_bounds: "utf8_width bs = Some w \<Longrightarrow> 1 \<le> w \<and> w \<le> 4 \<and> w \<le> length bs"
  by (cases bs) (auto split: if_splits list.splits)

lemma utf8_scan_step:
  "utf8_width bs = Some w \<Longrightarrow> utf8_scan off bs = utf8_scan (off + w) (drop w bs)"
  using utf8_width_bounds [of bs w] by (cases bs) (auto simp: drop_Cons')

lemma utf8_scan_offset: "utf8_scan (k + off) bs = map_option ((+) k) (utf8_scan off bs)"
  by (induction off bs rule: utf8_scan.induct) (auto split: option.splits simp: add.assoc)

lemma utf8_width_append: "utf8_width bs = Some w \<Longrightarrow> utf8_width (bs @ cs) = Some w"
  by (cases bs) (auto split: if_splits list.splits)

lemma utf8_width_take: "utf8_width bs = Some w \<Longrightarrow> w \<le> n \<Longrightarrow> utf8_width (take n bs) = Some w"
  by (cases bs; cases n) (auto split: if_splits list.splits simp: take_Cons')

text \<open>Reading on after a well-formed prefix.\<close>

lemma utf8_scan_append:
  "utf8_scan off bs = None \<Longrightarrow> utf8_scan off (bs @ cs) = utf8_scan (off + length bs) cs"
proof (induction off bs rule: utf8_scan.induct)
  case (1 off)
  then show ?case by simp
next
  case (2 off a bs)
  from "2.prems" obtain w where w: "utf8_width (a # bs) = Some w"
    by (auto split: option.splits)
  note b = utf8_width_bounds [OF w]
  from w "2.prems" have "utf8_scan (off + w) (drop (w - 1) bs) = None" by simp
  then have "utf8_scan (off + w) (drop (w - 1) bs @ cs)
      = utf8_scan (off + w + length (drop (w - 1) bs)) cs"
    using "2.IH" [OF w] by simp
  moreover have "utf8_scan off ((a # bs) @ cs) = utf8_scan (off + w) (drop w ((a # bs) @ cs))"
    using utf8_scan_step [OF utf8_width_append [OF w]] by simp
  moreover have "drop w ((a # bs) @ cs) = drop (w - 1) bs @ cs"
    using b by (cases w) auto
  moreover have "off + w + length (drop (w - 1) bs) = off + length (a # bs)"
    using b by auto
  ultimately show ?case by simp
qed

text \<open>What \<open>valid_up_to\<close> promises: the bytes before it are UTF-8, and no character starts there.\<close>

lemma utf8_scan_valid_up_to:
  "utf8_scan off bs = Some k \<Longrightarrow>
     off \<le> k \<and> k - off < length bs \<and> utf8_scan off (take (k - off) bs) = None \<and>
     utf8_width (drop (k - off) bs) = None"
proof (induction off bs rule: utf8_scan.induct)
  case (1 off)
  then show ?case by simp
next
  case (2 off a bs)
  show ?case
  proof (cases "utf8_width (a # bs)")
    case None
    with "2.prems" show ?thesis by simp
  next
    case (Some w)
    note b = utf8_width_bounds [OF Some]
    from Some "2.prems" have *: "utf8_scan (off + w) (drop (w - 1) bs) = Some k" by simp
    from "2.IH" [OF Some this]
    have le: "off + w \<le> k" and len: "k - (off + w) < length (drop (w - 1) bs)"
      and ok: "utf8_scan (off + w) (take (k - (off + w)) (drop (w - 1) bs)) = None"
      and bad: "utf8_width (drop (k - (off + w)) (drop (w - 1) bs)) = None" by auto
    have "utf8_width (take (k - off) (a # bs)) = Some w"
      using Some le by (intro utf8_width_take) auto
    moreover have "drop w (take (k - off) (a # bs)) = take (k - (off + w)) (drop (w - 1) bs)"
      using b le by (cases w) (auto simp: drop_take)
    ultimately have "utf8_scan off (take (k - off) (a # bs)) = None"
      using ok by (simp add: utf8_scan_step)
    moreover have "drop (k - off) (a # bs) = drop (k - (off + w)) (drop (w - 1) bs)"
      using b le by (cases "k - off") (auto simp: drop_Cons' intro: arg_cong [where f = "\<lambda>n. drop n bs"])
    ultimately show ?thesis
      using le len bad b by auto
  qed
qed

text \<open>A Unicode scalar value and its UTF-8 encoding (RFC 3629).\<close>

definition scalar_value :: "nat \<Rightarrow> bool" where
  "scalar_value c \<longleftrightarrow> c < 0x110000 \<and> \<not> (0xD800 \<le> c \<and> c \<le> 0xDFFF)"

definition utf8_encode :: "nat \<Rightarrow> bytes" where
  "utf8_encode c = map of_nat
     (if c < 0x80 then [c]
      else if c < 0x800 then [0xC0 + c div 64, 0x80 + c mod 64]
      else if c < 0x10000 then [0xE0 + c div 4096, 0x80 + c div 64 mod 64, 0x80 + c mod 64]
      else [0xF0 + c div 262144, 0x80 + c div 4096 mod 64, 0x80 + c div 64 mod 64,
            0x80 + c mod 64])"

section \<open>UTF-8 as the encoding of scalar values\<close>

lemma u8_less_iff: "n < 256 \<Longrightarrow> (of_nat n :: u8) < k \<longleftrightarrow> n < unat k"
  by (simp add: word_less_nat_alt unat_of_nat)

lemma u8_le_iff: "n < 256 \<Longrightarrow> k \<le> (of_nat n :: u8) \<longleftrightarrow> unat k \<le> n"
  by (simp add: word_le_nat_alt unat_of_nat)

lemma u8_ge_iff: "n < 256 \<Longrightarrow> (of_nat n :: u8) \<le> k \<longleftrightarrow> n \<le> unat k"
  by (simp add: word_le_nat_alt unat_of_nat)

lemma u8_eq_iff: "n < 256 \<Longrightarrow> (of_nat n :: u8) = k \<longleftrightarrow> n = unat k"
  by (auto simp: word_unat_eq_iff unat_of_nat)

lemmas u8_nat_iffs = u8_less_iff u8_le_iff u8_ge_iff u8_eq_iff

text \<open>Code points by their digits in base 64, and their encodings.\<close>

definition cp2 :: "nat \<Rightarrow> nat \<Rightarrow> nat" where
  "cp2 p q = p * 64 + q"

definition cp3 :: "nat \<Rightarrow> nat \<Rightarrow> nat \<Rightarrow> nat" where
  "cp3 p q r = (p * 64 + q) * 64 + r"

definition cp4 :: "nat \<Rightarrow> nat \<Rightarrow> nat \<Rightarrow> nat \<Rightarrow> nat" where
  "cp4 p q r s = ((p * 64 + q) * 64 + r) * 64 + s"

lemma base64_digit:
  fixes n d :: nat
  assumes "d < 64"
  shows "(n * 64 + d) div 64 = n" "(n * 64 + d) mod 64 = d"
  using assms by simp_all

lemma utf8_encode_1: "c < 0x80 \<Longrightarrow> utf8_encode c = [of_nat c]"
  by (simp add: utf8_encode_def)

lemma utf8_encode_2:
  assumes "2 \<le> p" "p < 32" "q < 64"
  shows "utf8_encode (cp2 p q) = map of_nat [0xC0 + p, 0x80 + q]"
proof -
  have "\<not> cp2 p q < 0x80" "cp2 p q < 0x800" using assms by (auto simp: cp2_def)
  moreover have "cp2 p q div 64 = p" "cp2 p q mod 64 = q" using assms by (simp_all add: cp2_def)
  ultimately show ?thesis by (simp add: utf8_encode_def)
qed

lemma utf8_encode_3:
  assumes "p < 16" "q < 64" "r < 64" "p = 0 \<Longrightarrow> 32 \<le> q"
  shows "utf8_encode (cp3 p q r) = map of_nat [0xE0 + p, 0x80 + q, 0x80 + r]"
proof -
  have "\<not> cp3 p q r < 0x800" using assms by (cases "p = 0") (auto simp: cp3_def)
  moreover have "cp3 p q r < 0x10000" using assms by (auto simp: cp3_def)
  moreover have "cp3 p q r div 64 = p * 64 + q" "cp3 p q r mod 64 = r"
    unfolding cp3_def using assms by (simp_all only: base64_digit)
  moreover from this have "cp3 p q r div 4096 = p"
    using assms div_mult2_eq [of "cp3 p q r" 64 64] by simp
  ultimately show ?thesis using assms by (simp add: utf8_encode_def)
qed

lemma utf8_encode_4:
  assumes "p < 5" "q < 64" "r < 64" "s < 64" "p = 0 \<Longrightarrow> 16 \<le> q"
  shows "utf8_encode (cp4 p q r s) = map of_nat [0xF0 + p, 0x80 + q, 0x80 + r, 0x80 + s]"
proof -
  have "\<not> cp4 p q r s < 0x10000" using assms by (cases "p = 0") (auto simp: cp4_def)
  moreover have 1: "cp4 p q r s div 64 = (p * 64 + q) * 64 + r" "cp4 p q r s mod 64 = s"
    unfolding cp4_def using assms by (simp_all only: base64_digit)
  moreover from 1 have 2: "cp4 p q r s div 4096 = p * 64 + q"
    using assms div_mult2_eq [of "cp4 p q r s" 64 64] by simp
  moreover from 2 have "cp4 p q r s div 262144 = p"
    using assms div_mult2_eq [of "cp4 p q r s" 4096 64] by simp
  moreover have "cp4 p q r s div 64 mod 64 = r"
    unfolding 1 using assms by (simp only: base64_digit)
  ultimately show ?thesis using assms by (simp add: utf8_encode_def)
qed

text \<open>The digits of a code point, by the length of its encoding.\<close>

lemma scalar_digits:
  assumes "scalar_value c"
  obtains (one) "c < 0x80"
  | (two) p q where "c = cp2 p q" "2 \<le> p" "p < 32" "q < 64"
  | (three) p q r where "c = cp3 p q r" "p < 16" "q < 64" "r < 64"
      "p = 0 \<Longrightarrow> 32 \<le> q" "p = 13 \<Longrightarrow> q < 32"
  | (four) p q r s where "c = cp4 p q r s" "p < 5" "q < 64" "r < 64" "s < 64"
      "p = 0 \<Longrightarrow> 16 \<le> q" "p = 4 \<Longrightarrow> q < 16"
proof -
  define d0 where "d0 = c mod 64"
  define d1 where "d1 = c div 64 mod 64"
  define d2 where "d2 = c div 64 div 64 mod 64"
  define d3 where "d3 = c div 64 div 64 div 64"
  have c: "c = d3 * 262144 + d2 * 4096 + d1 * 64 + d0"
    using div_mult_mod_eq [of c 64] div_mult_mod_eq [of "c div 64" 64]
      div_mult_mod_eq [of "c div 64 div 64" 64]
    unfolding d0_def d1_def d2_def d3_def by linarith
  have d: "d0 < 64" "d1 < 64" "d2 < 64" by (simp_all add: d0_def d1_def d2_def)
  have lt: "c < 0x110000" and sur: "c < 0xD800 \<or> 0xDFFF < c" using assms by (auto simp: scalar_value_def)
  consider "c < 0x80" | "0x80 \<le> c" "c < 0x800" | "0x800 \<le> c" "c < 0x10000" | "0x10000 \<le> c"
    by linarith
  then show ?thesis
  proof cases
    case 1
    then show ?thesis by (rule one)
  next
    case 2
    have "d3 = 0" using 2 c by linarith
    moreover have "d2 = 0" using 2 c by linarith
    moreover have "2 \<le> d1" using 2 c d calculation by linarith
    moreover have "d1 < 32" using 2 c d by linarith
    ultimately show ?thesis using c d by (intro two [of d1 d0]) (auto simp: cp2_def)
  next
    case 3
    have "d3 = 0" using 3 c by linarith
    moreover have "d2 < 16" using 3 c by linarith
    moreover have "d2 = 0 \<Longrightarrow> 32 \<le> d1" using 3 c d \<open>d3 = 0\<close> by linarith
    moreover have "d2 = 13 \<Longrightarrow> d1 < 32" using c sur d \<open>d3 = 0\<close> by linarith
    ultimately show ?thesis using c d by (intro three [of d2 d1 d0]) (auto simp: cp3_def)
  next
    case 4
    have "d3 < 5" using c lt by linarith
    moreover have "d3 = 0 \<Longrightarrow> 16 \<le> d2" using 4 c d by linarith
    moreover have "d3 = 4 \<Longrightarrow> d2 < 16" using c lt by linarith
    ultimately show ?thesis using c d by (intro four [of d3 d2 d1 d0]) (auto simp: cp4_def)
  qed
qed

lemma utf8_width_encode:
  assumes "scalar_value c"
  shows "utf8_width (utf8_encode c @ bs) = Some (length (utf8_encode c))"
  using assms
proof (cases c rule: scalar_digits)
  case one
  then show ?thesis by (simp add: utf8_encode_1 u8_nat_iffs)
next
  case (two p q)
  then show ?thesis
    by (simp add: utf8_encode_2 u8_nat_iffs cont_byte_def del: of_nat_add)
next
  case (three p q r)
  then show ?thesis
    by (auto simp: utf8_encode_3 u8_nat_iffs cont_byte_def second_of_3_def simp del: of_nat_add)
next
  case (four p q r s)
  then show ?thesis
    by (auto simp: utf8_encode_4 u8_nat_iffs cont_byte_def second_of_4_def simp del: of_nat_add)
qed

text \<open>A byte as an offset above a lower bound.\<close>

lemma u8_offset:
  assumes "of_nat k \<le> (a :: u8)" "k < 256"
  obtains p where "a = of_nat (k + p)" "k + p < 256"
proof -
  have "k \<le> unat a" using assms by (simp add: word_le_nat_alt unat_of_nat)
  moreover have "unat a < 256" using unsigned_less [of a, where ?'a = nat] by simp
  ultimately show ?thesis by (intro that [of "unat a - k"]) simp_all
qed

lemma cont_byte_digit:
  assumes "cont_byte b"
  obtains q where "b = of_nat (0x80 + q)" "q < 64"
proof -
  from assms have "of_nat 0x80 \<le> b" by (simp add: cont_byte_def)
  then obtain q where q: "b = of_nat (0x80 + q)" "0x80 + q < 256" by (rule u8_offset) simp
  with assms have "q < 64" by (simp add: cont_byte_def u8_nat_iffs del: of_nat_add)
  with q show ?thesis by (intro that)
qed

lemma second_bytes_cont: "second_of_3 a b \<Longrightarrow> cont_byte b" "second_of_4 a b \<Longrightarrow> cont_byte b"
  by (auto simp: second_of_3_def second_of_4_def cont_byte_def word_le_nat_alt split: if_splits)

lemma utf8_width_decode_2:
  assumes "0xC2 \<le> a" "a \<le> 0xDF" "cont_byte b"
  shows "\<exists>c. scalar_value c \<and> [a, b] = utf8_encode c"
proof -
  from assms have "of_nat 0xC0 \<le> a" by (simp add: word_le_nat_alt)
  then obtain p where p: "a = of_nat (0xC0 + p)" "0xC0 + p < 256" by (rule u8_offset) simp
  obtain q where q: "b = of_nat (0x80 + q)" "q < 64" using assms(3) by (rule cont_byte_digit)
  from assms p have "2 \<le> p" "p < 32" by (simp_all add: u8_nat_iffs del: of_nat_add)
  with p q show ?thesis
    by (intro exI [of _ "cp2 p q"]) (simp add: utf8_encode_2, simp add: scalar_value_def cp2_def)
qed

lemma utf8_width_decode_3:
  assumes "0xE0 \<le> a" "a \<le> 0xEF" "second_of_3 a b" "cont_byte d"
  shows "\<exists>c. scalar_value c \<and> [a, b, d] = utf8_encode c"
proof -
  from assms have "of_nat 0xE0 \<le> a" by simp
  then obtain p where p: "a = of_nat (0xE0 + p)" "0xE0 + p < 256" by (rule u8_offset) simp
  obtain q where q: "b = of_nat (0x80 + q)" "q < 64"
    using assms(3) by (blast elim: cont_byte_digit dest: second_bytes_cont)
  obtain r where r: "d = of_nat (0x80 + r)" "r < 64" using assms(4) by (rule cont_byte_digit)
  from assms(2) p have "p < 16" by (simp add: u8_nat_iffs del: of_nat_add)
  moreover have "p = 0 \<Longrightarrow> 32 \<le> q" "p = 13 \<Longrightarrow> q < 32"
    using assms(3) p q by (simp_all add: second_of_3_def u8_nat_iffs del: of_nat_add)
  moreover have "scalar_value (cp3 p q r)"
  proof -
    consider "p < 13" | "p = 13" | "13 < p" by linarith
    then show ?thesis
      using calculation q(2) r(2) by cases (simp_all add: scalar_value_def cp3_def)
  qed
  ultimately show ?thesis using p q r
    by (intro exI [of _ "cp3 p q r"]) (simp add: utf8_encode_3)
qed

lemma utf8_width_decode_4:
  assumes "0xF0 \<le> a" "a \<le> 0xF4" "second_of_4 a b" "cont_byte d" "cont_byte e"
  shows "\<exists>c. scalar_value c \<and> [a, b, d, e] = utf8_encode c"
proof -
  from assms have "of_nat 0xF0 \<le> a" by simp
  then obtain p where p: "a = of_nat (0xF0 + p)" "0xF0 + p < 256" by (rule u8_offset) simp
  obtain q where q: "b = of_nat (0x80 + q)" "q < 64"
    using assms(3) by (blast elim: cont_byte_digit dest: second_bytes_cont)
  obtain r where r: "d = of_nat (0x80 + r)" "r < 64" using assms(4) by (rule cont_byte_digit)
  obtain s where s: "e = of_nat (0x80 + s)" "s < 64" using assms(5) by (rule cont_byte_digit)
  from assms(2) p have "p < 5" by (simp add: u8_nat_iffs del: of_nat_add)
  moreover have d0: "p = 0 \<Longrightarrow> 16 \<le> q" and d4: "p = 4 \<Longrightarrow> q < 16"
    using assms(3) p q by (simp_all add: second_of_4_def u8_nat_iffs del: of_nat_add)
  moreover have "scalar_value (cp4 p q r s)"
  proof (cases "p = 0 \<or> p = 4")
    case True
    with d0 d4 q(2) r(2) s(2) show ?thesis by (auto simp: scalar_value_def cp4_def)
  next
    case False
    with \<open>p < 5\<close> q(2) r(2) s(2) show ?thesis by (auto simp: scalar_value_def cp4_def)
  qed
  ultimately show ?thesis using p q r s
    by (intro exI [of _ "cp4 p q r s"]) (simp add: utf8_encode_4)
qed

lemma utf8_width_decode:
  assumes "utf8_width bs = Some w"
  shows "\<exists>c. scalar_value c \<and> take w bs = utf8_encode c"
proof (cases bs)
  case Nil
  with assms show ?thesis by simp
next
  case (Cons a rest)
  show ?thesis
  proof (cases "a < 0x80")
    case True
    then have "unat a < 128" by (simp add: word_less_nat_alt)
    moreover from True assms Cons have "w = 1" by simp
    ultimately show ?thesis using Cons
      by (intro exI [of _ "unat a"]) (simp add: utf8_encode_1 scalar_value_def)
  next
    case False
    with assms Cons show ?thesis
      by (auto simp: utf8_width_decode_2 utf8_width_decode_3 utf8_width_decode_4
          split: if_splits list.splits)
  qed
qed

text \<open>The scan accepts exactly the concatenations of encoded scalar values.\<close>

lemma utf8_scan_encode:
  "\<forall>c \<in> set cs. scalar_value c \<Longrightarrow> utf8_scan off (concat (map utf8_encode cs)) = None"
proof (induction cs arbitrary: off)
  case Nil
  then show ?case by simp
next
  case (Cons c cs)
  then show ?case
    by (simp add: utf8_scan_step [OF utf8_width_encode])
qed

lemma utf8_scan_decode:
  "utf8_scan off bs = None \<Longrightarrow>
     \<exists>cs. (\<forall>c \<in> set cs. scalar_value c) \<and> bs = concat (map utf8_encode cs)"
proof (induction off bs rule: utf8_scan.induct)
  case (1 off)
  show ?case by (intro exI [of _ "[]"]) simp
next
  case (2 off a bs)
  from "2.prems" obtain w where w: "utf8_width (a # bs) = Some w" by (auto split: option.splits)
  with "2.prems" have "utf8_scan (off + w) (drop (w - 1) bs) = None" by simp
  from "2.IH" [OF w this] obtain cs where cs: "\<forall>c \<in> set cs. scalar_value c"
    "drop (w - 1) bs = concat (map utf8_encode cs)" by blast
  obtain c where c: "scalar_value c" "take w (a # bs) = utf8_encode c"
    using utf8_width_decode [OF w] by blast
  have "a # bs = take w (a # bs) @ drop w (a # bs)" by simp
  also have "drop w (a # bs) = drop (w - 1) bs" using utf8_width_bounds [OF w] by (cases w) auto
  finally show ?case using c cs by (intro exI [of _ "c # cs"]) simp
qed

lemma valid_utf8_iff_encoding:
  "valid_utf8 bs \<longleftrightarrow> (\<exists>cs. list_all scalar_value cs \<and> bs = concat (map utf8_encode cs))"
  by (auto simp: valid_utf8_def list_all_iff intro: utf8_scan_encode dest: utf8_scan_decode)

section \<open>Conversion\<close>

lemma from_utf8_Inr_iff: "from_utf8 bs = Inr s \<longleftrightarrow> valid_utf8 bs \<and> s = bytes_str bs"
  by (auto simp: from_utf8_def valid_utf8_def split: option.splits)

lemma from_utf8_Inl_iff: "from_utf8 bs = Inl k \<longleftrightarrow> utf8_scan 0 bs = Some k"
  by (auto simp: from_utf8_def split: option.splits)

lemma from_utf8_valid [simp]: "valid_utf8 bs \<Longrightarrow> from_utf8 bs = Inr (bytes_str bs)"
  by (simp add: from_utf8_Inr_iff)

lemma valid_utf8_Nil [simp]: "valid_utf8 []"
  by (simp add: valid_utf8_def)

lemma valid_utf8_append: "valid_utf8 bs \<Longrightarrow> valid_utf8 cs \<Longrightarrow> valid_utf8 (bs @ cs)"
  using utf8_scan_append [of 0 bs cs] utf8_scan_offset [of "length bs" 0 cs]
  by (simp add: valid_utf8_def)

text \<open>A string whose bytes are all ASCII is a valid Rust string.\<close>

lemma valid_utf8_ascii: "list_all (\<lambda>b. b < 0x80) bs \<Longrightarrow> valid_utf8 bs"
proof (induction bs)
  case Nil
  show ?case by simp
next
  case (Cons b bs)
  have "valid_utf8 [b]" using Cons.prems by (simp add: valid_utf8_def)
  from valid_utf8_append [OF this Cons.IH] Cons.prems show ?case by simp
qed

end
