(* ===== verification/Ws_Error.thy ===== *)
theory Ws_Error imports Ws_Prelude begin

text \<open>
  \<open>error.rs\<close>: the error type of every fallible operation.  The payloads of \<open>Protocol\<close>, \<open>Io\<close>
  and \<open>Serialization\<close> are errors of tungstenite, of the operating system and of
  \<open>serde_json\<close>; their types are the parameters \<open>'t\<close>, \<open>'i\<close> and \<open>'s\<close>.
\<close>

datatype ('t, 'i, 's) ws_error =
    Connection string
  | Protocol 't
  | Io 'i
  | Serialization 's
  | ConnectionNotFound string
  | RoomNotFound string
  | ConnectionClosed
  | Send string
  | SlowConsumer
  | Timeout
  | Tls string
  | InvalidUrl string
  | Server string

text \<open>The \<open>Display\<close> texts of the \<open>#[error(..)]\<close> attributes, given those of the three sources.\<close>

fun ws_error_display ::
  "('t \<Rightarrow> string) \<Rightarrow> ('i \<Rightarrow> string) \<Rightarrow> ('s \<Rightarrow> string) \<Rightarrow> ('t, 'i, 's) ws_error \<Rightarrow> string" where
  "ws_error_display dt di ds (Connection m) = ''Connection error: '' @ m"
| "ws_error_display dt di ds (Protocol e) = ''Protocol error: '' @ dt e"
| "ws_error_display dt di ds (Io e) = ''IO error: '' @ di e"
| "ws_error_display dt di ds (Serialization e) = ''Serialization error: '' @ ds e"
| "ws_error_display dt di ds (ConnectionNotFound c) = ''Connection not found: '' @ c"
| "ws_error_display dt di ds (RoomNotFound r) = ''Room not found: '' @ r"
| "ws_error_display dt di ds ConnectionClosed = ''Connection closed''"
| "ws_error_display dt di ds (Send m) = ''Failed to send message: '' @ m"
| "ws_error_display dt di ds SlowConsumer =
     ''Slow consumer: outbound queue full, connection evicted''"
| "ws_error_display dt di ds Timeout = ''Operation timed out''"
| "ws_error_display dt di ds (Tls m) = ''TLS error: '' @ m"
| "ws_error_display dt di ds (InvalidUrl m) = ''Invalid URL: '' @ m"
| "ws_error_display dt di ds (Server m) = ''Server error: '' @ m"

text \<open>\<open>?\<close> on a result of a foreign error type, through the \<open>#[from]\<close> conversions.\<close>

definition from_protocol :: "'t + 'a \<Rightarrow> ('t, 'i, 's) ws_error + 'a" where
  "from_protocol = map_err Protocol"

definition from_io :: "'i + 'a \<Rightarrow> ('t, 'i, 's) ws_error + 'a" where
  "from_io = map_err Io"

definition from_serialization :: "'s + 'a \<Rightarrow> ('t, 'i, 's) ws_error + 'a" where
  "from_serialization = map_err Serialization"

lemmas from_error_defs = from_protocol_def from_io_def from_serialization_def

end
