(* ===== verification/Ws_Message.thy ===== *)
theory Ws_Message imports Ws_Utf8 Ws_Error begin

text \<open>
  \<open>message.rs\<close>: the message type, its constructors and predicates, and the two conversions
  between \<open>Message\<close> and tungstenite's message.
\<close>

datatype message_type = Text | Binary | Ping | Pong | Close

text \<open>\<open>#[serde(rename_all = "lowercase")]\<close>: the name a message type is serialized under.\<close>

fun message_type_name :: "message_type \<Rightarrow> string" where
  "message_type_name Text = ''text''"
| "message_type_name Binary = ''binary''"
| "message_type_name Ping = ''ping''"
| "message_type_name Pong = ''pong''"
| "message_type_name Close = ''close''"

record message =
  message_type :: message_type
  payload :: bytes

definition text_msg :: "string \<Rightarrow> message" where
  "text_msg s = \<lparr>message_type = Text, payload = str_bytes s\<rparr>"

definition binary_msg :: "bytes \<Rightarrow> message" where
  "binary_msg d = \<lparr>message_type = Binary, payload = d\<rparr>"

definition ping_msg :: "bytes \<Rightarrow> message" where
  "ping_msg d = \<lparr>message_type = Ping, payload = d\<rparr>"

definition pong_msg :: "bytes \<Rightarrow> message" where
  "pong_msg d = \<lparr>message_type = Pong, payload = d\<rparr>"

definition close_msg :: message where
  "close_msg = \<lparr>message_type = Close, payload = []\<rparr>"

text \<open>\<open>Message::json\<close> and \<open>parse_json\<close>; the serializer and the deserializer are \<open>serde_json\<close>'s.\<close>

definition json_msg :: "('v \<Rightarrow> 's + string) \<Rightarrow> 'v \<Rightarrow> 's + message" where
  "json_msg to_json v = and_then (to_json v) (\<lambda>json. Inr (text_msg json))"

definition parse_json :: "(bytes \<Rightarrow> 's + 'v) \<Rightarrow> message \<Rightarrow> 's + 'v" where
  "parse_json from_slice m = from_slice (payload m)"

definition as_text :: "message \<Rightarrow> string option" where
  "as_text m =
     (if message_type m = Text
      then (case from_utf8 (payload m) of Inr s \<Rightarrow> Some s | Inl _ \<Rightarrow> None)
      else None)"

definition as_bytes :: "message \<Rightarrow> bytes" where
  "as_bytes m = payload m"

definition is_text :: "message \<Rightarrow> bool" where
  "is_text m \<longleftrightarrow> message_type m = Text"

definition is_binary :: "message \<Rightarrow> bool" where
  "is_binary m \<longleftrightarrow> message_type m = Binary"

definition is_ping :: "message \<Rightarrow> bool" where
  "is_ping m \<longleftrightarrow> message_type m = Ping"

definition is_pong :: "message \<Rightarrow> bool" where
  "is_pong m \<longleftrightarrow> message_type m = Pong"

definition is_close :: "message \<Rightarrow> bool" where
  "is_close m \<longleftrightarrow> message_type m = Close"

text \<open>
  \<open>tungstenite::Message\<close>, as the two conversions match on it; \<open>'c\<close> is its close frame and
  \<open>'f\<close> its raw frame.  Its text is a \<open>Utf8Bytes\<close>, that is, a string.
\<close>

datatype ('c, 'f) raw_message =
    RawText string
  | RawBinary bytes
  | RawPing bytes
  | RawPong bytes
  | RawClose "'c option"
  | RawFrame 'f

fun message_of_raw :: "('c, 'f) raw_message \<Rightarrow> message" where
  "message_of_raw (RawText t) = text_msg t"
| "message_of_raw (RawBinary d) = binary_msg d"
| "message_of_raw (RawPing d) = ping_msg d"
| "message_of_raw (RawPong d) = pong_msg d"
| "message_of_raw (RawClose _) = close_msg"
| "message_of_raw (RawFrame _) = binary_msg []"

fun raw_is_close :: "('c, 'f) raw_message \<Rightarrow> bool" where
  "raw_is_close (RawClose _) = True"
| "raw_is_close _ = False"

record invalid_text_payload =
  valid_up_to :: nat

text \<open>Decimal digits, for the \<open>Display\<close> of the error.\<close>

fun show_nat :: "nat \<Rightarrow> string" where
  "show_nat n =
     (if n < 10 then [char_of (48 + n)] else show_nat (n div 10) @ [char_of (48 + n mod 10)])"

declare show_nat.simps [simp del]

definition invalid_text_display :: "invalid_text_payload \<Rightarrow> string" where
  "invalid_text_display e =
     ''text message payload is not valid UTF-8 (valid up to byte '' @ show_nat (valid_up_to e) @ '')''"

definition raw_of_message :: "message \<Rightarrow> invalid_text_payload + ('c, 'f) raw_message" where
  "raw_of_message m =
     (case message_type m of
        Text \<Rightarrow>
          (case map_err (\<lambda>k. \<lparr>valid_up_to = k\<rparr>) (from_utf8 (payload m)) of
             Inl e \<Rightarrow> Inl e
           | Inr s \<Rightarrow> Inr (RawText s))
      | Binary \<Rightarrow> Inr (RawBinary (payload m))
      | Ping \<Rightarrow> Inr (RawPing (payload m))
      | Pong \<Rightarrow> Inr (RawPong (payload m))
      | Close \<Rightarrow> Inr (RawClose None))"

section \<open>Constructors and predicates\<close>

lemmas message_ctor_defs = text_msg_def binary_msg_def ping_msg_def pong_msg_def close_msg_def
lemmas message_pred_defs = is_text_def is_binary_def is_ping_def is_pong_def is_close_def

lemma message_types [simp]:
  "message_type (text_msg s) = Text" "message_type (binary_msg d) = Binary"
  "message_type (ping_msg d) = Ping" "message_type (pong_msg d) = Pong"
  "message_type close_msg = Close"
  by (simp_all add: message_ctor_defs)

lemma message_payloads [simp]:
  "payload (text_msg s) = str_bytes s" "payload (binary_msg d) = d"
  "payload (ping_msg d) = d" "payload (pong_msg d) = d" "payload close_msg = []"
  by (simp_all add: message_ctor_defs)

lemma message_preds [simp]:
  "\<not> is_close (text_msg t)" "\<not> is_close (binary_msg d)" "\<not> is_close (ping_msg d)"
  "\<not> is_close (pong_msg d)" "is_close close_msg"
  "\<not> is_ping (text_msg t)" "\<not> is_ping (binary_msg d)" "is_ping (ping_msg d)"
  "\<not> is_ping (pong_msg d)" "\<not> is_ping close_msg"
  "\<not> is_pong (text_msg t)" "\<not> is_pong (binary_msg d)" "\<not> is_pong (ping_msg d)"
  "is_pong (pong_msg d)" "\<not> is_pong close_msg"
  by (simp_all add: message_pred_defs)

lemma message_of_raw_type [simp]: "is_close (message_of_raw r) = raw_is_close r"
  by (cases r) (simp_all add: is_close_def)

section \<open>Conversions\<close>

text \<open>A message that \<open>try_into\<close> can put on the wire.\<close>

definition sendable :: "message \<Rightarrow> bool" where
  "sendable m \<longleftrightarrow> (case message_type m of Text \<Rightarrow> valid_utf8 (payload m) | _ \<Rightarrow> True)"

lemma raw_of_message_ok: "is_ok (raw_of_message m) \<longleftrightarrow> sendable m"
  by (auto simp: raw_of_message_def sendable_def from_utf8_def valid_utf8_def
      split: message_type.splits option.splits)

lemma raw_of_message_Inl:
  "raw_of_message m = Inl e \<longleftrightarrow>
     message_type m = Text \<and> utf8_scan 0 (payload m) = Some (valid_up_to e)"
  by (cases e) (auto simp: raw_of_message_def from_utf8_def split: message_type.splits option.splits)

lemma raw_of_message_close: "is_close m \<Longrightarrow> raw_of_message m = Inr (RawClose None)"
  by (simp add: is_close_def raw_of_message_def)

lemma raw_of_message_ctors [simp]:
  "raw_of_message (binary_msg d) = Inr (RawBinary d)" "raw_of_message (ping_msg d) = Inr (RawPing d)"
  "raw_of_message (pong_msg d) = Inr (RawPong d)" "raw_of_message close_msg = Inr (RawClose None)"
  "valid_utf8 (str_bytes t) \<Longrightarrow> raw_of_message (text_msg t) = Inr (RawText t)"
  by (simp_all add: raw_of_message_def)

lemma raw_is_close_of_message: "raw_of_message m = Inr r \<Longrightarrow> raw_is_close r = is_close m"
  by (auto simp: raw_of_message_def is_close_def split: message_type.splits sum.splits)

lemma as_text_Some_iff: "as_text m = Some s \<longleftrightarrow> raw_of_message m = Inr (RawText s)"
  by (auto simp: as_text_def raw_of_message_def map_err_def split: message_type.splits sum.splits)

lemma message_of_raw_of_message:
  assumes "raw_of_message m = Inr q"
  shows "message_of_raw q = (if is_close m then close_msg else m)"
  using assms
  by (cases m) (auto simp: raw_of_message_def is_close_def message_ctor_defs from_utf8_def
      split: message_type.splits option.splits)

text \<open>A tungstenite message whose text is a Rust string, and what survives the crate's type.\<close>

fun wf_raw :: "('c, 'f) raw_message \<Rightarrow> bool" where
  "wf_raw (RawText t) = valid_utf8 (str_bytes t)"
| "wf_raw _ = True"

fun canonical_raw :: "('c, 'f) raw_message \<Rightarrow> ('c, 'f) raw_message" where
  "canonical_raw (RawClose _) = RawClose None"
| "canonical_raw (RawFrame _) = RawBinary []"
| "canonical_raw r = r"

text \<open>
  A message can be put on the wire exactly when it is not a text message or its payload is
  the UTF-8 encoding of a sequence of Unicode scalar values; otherwise the conversion fails
  with an offset inside the payload before which the bytes are UTF-8 and at which no
  well-formed character starts.
\<close>

theorem raw_of_message_total:
  "case (raw_of_message m :: invalid_text_payload + ('c, 'f) raw_message) of
     Inr r \<Rightarrow> message_type m \<noteq> Text \<or>
       (\<exists>cs. list_all scalar_value cs \<and> payload m = concat (map utf8_encode cs))
   | Inl e \<Rightarrow> message_type m = Text \<and> valid_up_to e < length (payload m) \<and>
       valid_utf8 (take (valid_up_to e) (payload m)) \<and>
       utf8_width (drop (valid_up_to e) (payload m)) = None \<and>
       \<not> (\<exists>cs. list_all scalar_value cs \<and> payload m = concat (map utf8_encode cs))"
proof (cases "raw_of_message m :: invalid_text_payload + ('c, 'f) raw_message")
  case (Inl e)
  then have "message_type m = Text" and scan: "utf8_scan 0 (payload m) = Some (valid_up_to e)"
    by (simp_all add: raw_of_message_Inl)
  moreover have "\<not> valid_utf8 (payload m)" using scan by (simp add: valid_utf8_def)
  ultimately show ?thesis
    using Inl utf8_scan_valid_up_to [OF scan] valid_utf8_iff_encoding [of "payload m"]
    by (simp add: valid_utf8_def)
next
  case (Inr r)
  then have "sendable m" using raw_of_message_ok [of m, where ?'a = 'c and ?'b = 'f] by simp
  with Inr show ?thesis
    by (auto simp: sendable_def valid_utf8_iff_encoding split: message_type.splits)
qed

theorem raw_of_message_total_witness:
  "raw_of_message \<lparr>message_type = Text, payload = [0x61, 0xC3, 0xA9, 0xFF]\<rparr>
     = (Inl \<lparr>valid_up_to = 3\<rparr> :: invalid_text_payload + (unit, unit) raw_message) \<and>
   \<not> (\<exists>cs. list_all scalar_value cs \<and> [0x61, 0xC3, 0xA9, 0xFF] = concat (map utf8_encode cs))"
proof -
  let ?m = "\<lparr>message_type = Text, payload = [0x61, 0xC3, 0xA9, 0xFF]\<rparr>"
  have "raw_of_message ?m = (Inl \<lparr>valid_up_to = 3\<rparr> :: invalid_text_payload + (unit, unit) raw_message)"
    by (simp add: raw_of_message_Inl cont_byte_def)
  with raw_of_message_total [of ?m, where ?'c = unit and ?'f = unit] show ?thesis by simp
qed

text \<open>
  C29. Receiving a tungstenite message and sending it on loses nothing but the close frame (the
  peer's close code and reason) and the content of a raw frame; and a message that was sent is
  received unchanged, but for the payload of a Close.
\<close>

theorem message_raw_roundtrip:
  assumes "wf_raw r" and "raw_of_message m = Inr q"
  shows "raw_of_message (message_of_raw r) = Inr (canonical_raw r) \<and>
    message_of_raw q = (if is_close m then close_msg else m)"
proof
  show "raw_of_message (message_of_raw r) = Inr (canonical_raw r)"
    using assms(1) by (cases r) (simp_all add: raw_of_message_def)
  show "message_of_raw q = (if is_close m then close_msg else m)"
    using assms(2) by (rule message_of_raw_of_message)
qed

theorem message_raw_roundtrip_witness:
  "raw_of_message (message_of_raw (RawText ''hi'')) = Inr (RawText ''hi'' :: (unit, unit) raw_message) \<and>
   message_of_raw (RawPing [1] :: (unit, unit) raw_message) = ping_msg [1]"
proof -
  have wf: "wf_raw (RawText ''hi'' :: (unit, unit) raw_message)" by code_simp
  have raw: "raw_of_message (ping_msg [1]) = Inr (RawPing [1] :: (unit, unit) raw_message)"
    by (simp add: raw_of_message_def)
  show ?thesis using message_raw_roundtrip [OF wf raw] by (simp add: is_close_def)
qed

end
