(* ===== verification/Ws_Runtime.thy ===== *)
theory Ws_Runtime imports Ws_Message begin

text \<open>
  The interface of the asynchronous runtime that connections rest on: tokio's \<open>mpsc\<close>
  channels and \<open>Notify\<close>.  They are not part of the repository, so the operations are a
  parameter of the model, the record \<open>runtime\<close>; what the crate relies on of their documented
  behaviour is the locale \<open>mpsc_channel\<close>, extended by \<open>tokio_runtime\<close> with the permit of a
  \<open>Notify\<close>.  The locale is interpreted on a first-in first-out buffer with a capacity and a
  flag for the receiver.
\<close>

datatype try_send_result = Sent | QueueFull | QueueClosed

record ('ch, 'nt) runtime =
  rt_channel :: "usize \<Rightarrow> 'ch"
  rt_try_send :: "message \<Rightarrow> 'ch \<Rightarrow> try_send_result \<times> 'ch"
  rt_recv :: "'ch \<Rightarrow> (message \<times> 'ch) option"
  rt_drop_rx :: "'ch \<Rightarrow> 'ch"
  rt_notify_new :: 'nt
  rt_notify_one :: "'nt \<Rightarrow> 'nt"
  rt_notified :: "'nt \<Rightarrow> 'nt option"

section \<open>The contract of a bounded channel\<close>

locale mpsc_channel =
  fixes rt :: "('ch, 'nt) runtime"
    and queued :: "'ch \<Rightarrow> message list"
    and capacity :: "'ch \<Rightarrow> nat"
    and rx_alive :: "'ch \<Rightarrow> bool"
  assumes channel_new: "0 < n \<Longrightarrow> queued (rt_channel rt n) = []"
      "0 < n \<Longrightarrow> capacity (rt_channel rt n) = unat n" "0 < n \<Longrightarrow> rx_alive (rt_channel rt n)"
    and try_send_closed: "\<not> rx_alive ch \<Longrightarrow> rt_try_send rt m ch = (QueueClosed, ch)"
    and try_send_full: "rx_alive ch \<Longrightarrow> capacity ch \<le> length (queued ch) \<Longrightarrow>
      rt_try_send rt m ch = (QueueFull, ch)"
    and try_send_room: "rx_alive ch \<Longrightarrow> length (queued ch) < capacity ch \<Longrightarrow>
      \<exists>ch'. rt_try_send rt m ch = (Sent, ch') \<and> queued ch' = queued ch @ [m] \<and>
        capacity ch' = capacity ch \<and> rx_alive ch'"
    and recv_empty: "queued ch = [] \<Longrightarrow> rt_recv rt ch = None"
    and recv_head: "queued ch = m # ms \<Longrightarrow>
      \<exists>ch'. rt_recv rt ch = Some (m, ch') \<and> queued ch' = ms \<and>
        capacity ch' = capacity ch \<and> rx_alive ch' = rx_alive ch"
    and drop_rx: "\<not> rx_alive (rt_drop_rx rt ch)" "capacity (rt_drop_rx rt ch) = capacity ch"
      "queued (rt_drop_rx rt ch) = []"
begin

text \<open>The answer of \<open>try_send\<close>, by the state of the channel.\<close>

lemma try_send_cases:
  obtains (sent) ch' where "rx_alive ch" "length (queued ch) < capacity ch"
      "rt_try_send rt m ch = (Sent, ch')" "queued ch' = queued ch @ [m]"
      "capacity ch' = capacity ch" "rx_alive ch'"
  | (full) "rx_alive ch" "capacity ch \<le> length (queued ch)" "rt_try_send rt m ch = (QueueFull, ch)"
  | (closed) "\<not> rx_alive ch" "rt_try_send rt m ch = (QueueClosed, ch)"
proof (cases "rx_alive ch")
  case False
  with try_send_closed show ?thesis by (intro closed)
next
  case alive: True
  show ?thesis
  proof (cases "length (queued ch) < capacity ch")
    case True
    with alive try_send_room [of ch m] show ?thesis by (blast intro: sent)
  next
    case False
    with alive try_send_full show ?thesis by (intro full) auto
  qed
qed

lemma try_send_capacity: "capacity (snd (rt_try_send rt m ch)) = capacity ch"
  by (rule try_send_cases [of ch m]) auto

lemma recv_cases:
  obtains (none) "queued ch = []" "rt_recv rt ch = None"
  | (some) m ch' where "rt_recv rt ch = Some (m, ch')" "queued ch = m # queued ch'"
      "capacity ch' = capacity ch" "rx_alive ch' = rx_alive ch"
proof (cases "queued ch")
  case Nil
  with recv_empty show ?thesis by (intro none)
next
  case (Cons m ms)
  from recv_head [OF this] obtain ch' where
    "rt_recv rt ch = Some (m, ch')" "queued ch' = ms" "capacity ch' = capacity ch"
    "rx_alive ch' = rx_alive ch" by blast
  with Cons show ?thesis by (intro some [of m ch']) simp_all
qed

lemma recv_capacity: "rt_recv rt ch = Some (m, ch') \<Longrightarrow> capacity ch' = capacity ch"
  by (cases rule: recv_cases [of ch]) auto

end

text \<open>
  \<open>Notify\<close>: \<open>notify_one\<close> stores a permit when nobody waits, and at most one is stored;
  \<open>notified\<close> completes by taking it.
\<close>

locale tokio_runtime = mpsc_channel rt queued capacity rx_alive
  for rt :: "('ch, 'nt) runtime" and queued capacity rx_alive +
  assumes notify_new: "rt_notified rt (rt_notify_new rt) = None"
    and notify_one: "\<exists>n'. rt_notified rt (rt_notify_one rt n) = Some n' \<and> rt_notified rt n' = None"
    and notified: "rt_notified rt n = Some n' \<Longrightarrow> rt_notified rt n' = None"
begin

lemma notified_notify_one: "rt_notified rt (rt_notify_one rt n) \<noteq> None"
  using notify_one [of n] by auto

end

section \<open>A first-in first-out buffer\<close>

record fifo =
  f_buf :: "message list"
  f_cap :: nat
  f_alive :: bool

definition fifo_new :: "usize \<Rightarrow> fifo" where
  "fifo_new n = \<lparr>f_buf = [], f_cap = unat n, f_alive = True\<rparr>"

definition fifo_try_send :: "message \<Rightarrow> fifo \<Rightarrow> try_send_result \<times> fifo" where
  "fifo_try_send m ch =
     (if \<not> f_alive ch then (QueueClosed, ch)
      else if f_cap ch \<le> length (f_buf ch) then (QueueFull, ch)
      else (Sent, ch\<lparr>f_buf := f_buf ch @ [m]\<rparr>))"

definition fifo_recv :: "fifo \<Rightarrow> (message \<times> fifo) option" where
  "fifo_recv ch = (case f_buf ch of [] \<Rightarrow> None | m # ms \<Rightarrow> Some (m, ch\<lparr>f_buf := ms\<rparr>))"

definition fifo_drop_rx :: "fifo \<Rightarrow> fifo" where
  "fifo_drop_rx ch = ch\<lparr>f_buf := [], f_alive := False\<rparr>"

definition fifo_runtime :: "(fifo, bool) runtime" where
  "fifo_runtime =
     \<lparr>rt_channel = fifo_new, rt_try_send = fifo_try_send, rt_recv = fifo_recv,
      rt_drop_rx = fifo_drop_rx, rt_notify_new = False, rt_notify_one = (\<lambda>_. True),
      rt_notified = (\<lambda>n. if n then Some False else None)\<rparr>"

lemmas fifo_defs = fifo_new_def fifo_try_send_def fifo_recv_def fifo_drop_rx_def fifo_runtime_def

interpretation fifo: tokio_runtime fifo_runtime f_buf f_cap f_alive
  by unfold_locales (auto simp: fifo_defs split: if_splits)

end
