(* ===== verification/Ws_Auth.thy ===== *)
theory Ws_Auth imports Ws_Utf8 begin

text \<open>
  \<open>auth.rs\<close>: principals, rejections, the authorizer hook and the origin policy.

  The upgrade request is an \<open>http::Request\<close>, which is not part of the repository.  What the
  policy reads of it is the parameter \<open>http_api\<close>: the values of its \<open>Origin\<close> headers in
  order (\<open>headers().get_all(ORIGIN)\<close>) and \<open>HeaderValue::to_str\<close>.
\<close>

record ('req, 'hv) http_api =
  origin_headers :: "'req \<Rightarrow> 'hv list"
  header_to_str :: "'hv \<Rightarrow> string option"

section \<open>Principals\<close>

text \<open>The attributes are a \<open>BTreeMap<String, String>\<close>: a map with finitely many keys.\<close>

record principal =
  subject :: "string option"
  attributes :: "string \<rightharpoonup> string"

definition principal_new :: "string \<Rightarrow> principal" where
  "principal_new s = \<lparr>subject = Some s, attributes = Map.empty\<rparr>"

definition principal_anonymous :: principal where
  "principal_anonymous = \<lparr>subject = None, attributes = Map.empty\<rparr>"

definition with_attribute :: "string \<Rightarrow> string \<Rightarrow> principal \<Rightarrow> principal" where
  "with_attribute k v p = p\<lparr>attributes := (attributes p)(k \<mapsto> v)\<rparr>"

definition principal_subject :: "principal \<Rightarrow> string option" where
  "principal_subject p = subject p"

definition is_anonymous :: "principal \<Rightarrow> bool" where
  "is_anonymous p \<longleftrightarrow> subject p = None"

definition attribute :: "principal \<Rightarrow> string \<Rightarrow> string option" where
  "attribute p k = attributes p k"

text \<open>The two fields the \<open>Debug\<close> implementation prints: every attribute value is replaced.\<close>

definition principal_debug :: "principal \<Rightarrow> string option \<times> (string \<rightharpoonup> string)" where
  "principal_debug p =
     (subject p, (\<lambda>k. map_option (\<lambda>_. ''[REDACTED]'') (attributes p k)))"

section \<open>Rejections\<close>

type_synonym status_code = nat

record handshake_rejection =
  rj_status :: status_code
  rj_reason :: string

definition rejection_new :: "status_code \<Rightarrow> string \<Rightarrow> handshake_rejection" where
  "rejection_new st r = \<lparr>rj_status = st, rj_reason = r\<rparr>"

definition rejection_unauthorized :: handshake_rejection where
  "rejection_unauthorized = rejection_new 401 ''Unauthorized''"

definition rejection_forbidden :: handshake_rejection where
  "rejection_forbidden = rejection_new 403 ''Forbidden''"

definition rejection_status :: "handshake_rejection \<Rightarrow> status_code" where
  "rejection_status r = rj_status r"

definition rejection_reason :: "handshake_rejection \<Rightarrow> string" where
  "rejection_reason r = rj_reason r"

section \<open>Authorizers\<close>

text \<open>
  An \<open>Arc<dyn HandshakeAuthorizer>\<close>: the opt-out type \<open>AllowAnonymous\<close>, which \<open>server.rs\<close>
  recognises by its \<open>TypeId\<close>, or any other implementation, given by its \<open>authorize\<close>
  (closures implement the trait by calling themselves).
\<close>

datatype 'req authorizer =
    AllowAnonymous
  | Custom "'req \<Rightarrow> handshake_rejection + principal"

fun authorize :: "'req authorizer \<Rightarrow> 'req \<Rightarrow> handshake_rejection + principal" where
  "authorize AllowAnonymous _ = Inr principal_anonymous"
| "authorize (Custom f) req = f req"

section \<open>String functions of the standard library\<close>

text \<open>
  \<open>str::trim\<close> removes characters with the Unicode property \<open>White_Space\<close>; on the bytes of a
  string that is one of these byte sequences at its start or at its end.
\<close>

definition white_spaces :: "string list" where
  "white_spaces =
     [[CHR 0x09], [CHR 0x0A], [CHR 0x0B], [CHR 0x0C], [CHR 0x0D], [CHR 0x20],
      [CHR 0xC2, CHR 0x85], [CHR 0xC2, CHR 0xA0], [CHR 0xE1, CHR 0x9A, CHR 0x80],
      [CHR 0xE2, CHR 0x80, CHR 0x80], [CHR 0xE2, CHR 0x80, CHR 0x81],
      [CHR 0xE2, CHR 0x80, CHR 0x82], [CHR 0xE2, CHR 0x80, CHR 0x83],
      [CHR 0xE2, CHR 0x80, CHR 0x84], [CHR 0xE2, CHR 0x80, CHR 0x85],
      [CHR 0xE2, CHR 0x80, CHR 0x86], [CHR 0xE2, CHR 0x80, CHR 0x87],
      [CHR 0xE2, CHR 0x80, CHR 0x88], [CHR 0xE2, CHR 0x80, CHR 0x89],
      [CHR 0xE2, CHR 0x80, CHR 0x8A], [CHR 0xE2, CHR 0x80, CHR 0xA8],
      [CHR 0xE2, CHR 0x80, CHR 0xA9], [CHR 0xE2, CHR 0x80, CHR 0xAF],
      [CHR 0xE2, CHR 0x81, CHR 0x9F], [CHR 0xE3, CHR 0x80, CHR 0x80]]"

fun is_prefix :: "'a list \<Rightarrow> 'a list \<Rightarrow> bool" where
  "is_prefix [] _ = True"
| "is_prefix (_ # _) [] = False"
| "is_prefix (x # xs) (y # ys) = (x = y \<and> is_prefix xs ys)"

text \<open>The length of the word of \<open>ws\<close> that \<open>s\<close> starts with, 0 if there is none.\<close>

fun leading_len :: "string list \<Rightarrow> string \<Rightarrow> nat" where
  "leading_len [] s = 0"
| "leading_len (w # ws) s = (if is_prefix w s then length w else leading_len ws s)"

fun trim_leading :: "string list \<Rightarrow> string \<Rightarrow> string" where
  "trim_leading ws [] = []"
| "trim_leading ws (c # cs) =
     (case leading_len ws (c # cs) of
        0 \<Rightarrow> c # cs
      | Suc n \<Rightarrow> trim_leading ws (drop n cs))"

definition str_trim :: "string \<Rightarrow> string" where
  "str_trim s =
     rev (trim_leading (map rev white_spaces) (rev (trim_leading white_spaces s)))"

definition trim_end_matches :: "char \<Rightarrow> string \<Rightarrow> string" where
  "trim_end_matches c s = rev (dropWhile (\<lambda>d. d = c) (rev s))"

definition ascii_lower :: "char \<Rightarrow> char" where
  "ascii_lower c =
     (let n = (of_char c :: nat) in if 65 \<le> n \<and> n \<le> 90 then char_of (n + 32) else c)"

definition to_ascii_lowercase :: "string \<Rightarrow> string" where
  "to_ascii_lowercase s = map ascii_lower s"

section \<open>The origin policy\<close>

datatype origin_policy =
    AllowList "string list"
  | Any

definition origin_policy_default :: origin_policy where
  "origin_policy_default = AllowList []"

definition normalize_origin :: "string \<Rightarrow> string" where
  "normalize_origin origin = to_ascii_lowercase (trim_end_matches (CHR ''/'') (str_trim origin))"

definition origin_rejected :: handshake_rejection where
  "origin_rejected = rejection_new 403 ''Origin not allowed''"

definition multiple_origins :: handshake_rejection where
  "multiple_origins = rejection_new 403 ''Multiple Origin headers''"

definition origin_check ::
  "('req, 'hv) http_api \<Rightarrow> origin_policy \<Rightarrow> 'req \<Rightarrow> handshake_rejection + unit" where
  "origin_check api policy req =
     (case origin_headers api req of
        [] \<Rightarrow> Inr ()
      | origin # others \<Rightarrow>
          (if others \<noteq> [] then Inl multiple_origins
           else
             (case policy of
                Any \<Rightarrow> Inr ()
              | AllowList allowed \<Rightarrow>
                  (case header_to_str api origin of
                     None \<Rightarrow> Inl origin_rejected
                   | Some s \<Rightarrow>
                       (let origin = normalize_origin s
                        in if list_ex (\<lambda>a. normalize_origin a = origin) allowed
                           then Inr () else Inl origin_rejected)))))"

text \<open>The decision the server takes on an upgrade request: the policy, then the authorizer.\<close>

definition admit ::
  "('req, 'hv) http_api \<Rightarrow> origin_policy \<Rightarrow> 'req authorizer \<Rightarrow> 'req
     \<Rightarrow> handshake_rejection + principal" where
  "admit api policy auth req = and_then (origin_check api policy req) (\<lambda>_. authorize auth req)"

section \<open>Principals: lemmas\<close>

lemmas principal_defs = principal_new_def principal_anonymous_def with_attribute_def
  is_anonymous_def attribute_def

lemma principal_simps [simp]:
  "subject (principal_new s) = Some s" "subject principal_anonymous = None"
  "subject (with_attribute k v p) = subject p"
  "attribute principal_anonymous k = None"
  "is_anonymous (with_attribute k v p) = is_anonymous p"
  "\<not> is_anonymous (principal_new s)" "is_anonymous principal_anonymous"
  by (simp_all add: principal_defs)

lemma attribute_with_attribute [simp]:
  "attribute (with_attribute k v p) j = (if j = k then Some v else attribute p j)"
  by (simp add: principal_defs)

section \<open>Trimming and lowering: lemmas\<close>

text \<open>The byte sequences are the encodings of the code points with the property.\<close>

lemma white_spaces_encode:
  "white_spaces = map (bytes_str \<circ> utf8_encode)
     ([0x09, 0x0A, 0x0B, 0x0C, 0x0D, 0x20, 0x85, 0xA0, 0x1680] @ [0x2000..<0x200B] @
      [0x2028, 0x2029, 0x202F, 0x205F, 0x3000])"
  by (simp add: white_spaces_def utf8_encode_def bytes_str_def char_of_u8_def upt_rec char_evals)

lemma is_prefix_iff: "is_prefix xs ys \<longleftrightarrow> (\<exists>zs. ys = xs @ zs)"
  by (induction xs ys rule: is_prefix.induct) auto

lemma trim_leading_suffix: "\<exists>p. s = p @ trim_leading ws s"
proof (induction ws s rule: trim_leading.induct)
  case (1 ws)
  show ?case by simp
next
  case (2 ws c cs)
  show ?case
  proof (cases "leading_len ws (c # cs)")
    case 0
    then show ?thesis by simp
  next
    case (Suc n)
    from "2.IH" [OF Suc] obtain p where "drop n cs = p @ trim_leading ws (drop n cs)" by blast
    then have "c # cs = (c # take n cs @ p) @ trim_leading ws (drop n cs)"
      by (metis append_Cons append_assoc append_take_drop_id)
    then have "c # cs = (c # take n cs @ p) @ trim_leading ws (c # cs)" using Suc by simp
    then show ?thesis by (rule exI)
  qed
qed

lemma trim_leading_stops: "leading_len ws (trim_leading ws s) = 0 \<or> trim_leading ws s = []"
  by (induction ws s rule: trim_leading.induct) (auto split: nat.splits)

lemma leading_len_zero: "(\<And>w. w \<in> set ws \<Longrightarrow> \<not> is_prefix w s) \<Longrightarrow> leading_len ws s = 0"
  by (induction ws) auto

lemma trim_leading_id: "leading_len ws s = 0 \<Longrightarrow> trim_leading ws s = s"
  by (cases s) auto

lemma ascii_lower_idem [simp]: "ascii_lower (ascii_lower c) = ascii_lower c"
  by (auto simp: ascii_lower_def Let_def)

lemma to_ascii_lowercase_idem [simp]:
  "to_ascii_lowercase (to_ascii_lowercase s) = to_ascii_lowercase s"
  by (simp add: to_ascii_lowercase_def comp_def)

lemma to_ascii_lowercase_append [simp]:
  "to_ascii_lowercase (s @ t) = to_ascii_lowercase s @ to_ascii_lowercase t"
  by (simp add: to_ascii_lowercase_def)

lemma trim_end_matches_last: "trim_end_matches c s = [] \<or> last (trim_end_matches c s) \<noteq> c"
proof (cases "dropWhile (\<lambda>d. d = c) (rev s)")
  case Nil
  then show ?thesis by (simp add: trim_end_matches_def)
next
  case (Cons d ds)
  then have "d \<noteq> c" using hd_dropWhile [of "\<lambda>d. d = c" "rev s"] by simp
  with Cons show ?thesis by (simp add: trim_end_matches_def)
qed

section \<open>Trimming white space\<close>

text \<open>No white space is a prefix of another, forwards or backwards.\<close>

lemma white_spaces_prefix_free:
  "\<forall>w \<in> set white_spaces. \<forall>v \<in> set white_spaces. is_prefix w v \<longrightarrow> w = v"
  by (simp add: white_spaces_def)

lemma rev_white_spaces_prefix_free:
  "\<forall>w \<in> set (map rev white_spaces). \<forall>v \<in> set (map rev white_spaces). is_prefix w v \<longrightarrow> w = v"
  by (simp add: white_spaces_def)

lemma white_spaces_nonempty: "\<forall>w \<in> set white_spaces. w \<noteq> []"
  by (simp add: white_spaces_def)

lemma is_prefix_append_cases:
  "is_prefix w (v @ u) \<Longrightarrow> is_prefix w v \<or> is_prefix v w"
  by (induction w v rule: is_prefix.induct) auto

lemma leading_len_word:
  assumes "v \<in> set ws" and "\<forall>w \<in> set ws. \<forall>v \<in> set ws. is_prefix w v \<longrightarrow> w = v"
  shows "leading_len ws (v @ u) = length v"
proof -
  have sub: "set ws' \<subseteq> set ws \<Longrightarrow> v \<in> set ws' \<Longrightarrow> leading_len ws' (v @ u) = length v" for ws'
  proof (induction ws')
    case Nil
    then show ?case by simp
  next
    case (Cons w ws')
    show ?case
    proof (cases "is_prefix w (v @ u)")
      case True
      then have "w = v"
        using is_prefix_append_cases [OF True] assms Cons.prems by auto
      with True show ?thesis by simp
    next
      case False
      moreover have "is_prefix v (v @ u)" by (simp add: is_prefix_iff)
      ultimately have "w \<noteq> v" by auto
      with Cons False show ?thesis by auto
    qed
  qed
  from sub [of ws] assms(1) show ?thesis by simp
qed

lemma trim_leading_words:
  assumes "\<forall>w \<in> set ws. \<forall>v \<in> set ws. is_prefix w v \<longrightarrow> w = v" and "\<forall>w \<in> set ws. w \<noteq> []"
    and "set vs \<subseteq> set ws" and "leading_len ws u = 0"
  shows "trim_leading ws (concat vs @ u) = u"
  using assms(3)
proof (induction vs)
  case Nil
  show ?case using trim_leading_id [OF assms(4)] by simp
next
  case (Cons v vs)
  then obtain c cs where v: "v = c # cs" using assms(2) by (cases v) auto
  have "leading_len ws (v @ (concat vs @ u)) = length v"
    using Cons.prems assms(1) by (intro leading_len_word) auto
  then have "trim_leading ws (v @ (concat vs @ u)) = trim_leading ws (concat vs @ u)"
    by (simp add: v)
  with Cons show ?case by simp
qed

text \<open>A visible ASCII character other than a space.\<close>

definition visible :: "char \<Rightarrow> bool" where
  "visible c \<longleftrightarrow> (33::nat) \<le> of_char c \<and> of_char c < (127::nat)"

lemma white_spaces_not_visible:
  "\<forall>w \<in> set white_spaces. \<not> visible (hd w) \<and> \<not> visible (last w)"
  by (simp add: white_spaces_def visible_def)

lemma is_prefix_hd: "is_prefix w (c # s) \<Longrightarrow> w \<noteq> [] \<Longrightarrow> hd w = c"
  by (cases w) auto

lemma visible_no_white_space:
  assumes "visible c"
  shows "leading_len white_spaces (c # s) = 0" "leading_len (map rev white_spaces) (c # s) = 0"
proof -
  show "leading_len white_spaces (c # s) = 0"
    using assms white_spaces_not_visible white_spaces_nonempty
    by (intro leading_len_zero) (blast dest: is_prefix_hd)
  have "hd (rev w) = c" if "w \<in> set white_spaces" "is_prefix (rev w) (c # s)" for w
    using that white_spaces_nonempty by (intro is_prefix_hd) auto
  then show "leading_len (map rev white_spaces) (c # s) = 0"
    using assms white_spaces_not_visible
    by (intro leading_len_zero) (auto simp: hd_rev)
qed

lemma str_trim_padded:
  assumes "set pre \<subseteq> set white_spaces" "set post \<subseteq> set white_spaces"
    and "u \<noteq> []" "visible (hd u)" "visible (last u)"
  shows "str_trim (concat pre @ u @ concat post) = u"
proof -
  obtain c cs where u: "u = c # cs" using assms(3) by (cases u) auto
  have "leading_len white_spaces (u @ concat post) = 0"
    using assms(4) u visible_no_white_space by simp
  then have 1: "trim_leading white_spaces (concat pre @ u @ concat post) = u @ concat post"
    by (intro trim_leading_words white_spaces_prefix_free white_spaces_nonempty assms(1))
  obtain d ds where ru: "rev u = d # ds" and d: "d = last u"
    using assms(3) by (metis last_rev list.collapse rev_is_Nil_conv rev_rev_ident hd_rev)
  have "set (map rev (rev post)) \<subseteq> set (map rev white_spaces)" using assms(2) by auto
  moreover have "\<forall>w \<in> set (map rev white_spaces). w \<noteq> []" using white_spaces_nonempty by auto
  moreover have "leading_len (map rev white_spaces) (rev u) = 0"
    using assms(5) visible_no_white_space(2) by (simp add: ru d)
  ultimately have "trim_leading (map rev white_spaces) (concat (map rev (rev post)) @ rev u) = rev u"
    by (intro trim_leading_words rev_white_spaces_prefix_free)
  moreover have "rev (u @ concat post) = concat (map rev (rev post)) @ rev u"
    by (simp add: rev_concat rev_map)
  ultimately show ?thesis by (simp add: str_trim_def 1)
qed

section \<open>Origins\<close>

text \<open>A non-empty origin of visible ASCII characters, none a capital, not ending in a slash.\<close>

definition canonical_origin :: "string \<Rightarrow> bool" where
  "canonical_origin s \<longleftrightarrow>
     s \<noteq> [] \<and> list_all visible s \<and> to_ascii_lowercase s = s \<and> last s \<noteq> CHR ''/''"

lemma ascii_lower_slash: "ascii_lower c = CHR ''/'' \<longleftrightarrow> c = CHR ''/''"
proof -
  have "ascii_lower c = CHR ''/'' \<Longrightarrow> c = CHR ''/''"
    by (auto simp: ascii_lower_def Let_def char_evals take_bit_eq_mod split: if_splits)
  then show ?thesis by (auto simp: ascii_lower_def)
qed

lemma visible_ascii_lower: "visible (ascii_lower c) \<longleftrightarrow> visible c"
  by (auto simp: visible_def ascii_lower_def Let_def split: if_splits)

lemma trim_end_matches_replicate:
  "t \<noteq> [] \<Longrightarrow> last t \<noteq> c \<Longrightarrow> trim_end_matches c (t @ replicate n c) = t"
proof -
  assume "t \<noteq> []" "last t \<noteq> c"
  then obtain ds d where t: "t = ds @ [d]" "d \<noteq> c" by (metis append_butlast_last_id)
  have "dropWhile (\<lambda>d. d = c) (replicate n c @ xs) = dropWhile (\<lambda>d. d = c) xs" for xs
    by (induction n) auto
  then show ?thesis by (simp add: trim_end_matches_def t)
qed

lemma list_all_visible_lower: "list_all visible (to_ascii_lowercase t) \<longleftrightarrow> list_all visible t"
  by (simp add: list_all_iff to_ascii_lowercase_def visible_ascii_lower)

lemma last_to_ascii_lowercase: "t \<noteq> [] \<Longrightarrow> last (to_ascii_lowercase t) = ascii_lower (last t)"
  by (simp add: to_ascii_lowercase_def last_map)

text \<open>Case, trailing slashes and surrounding white space do not matter in the comparison.\<close>

lemma normalize_origin_padded:
  assumes s: "canonical_origin s" and t: "to_ascii_lowercase t = s"
    and ws: "set pre \<subseteq> set white_spaces" "set post \<subseteq> set white_spaces"
  shows "normalize_origin (concat pre @ (t @ replicate n (CHR ''/'')) @ concat post) = s"
proof -
  have t0: "t \<noteq> []" using s t by (auto simp: canonical_origin_def to_ascii_lowercase_def)
  have vis: "list_all visible t"
    using s t list_all_visible_lower by (auto simp: canonical_origin_def)
  have "visible (hd t)" "visible (last t)" using vis t0 by (auto simp: list_all_iff)
  moreover have "visible (CHR ''/'')" by (simp add: visible_def)
  ultimately have "visible (hd (t @ replicate n (CHR ''/'')))" "visible (last (t @ replicate n (CHR ''/'')))"
    using t0 by (auto simp: last_append)
  with ws t0 have "str_trim (concat pre @ (t @ replicate n (CHR ''/'')) @ concat post)
      = t @ replicate n (CHR ''/'')"
    by (intro str_trim_padded) auto
  moreover have "last t \<noteq> CHR ''/''"
    using s t t0 last_to_ascii_lowercase [OF t0] ascii_lower_slash by (auto simp: canonical_origin_def)
  ultimately show ?thesis
    using t0 t trim_end_matches_replicate by (simp add: normalize_origin_def)
qed

lemma normalize_canonical: "canonical_origin s \<Longrightarrow> normalize_origin s = s"
  using normalize_origin_padded [of s s "[]" "[]" 0] by (simp add: canonical_origin_def)

section \<open>What the comparison of origins means\<close>

text \<open>
  Stated apart from the functions that compute it: the core of an origin is what is left of it
  without the white space around it and the slashes after that, and two characters are the same but
  for their case when they are equal or the capital and the small form of one letter.
\<close>

definition no_outer_space :: "string \<Rightarrow> bool" where
  "no_outer_space t \<longleftrightarrow> (\<forall>w \<in> set white_spaces. (\<forall>r. t \<noteq> w @ r) \<and> (\<forall>r. t \<noteq> r @ w))"

definition trimmed :: "string \<Rightarrow> string \<Rightarrow> bool" where
  "trimmed s t \<longleftrightarrow> no_outer_space t \<and>
     (\<exists>pre post. set pre \<subseteq> set white_spaces \<and> set post \<subseteq> set white_spaces \<and>
        s = concat pre @ t @ concat post)"

definition origin_core :: "string \<Rightarrow> string \<Rightarrow> bool" where
  "origin_core s u \<longleftrightarrow>
     (\<exists>n. trimmed s (u @ replicate n (CHR ''/''))) \<and> (u = [] \<or> last u \<noteq> CHR ''/'')"

definition capital_of :: "char \<Rightarrow> char \<Rightarrow> bool" where
  "capital_of c d \<longleftrightarrow> (65::nat) \<le> of_char c \<and> of_char c \<le> (90::nat) \<and> of_char d = of_char c + (32::nat)"

definition same_letter :: "char \<Rightarrow> char \<Rightarrow> bool" where
  "same_letter c d \<longleftrightarrow> c = d \<or> capital_of c d \<or> capital_of d c"

definition same_origin :: "string \<Rightarrow> string \<Rightarrow> bool" where
  "same_origin s a \<longleftrightarrow> (\<exists>u v. origin_core s u \<and> origin_core a v \<and> list_all2 same_letter u v)"

text \<open>A white space starts with a byte that is not a continuation byte and goes on with such.\<close>

definition continuation :: "char \<Rightarrow> bool" where
  "continuation c \<longleftrightarrow> (128::nat) \<le> of_char c \<and> of_char c < (192::nat)"

lemma white_spaces_bytes:
  "\<forall>w \<in> set white_spaces. \<not> continuation (hd w) \<and> list_all continuation (tl w)"
  by (simp add: white_spaces_def continuation_def)

lemma leading_len_zero_iff:
  "\<forall>w \<in> set ws. w \<noteq> [] \<Longrightarrow> leading_len ws s = 0 \<longleftrightarrow> (\<forall>w \<in> set ws. \<not> is_prefix w s)"
  by (induction ws) auto

lemma leading_len_found:
  "leading_len ws s = Suc n \<Longrightarrow> \<exists>w \<in> set ws. length w = Suc n \<and> is_prefix w s"
  by (induction ws) (auto split: if_splits)

lemma trim_leading_splits: "\<exists>vs. set vs \<subseteq> set ws \<and> s = concat vs @ trim_leading ws s"
proof (induction ws s rule: trim_leading.induct)
  case (1 ws)
  show ?case by (intro exI [of _ "[]"]) simp
next
  case (2 ws c cs)
  show ?case
  proof (cases "leading_len ws (c # cs)")
    case 0
    then show ?thesis by (intro exI [of _ "[]"]) simp
  next
    case (Suc n)
    from leading_len_found [OF this] obtain w where w: "w \<in> set ws" "length w = Suc n" "is_prefix w (c # cs)"
      by blast
    then obtain zs where zs: "c # cs = w @ zs" by (auto simp: is_prefix_iff)
    have "drop (length w) (c # cs) = zs" unfolding zs by simp
    then have "drop n cs = zs" unfolding w(2) by simp
    then have "c # cs = w @ drop n cs" using zs by simp
    moreover from "2.IH" [OF Suc] obtain vs where
      "set vs \<subseteq> set ws" "drop n cs = concat vs @ trim_leading ws (drop n cs)" by blast
    moreover have "trim_leading ws (c # cs) = trim_leading ws (drop n cs)" using Suc by simp
    ultimately have "c # cs = concat (w # vs) @ trim_leading ws (c # cs)" "set (w # vs) \<subseteq> set ws"
      using w(1) by simp_all
    then show ?thesis by blast
  qed
qed

lemma trim_leading_stuck:
  assumes "\<forall>w \<in> set ws. w \<noteq> []"
  shows "leading_len ws (trim_leading ws s) = 0"
  using trim_leading_stops [of ws s] leading_len_zero_iff [OF assms, of "[]"] assms
  by (auto simp: is_prefix_iff)

lemma rev_white_spaces_nonempty: "\<forall>w \<in> set (map rev white_spaces). w \<noteq> []"
  using white_spaces_nonempty by auto

lemma is_prefix_rev_iff: "is_prefix (rev w) (rev t) \<longleftrightarrow> (\<exists>r. t = r @ w)"
  by (auto simp: is_prefix_iff) (metis rev_append rev_rev_ident)

lemma no_outer_space_iff:
  "no_outer_space t \<longleftrightarrow> leading_len white_spaces t = 0 \<and> leading_len (map rev white_spaces) (rev t) = 0"
  unfolding leading_len_zero_iff [OF white_spaces_nonempty] leading_len_zero_iff [OF rev_white_spaces_nonempty]
  by (auto simp: no_outer_space_def is_prefix_rev_iff) (auto simp: is_prefix_iff)

text \<open>No white space runs over the end of a text into the white space after it.\<close>

lemma no_straddling_space:
  assumes "leading_len white_spaces t = 0" and "t \<noteq> []" and "set post \<subseteq> set white_spaces"
  shows "leading_len white_spaces (t @ concat post) = 0"
proof (rule leading_len_zero)
  fix w assume w: "w \<in> set white_spaces"
  have no: "\<not> is_prefix w t" using assms(1) w leading_len_zero_iff [OF white_spaces_nonempty] by blast
  show "\<not> is_prefix w (t @ concat post)"
  proof
    assume "is_prefix w (t @ concat post)"
    then obtain r z where r: "w = t @ r" "concat post = r @ z" "r \<noteq> []"
      using no by (auto simp: is_prefix_iff append_eq_append_conv2)
    then obtain v vs where post: "post = v # vs" by (cases post) auto
    then have v: "v \<in> set white_spaces" "v \<noteq> []" using assms(3) white_spaces_nonempty by auto
    have "v @ concat vs = r @ z" using r(2) post by simp
    then have "hd v = hd r" using v(2) r(3) by (metis hd_append2)
    moreover have "hd r \<in> set (tl w)" using r(1,3) assms(2) by (cases t) auto
    moreover have "\<not> continuation (hd v)" "list_all continuation (tl w)"
      using white_spaces_bytes v(1) w by blast+
    ultimately show False by (simp add: list_all_iff)
  qed
qed

lemma str_trim_unique: "trimmed s t \<longleftrightarrow> t = str_trim s"
proof
  assume "trimmed s t"
  then obtain pre post where s: "s = concat pre @ t @ concat post"
    and ws: "set pre \<subseteq> set white_spaces" "set post \<subseteq> set white_spaces"
    and t: "leading_len white_spaces t = 0" "leading_len (map rev white_spaces) (rev t) = 0"
    by (auto simp: trimmed_def no_outer_space_iff)
  show "t = str_trim s"
  proof (cases "t = []")
    case True
    then have "s = concat (pre @ post) @ []" using s by simp
    moreover have "trim_leading white_spaces (concat (pre @ post) @ []) = []"
      by (rule trim_leading_words [OF white_spaces_prefix_free white_spaces_nonempty])
        (use ws t(1) True in auto)
    ultimately have "trim_leading white_spaces s = []" by simp
    with True show ?thesis by (simp add: str_trim_def)
  next
    case False
    then have "trim_leading white_spaces s = t @ concat post"
      unfolding s by (intro trim_leading_words white_spaces_prefix_free white_spaces_nonempty ws
        no_straddling_space t(1))
    moreover have "set (map rev (rev post)) \<subseteq> set (map rev white_spaces)" using ws(2) by auto
    then have "trim_leading (map rev white_spaces) (concat (map rev (rev post)) @ rev t) = rev t"
      by (intro trim_leading_words rev_white_spaces_prefix_free rev_white_spaces_nonempty t(2))
    ultimately show ?thesis by (simp add: str_trim_def rev_concat rev_map)
  qed
next
  assume t: "t = str_trim s"
  obtain pre where pre: "set pre \<subseteq> set white_spaces" "s = concat pre @ trim_leading white_spaces s"
    using trim_leading_splits by blast
  obtain post where post: "set post \<subseteq> set (map rev white_spaces)"
      "rev (trim_leading white_spaces s) = concat post @ rev t"
    using trim_leading_splits [of "map rev white_spaces" "rev (trim_leading white_spaces s)"]
    by (auto simp: t str_trim_def)
  from post(2) have "rev (rev (trim_leading white_spaces s)) = rev (concat post @ rev t)" by (rule arg_cong)
  then have split: "trim_leading white_spaces s = t @ concat (rev (map rev post))"
    by (simp add: rev_concat rev_map)
  have "set (rev (map rev post)) \<subseteq> set white_spaces" using post(1) by auto
  moreover have "leading_len white_spaces (t @ concat (rev (map rev post))) = 0"
    using trim_leading_stuck [OF white_spaces_nonempty, of s] split by simp
  then have "leading_len white_spaces t = 0"
    unfolding leading_len_zero_iff [OF white_spaces_nonempty] by (auto simp: is_prefix_iff)
  moreover have "leading_len (map rev white_spaces) (rev t) = 0"
    unfolding t str_trim_def by (simp add: trim_leading_stuck rev_white_spaces_nonempty)
  moreover have "s = concat pre @ t @ concat (rev (map rev post))" using pre(2) split by simp
  ultimately show "trimmed s t"
    unfolding trimmed_def no_outer_space_iff
    by (intro conjI exI [of _ pre] exI [of _ "rev (map rev post)"] pre(1))
qed

lemma trim_end_matches_unique:
  "(\<exists>n. t = u @ replicate n c) \<and> (u = [] \<or> last u \<noteq> c) \<longleftrightarrow> u = trim_end_matches c t"
proof
  assume "(\<exists>n. t = u @ replicate n c) \<and> (u = [] \<or> last u \<noteq> c)"
  moreover have "trim_end_matches c (replicate n c) = []" for n
    by (simp add: trim_end_matches_def)
  ultimately show "u = trim_end_matches c t" using trim_end_matches_replicate [of u c] by fastforce
next
  assume u: "u = trim_end_matches c t"
  let ?P = "\<lambda>d. d = c"
  have "rev t = replicate (length (takeWhile ?P (rev t))) c @ dropWhile ?P (rev t)"
    by (metis (mono_tags, lifting) replicate_length_same set_takeWhileD takeWhile_dropWhile_id)
  then have "t = u @ replicate (length (takeWhile ?P (rev t))) c"
    unfolding u trim_end_matches_def by (metis rev_append rev_replicate rev_rev_ident)
  then show "(\<exists>n. t = u @ replicate n c) \<and> (u = [] \<or> last u \<noteq> c)"
    using trim_end_matches_last [of c t] unfolding u [symmetric] by blast
qed

lemma origin_core_iff: "origin_core s u \<longleftrightarrow> u = trim_end_matches (CHR ''/'') (str_trim s)"
  unfolding origin_core_def str_trim_unique trim_end_matches_unique [symmetric] by metis

lemma ascii_lower_eq_iff: "ascii_lower c = ascii_lower d \<longleftrightarrow> same_letter c d"
proof -
  have "(of_char (char_of (n + 32)) :: nat) = n + 32" if "n \<le> 90" for n :: nat
    using that by (simp add: take_bit_eq_mod)
  then show ?thesis
    by (auto simp: ascii_lower_def same_letter_def capital_of_def Let_def of_char_eq_iff [symmetric, where ?'a = nat]
        simp del: of_char_eq_iff split: if_splits)
qed

lemma same_origin_iff: "same_origin s a \<longleftrightarrow> normalize_origin a = normalize_origin s"
proof -
  have "list_all2 same_letter u v \<longleftrightarrow> to_ascii_lowercase v = to_ascii_lowercase u" for u v
    by (auto simp: to_ascii_lowercase_def list_all2_conv_all_nth list_eq_iff_nth_eq ascii_lower_eq_iff [symmetric])
  then show ?thesis by (auto simp: same_origin_def origin_core_iff normalize_origin_def)
qed

section \<open>Decisions\<close>

lemmas rejection_defs = rejection_new_def rejection_unauthorized_def rejection_forbidden_def
  origin_rejected_def multiple_origins_def

lemma origin_check_status: "origin_check api policy req = Inl r \<Longrightarrow> rj_status r = 403"
  by (auto simp: origin_check_def rejection_defs Let_def
      split: list.splits if_splits origin_policy.splits option.splits)

lemma origin_check_Inr_iff:
  "origin_check api policy req = Inr u \<longleftrightarrow>
     origin_headers api req = [] \<or>
     (\<exists>h. origin_headers api req = [h] \<and>
        (policy = Any \<or>
         (\<exists>allowed s a. policy = AllowList allowed \<and> header_to_str api h = Some s \<and>
            a \<in> set allowed \<and> normalize_origin a = normalize_origin s)))"
  by (auto simp: origin_check_def Let_def list_ex_iff
      split: list.splits if_splits origin_policy.splits option.splits)

lemma admit_Inr_iff:
  "admit api policy auth req = Inr p \<longleftrightarrow>
     is_ok (origin_check api policy req) \<and> authorize auth req = Inr p"
  by (auto simp: admit_def and_then_Inr_iff is_ok_iff)

lemma admit_no_origin: "origin_headers api req = [] \<Longrightarrow> admit api policy auth req = authorize auth req"
  by (simp add: admit_def origin_check_def)

lemma admit_rejected: "origin_check api policy req = Inl r \<Longrightarrow> admit api policy auth req = Inl r"
  by (simp add: admit_def)

section \<open>Properties\<close>

text \<open>Requests given by their \<open>Origin\<close> headers, for the witnesses.\<close>

definition sample_http :: "(string list, string) http_api" where
  "sample_http = \<lparr>origin_headers = (\<lambda>r. r), header_to_str = Some\<rparr>"

text \<open>
  C28. The origin policy lets a request through exactly when it has no Origin header, or a single
  one that the policy accepts: any value for \<open>Any\<close>, and for an allow-list a readable value that is
  an entry but for the case of its letters, the slashes after it and the white space around both.
  Several Origin headers are refused even by \<open>Any\<close>, and every refusal has status 403.
\<close>

theorem origin_check_characterised:
  "(is_ok (origin_check api policy req) \<longleftrightarrow>
      origin_headers api req = [] \<or>
      (\<exists>h. origin_headers api req = [h] \<and>
         (policy = Any \<or>
          (\<exists>allowed s a. policy = AllowList allowed \<and> header_to_str api h = Some s \<and>
             a \<in> set allowed \<and> same_origin s a)))) \<and>
   (\<forall>r. origin_check api policy req = Inl r \<longrightarrow> rj_status r = 403)"
  using origin_check_Inr_iff [of api policy req] origin_check_status [of api policy req]
  by (auto simp: is_ok_iff same_origin_iff)

theorem origin_check_characterised_witness:
  "is_ok (origin_check sample_http (AllowList [''x'', ''https://A.b'']) ['' HTTPS://a.b// '']) \<and>
   \<not> is_ok (origin_check sample_http (AllowList [''x'', ''https://A.b'']) [''https://a.bc'']) \<and>
   rj_status (projl (origin_check sample_http Any [''a'', ''b''])) = 403"
proof -
  have eq: "same_origin '' HTTPS://a.b// '' ''https://A.b''" "\<not> same_origin ''https://a.bc'' ''https://A.b''"
    "\<not> same_origin ''https://a.bc'' ''x''"
    by (simp_all add: same_origin_iff normalize_origin_def str_trim_def white_spaces_def trim_end_matches_def
        to_ascii_lowercase_def ascii_lower_def char_evals)
  have "origin_check sample_http Any [''a'', ''b''] = Inl multiple_origins"
    by (simp add: origin_check_def sample_http_def)
  then have "rj_status (projl (origin_check sample_http Any [''a'', ''b''])) = 403"
    using origin_check_characterised [of sample_http Any "[''a'', ''b'']"] by simp
  moreover have "is_ok (origin_check sample_http (AllowList [''x'', ''https://A.b'']) ['' HTTPS://a.b// ''])"
    using origin_check_characterised [of sample_http "AllowList [''x'', ''https://A.b'']" "['' HTTPS://a.b// '']"] eq(1)
    by (auto simp: sample_http_def)
  moreover have "\<not> is_ok (origin_check sample_http (AllowList [''x'', ''https://A.b'']) [''https://a.bc''])"
    using origin_check_characterised [of sample_http "AllowList [''x'', ''https://A.b'']" "[''https://a.bc'']"] eq(2,3)
    by (auto simp: sample_http_def)
  ultimately show ?thesis by blast
qed

text \<open>A spelling of an origin: in any case, with white space around it and slashes after it.\<close>

definition origin_variant :: "string \<Rightarrow> string \<Rightarrow> bool" where
  "origin_variant s t \<longleftrightarrow>
     (\<exists>pre post u n. set pre \<subseteq> set white_spaces \<and> set post \<subseteq> set white_spaces \<and>
        to_ascii_lowercase u = s \<and> t = concat pre @ (u @ replicate n (CHR ''/'')) @ concat post)"

lemma normalize_variant: "canonical_origin s \<Longrightarrow> origin_variant s t \<Longrightarrow> normalize_origin t = s"
  unfolding origin_variant_def using normalize_origin_padded by blast

text \<open>
  Comparing origins ignores case, trailing slashes and surrounding white space, on both
  sides: an allow-list with an entry that is a variant of a canonical origin accepts every
  variant of it, and accepts no canonical origin its entries are not variants of.
\<close>

theorem origin_variants_accepted:
  assumes "\<And>a. a \<in> set allowed \<Longrightarrow> \<exists>s \<in> S. canonical_origin s \<and> origin_variant s a"
    and "\<And>s. s \<in> S \<Longrightarrow> \<exists>a \<in> set allowed. origin_variant s a"
    and "canonical_origin s" "origin_variant s t"
    and "origin_headers api req = [h]" "header_to_str api h = Some t"
  shows "is_ok (origin_check api (AllowList allowed) req) \<longleftrightarrow> s \<in> S"
proof -
  have t: "normalize_origin t = s" using assms(3,4) by (rule normalize_variant)
  have "(\<exists>a \<in> set allowed. normalize_origin a = s) \<longleftrightarrow> s \<in> S"
    using assms(1,2,3) normalize_variant by metis
  then show ?thesis
    using origin_check_Inr_iff [of api "AllowList allowed" req] assms(5,6) t
    by (auto simp: is_ok_iff)
qed

theorem origin_variants_accepted_witness:
  "is_ok (origin_check sample_http (AllowList [''HTTPS://A.b/'']) ['' https://a.B''])"
proof -
  have low: "to_ascii_lowercase ''HTTPS://A.b'' = ''https://a.b''"
    "to_ascii_lowercase ''https://a.B'' = ''https://a.b''"
    "to_ascii_lowercase ''https://a.b'' = ''https://a.b''"
    by (simp_all add: to_ascii_lowercase_def ascii_lower_def char_evals)
  have c: "canonical_origin ''https://a.b''"
    by (simp add: canonical_origin_def visible_def low)
  have "[CHR 0x20] \<in> set white_spaces" by (simp add: white_spaces_def)
  then have v2: "origin_variant ''https://a.b'' '' https://a.B''"
    unfolding origin_variant_def using low(2)
    by (intro exI [of _ "['' '']"] exI [of _ "[]"] exI [of _ "''https://a.B''"] exI [of _ 0]) simp
  have v1: "origin_variant ''https://a.b'' ''HTTPS://A.b/''"
    unfolding origin_variant_def using low(1)
    by (intro exI [of _ "[]"] exI [of _ "''HTTPS://A.b''"] exI [of _ 1]) simp
  show ?thesis
    using origin_variants_accepted [of "[''HTTPS://A.b/'']" "{''https://a.b''}" "''https://a.b''"
        "'' https://a.B''" sample_http "['' https://a.B'']" "'' https://a.B''"] c v1 v2
    by (simp add: sample_http_def)
qed

text \<open>
  A request is admitted exactly when the origin policy and then the authorizer accept it,
  with the authorizer's principal; when the policy refuses, the authorizer has no say (the
  answer is the policy's for every authorizer), and \<open>AllowAnonymous\<close> admits whatever the policy
  lets through, as the anonymous principal without attributes.
\<close>

theorem admission:
  "(admit api policy auth req = Inr p \<longleftrightarrow>
      is_ok (origin_check api policy req) \<and> authorize auth req = Inr p) \<and>
   (\<forall>r. origin_check api policy req = Inl r \<longrightarrow> (\<forall>a. admit api policy a req = Inl r)) \<and>
   (admit api policy AllowAnonymous req = Inr p \<longrightarrow>
      is_anonymous p \<and> (\<forall>k. attribute p k = None))"
  by (auto simp: admit_Inr_iff admit_rejected)

theorem admission_witness:
  "admit sample_http (AllowList []) (Custom (\<lambda>_. Inr (principal_new ''u''))) [''https://a''] = Inl origin_rejected \<and>
   admit sample_http (AllowList []) AllowAnonymous [] = Inr principal_anonymous \<and>
   is_anonymous principal_anonymous"
proof -
  have "origin_check sample_http (AllowList []) [''https://a''] = Inl origin_rejected"
    "origin_check sample_http (AllowList []) [] = Inr ()"
    by (simp_all add: origin_check_def sample_http_def)
  then show ?thesis
    using admission [of sample_http "AllowList []" AllowAnonymous "[''https://a'']"]
      admission [of sample_http "AllowList []" AllowAnonymous "[]" principal_anonymous]
    by simp
qed

text \<open>
  The \<open>Debug\<close> output of a principal shows its subject and the names of its attributes and
  nothing of their values: two principals look the same exactly when those two agree.
\<close>

theorem principal_debug_reveals:
  "principal_debug p = principal_debug q \<longleftrightarrow>
     subject p = subject q \<and> dom (attributes p) = dom (attributes q)"
proof
  assume eq: "principal_debug p = principal_debug q"
  have "dom (attributes r) = dom (snd (principal_debug r))" for r
    by (simp add: principal_debug_def dom_def)
  then have "dom (attributes p) = dom (attributes q)" using eq by metis
  with eq show "subject p = subject q \<and> dom (attributes p) = dom (attributes q)"
    by (simp add: principal_debug_def)
next
  assume "subject p = subject q \<and> dom (attributes p) = dom (attributes q)"
  moreover have "map_option (\<lambda>_. r) (attributes p k) = map_option (\<lambda>_. r) (attributes q k)"
    if "dom (attributes p) = dom (attributes q)" for k and r :: string
    using that domIff [of k "attributes p"] domIff [of k "attributes q"]
    by (cases "attributes p k"; cases "attributes q k") simp_all
  ultimately show "principal_debug p = principal_debug q"
    by (simp add: principal_debug_def fun_eq_iff)
qed

end
