(* ===== verification/Ws_Connection.thy ===== *)
theory Ws_Connection imports Ws_Runtime Ws_Auth begin

text \<open>
  \<open>connection.rs\<close>: the state machine of a connection and its bounded outbound queue.

  A \<open>Connection\<close> is a handle.  Its clones share the \<open>Arc\<close>ed state, the channel and the
  eviction \<open>Notify\<close>; these three form a \<open>cell\<close>, a handle carries the address of its cell, and
  the cells are a store from addresses to cells.  Operations on a handle act on its cell.
  \<open>send\<close>, \<open>close\<close> and \<open>evict\<close> are given as one step each here; the theory of interleavings
  splits them into the atomic accesses they make.
\<close>

datatype conn_state = Connecting | Open | Closing | Closed

text \<open>\<open>std::net::SocketAddr\<close>.\<close>

datatype socket_addr =
    V4 "u8 \<times> u8 \<times> u8 \<times> u8" u16
  | V6 "u16 list" u16 u32 u32

record ('ch, 'nt) cell =
  c_state :: conn_state
  c_tx :: 'ch
  c_evict :: 'nt

type_synonym ('ch, 'nt) cells = "nat \<Rightarrow> ('ch, 'nt) cell"

record connection =
  conn_id :: string
  remote_addr :: "socket_addr option"
  conn_principal :: principal
  conn_cell :: nat

type_synonym ('t, 'i, 's, 'a) ws_result = "('t, 'i, 's) ws_error + 'a"

section \<open>Operations on a cell\<close>

definition cell_new :: "('ch, 'nt) runtime \<Rightarrow> 'ch \<Rightarrow> ('ch, 'nt) cell" where
  "cell_new rt ch = \<lparr>c_state = Open, c_tx = ch, c_evict = rt_notify_new rt\<rparr>"

definition cell_is_open :: "('ch, 'nt) cell \<Rightarrow> bool" where
  "cell_is_open cl \<longleftrightarrow> c_state cl = Open"

definition cell_evict :: "('ch, 'nt) runtime \<Rightarrow> ('ch, 'nt) cell \<Rightarrow> ('ch, 'nt) cell" where
  "cell_evict rt cl = cl\<lparr>c_state := Closing, c_evict := rt_notify_one rt (c_evict cl)\<rparr>"

definition cell_send ::
  "('ch, 'nt) runtime \<Rightarrow> message \<Rightarrow> ('ch, 'nt) cell
     \<Rightarrow> ('t, 'i, 's, unit) ws_result \<times> ('ch, 'nt) cell" where
  "cell_send rt m cl =
     (if \<not> cell_is_open cl then (Inl ConnectionClosed, cl)
      else
        (case rt_try_send rt m (c_tx cl) of
           (Sent, ch) \<Rightarrow> (Inr (), cl\<lparr>c_tx := ch\<rparr>)
         | (QueueFull, ch) \<Rightarrow> (Inl SlowConsumer, cell_evict rt (cl\<lparr>c_tx := ch\<rparr>))
         | (QueueClosed, ch) \<Rightarrow> (Inl ConnectionClosed, cl\<lparr>c_tx := ch\<rparr>)))"

definition cell_close :: "('ch, 'nt) runtime \<Rightarrow> ('ch, 'nt) cell \<Rightarrow> ('ch, 'nt) cell" where
  "cell_close rt cl =
     (let cl1 = cl\<lparr>c_state := Closing\<rparr>
      in case rt_try_send rt close_msg (c_tx cl1) of
           (Sent, ch) \<Rightarrow> cl1\<lparr>c_tx := ch\<rparr>
         | (_, ch) \<Rightarrow> cl1\<lparr>c_tx := ch, c_evict := rt_notify_one rt (c_evict cl1)\<rparr>)"

definition cell_set_state :: "conn_state \<Rightarrow> ('ch, 'nt) cell \<Rightarrow> ('ch, 'nt) cell" where
  "cell_set_state s cl = cl\<lparr>c_state := s\<rparr>"

text \<open>\<open>evicted().await\<close> completes by taking the permit.\<close>

definition cell_evicted ::
  "('ch, 'nt) runtime \<Rightarrow> ('ch, 'nt) cell \<Rightarrow> ('ch, 'nt) cell option" where
  "cell_evicted rt cl = map_option (\<lambda>n. cl\<lparr>c_evict := n\<rparr>) (rt_notified rt (c_evict cl))"

text \<open>The receiving end, in the writer task.\<close>

definition cell_recv ::
  "('ch, 'nt) runtime \<Rightarrow> ('ch, 'nt) cell \<Rightarrow> (message \<times> ('ch, 'nt) cell) option" where
  "cell_recv rt cl = map_option (\<lambda>(m, ch). (m, cl\<lparr>c_tx := ch\<rparr>)) (rt_recv rt (c_tx cl))"

definition cell_drop_rx :: "('ch, 'nt) runtime \<Rightarrow> ('ch, 'nt) cell \<Rightarrow> ('ch, 'nt) cell" where
  "cell_drop_rx rt cl = cl\<lparr>c_tx := rt_drop_rx rt (c_tx cl)\<rparr>"

section \<open>Operations on a handle\<close>

definition connection_new ::
  "('ch, 'nt) runtime \<Rightarrow> string \<Rightarrow> socket_addr option \<Rightarrow> principal \<Rightarrow> 'ch \<Rightarrow> nat
     \<Rightarrow> ('ch, 'nt) cells \<Rightarrow> connection \<times> ('ch, 'nt) cells" where
  "connection_new rt cid addr p ch ref cells =
     (\<lparr>conn_id = cid, remote_addr = addr, conn_principal = p, conn_cell = ref\<rparr>,
      cells(ref := cell_new rt ch))"

definition connection_principal :: "connection \<Rightarrow> principal" where
  "connection_principal c = conn_principal c"

definition connection_state :: "connection \<Rightarrow> ('ch, 'nt) cells \<Rightarrow> conn_state" where
  "connection_state c cells = c_state (cells (conn_cell c))"

definition connection_is_open :: "connection \<Rightarrow> ('ch, 'nt) cells \<Rightarrow> bool" where
  "connection_is_open c cells \<longleftrightarrow> connection_state c cells = Open"

definition connection_send ::
  "('ch, 'nt) runtime \<Rightarrow> message \<Rightarrow> connection \<Rightarrow> ('ch, 'nt) cells
     \<Rightarrow> ('t, 'i, 's, unit) ws_result \<times> ('ch, 'nt) cells" where
  "connection_send rt m c cells =
     (let (r, cl) = cell_send rt m (cells (conn_cell c))
      in (r, cells(conn_cell c := cl)))"

definition connection_send_text ::
  "('ch, 'nt) runtime \<Rightarrow> string \<Rightarrow> connection \<Rightarrow> ('ch, 'nt) cells
     \<Rightarrow> ('t, 'i, 's, unit) ws_result \<times> ('ch, 'nt) cells" where
  "connection_send_text rt s = connection_send rt (text_msg s)"

definition connection_send_binary ::
  "('ch, 'nt) runtime \<Rightarrow> bytes \<Rightarrow> connection \<Rightarrow> ('ch, 'nt) cells
     \<Rightarrow> ('t, 'i, 's, unit) ws_result \<times> ('ch, 'nt) cells" where
  "connection_send_binary rt d = connection_send rt (binary_msg d)"

definition connection_send_json ::
  "('ch, 'nt) runtime \<Rightarrow> ('v \<Rightarrow> 's + string) \<Rightarrow> 'v \<Rightarrow> connection \<Rightarrow> ('ch, 'nt) cells
     \<Rightarrow> ('t, 'i, 's, unit) ws_result \<times> ('ch, 'nt) cells" where
  "connection_send_json rt to_json v c cells =
     (case from_serialization (json_msg to_json v) of
        Inl e \<Rightarrow> (Inl e, cells)
      | Inr m \<Rightarrow> connection_send rt m c cells)"

definition connection_close ::
  "('ch, 'nt) runtime \<Rightarrow> connection \<Rightarrow> ('ch, 'nt) cells \<Rightarrow> ('ch, 'nt) cells" where
  "connection_close rt c cells = cells(conn_cell c := cell_close rt (cells (conn_cell c)))"

definition connection_set_state ::
  "conn_state \<Rightarrow> connection \<Rightarrow> ('ch, 'nt) cells \<Rightarrow> ('ch, 'nt) cells" where
  "connection_set_state s c cells = cells(conn_cell c := cell_set_state s (cells (conn_cell c)))"

definition connection_evicted ::
  "('ch, 'nt) runtime \<Rightarrow> connection \<Rightarrow> ('ch, 'nt) cells \<Rightarrow> ('ch, 'nt) cells option" where
  "connection_evicted rt c cells =
     map_option (\<lambda>cl. cells(conn_cell c := cl)) (cell_evicted rt (cells (conn_cell c)))"

text \<open>A clone shares every \<open>Arc\<close>: it is a handle to the same cell.\<close>

definition connection_clone :: "connection \<Rightarrow> connection" where
  "connection_clone c =
     \<lparr>conn_id = conn_id c, remote_addr = remote_addr c, conn_principal = conn_principal c,
      conn_cell = conn_cell c\<rparr>"

lemmas cell_op_defs = cell_new_def cell_is_open_def cell_evict_def cell_send_def cell_close_def
  cell_set_state_def cell_evicted_def cell_recv_def cell_drop_rx_def

lemma connection_clone_id [simp]: "connection_clone c = c"
  by (simp add: connection_clone_def)

section \<open>The order of the states\<close>

instantiation conn_state :: linorder
begin

fun conn_rank :: "conn_state \<Rightarrow> nat" where
  "conn_rank Connecting = 0"
| "conn_rank Open = 1"
| "conn_rank Closing = 2"
| "conn_rank Closed = 3"

definition less_eq_conn_state :: "conn_state \<Rightarrow> conn_state \<Rightarrow> bool" where
  "less_eq_conn_state s t \<longleftrightarrow> conn_rank s \<le> conn_rank t"

definition less_conn_state :: "conn_state \<Rightarrow> conn_state \<Rightarrow> bool" where
  "less_conn_state s t \<longleftrightarrow> conn_rank s < conn_rank t"

instance
proof
  fix s t :: conn_state
  assume "s \<le> t" "t \<le> s"
  then show "s = t" by (cases s; cases t) (simp_all add: less_eq_conn_state_def)
qed (auto simp: less_eq_conn_state_def less_conn_state_def)

end

lemma conn_state_order [simp]:
  "Connecting \<le> s" "s \<le> Closed" "Open \<le> Closing" "\<not> Closing \<le> Open" "\<not> Closed \<le> Closing"
  by (cases s; simp add: less_eq_conn_state_def)+

lemma conn_rank_le [simp]: "conn_rank s \<le> 3"
  by (cases s) simp_all

section \<open>One operation on a cell\<close>

lemma cell_send_not_open:
  "c_state cl \<noteq> Open \<Longrightarrow> cell_send rt m cl = (Inl ConnectionClosed, cl)"
  by (simp add: cell_send_def cell_is_open_def)

lemma cell_close_state [simp]: "c_state (cell_close rt cl) = Closing"
  by (auto simp: cell_close_def Let_def split: prod.splits try_send_result.splits)

lemma cell_close_tx: "c_tx (cell_close rt cl) = snd (rt_try_send rt close_msg (c_tx cl))"
  by (auto simp: cell_close_def Let_def split: prod.splits try_send_result.splits)

lemma cell_send_tx:
  "c_tx (snd (cell_send rt m cl)) =
     (if c_state cl = Open then snd (rt_try_send rt m (c_tx cl)) else c_tx cl)"
  by (auto simp: cell_send_def cell_is_open_def cell_evict_def
      split: prod.splits try_send_result.splits)

lemma cell_send_ok_iff:
  "is_ok (fst (cell_send rt m cl)) \<longleftrightarrow>
     c_state cl = Open \<and> fst (rt_try_send rt m (c_tx cl)) = Sent"
  by (auto simp: cell_send_def cell_is_open_def split: prod.splits try_send_result.splits)

lemma cell_send_state:
  "c_state (snd (cell_send rt m cl)) =
     (if c_state cl = Open \<and> fst (rt_try_send rt m (c_tx cl)) = QueueFull
      then Closing else c_state cl)"
  by (auto simp: cell_send_def cell_is_open_def cell_evict_def
      split: prod.splits try_send_result.splits)

lemma cell_recv_Some:
  "cell_recv rt cl = Some (m, cl') \<Longrightarrow>
     c_state cl' = c_state cl \<and> c_evict cl' = c_evict cl \<and>
     rt_recv rt (c_tx cl) = Some (m, c_tx cl')"
  by (auto simp: cell_recv_def)

lemma cell_evicted_Some:
  "cell_evicted rt cl = Some cl' \<Longrightarrow> c_state cl' = c_state cl \<and> c_tx cl' = c_tx cl"
  by (auto simp: cell_evicted_def)

section \<open>Sequences of operations\<close>

text \<open>
  What the holders of a handle, the server's loop and the writer task do to a cell, with the
  messages the channel accepted and those the writer received.
\<close>

datatype conn_op =
    OpSend message
  | OpClose
  | OpSetState conn_state
  | OpEvicted
  | OpRecv
  | OpDropRx

record ('ch, 'nt) conn_run =
  r_cell :: "('ch, 'nt) cell"
  r_accepted :: "message list"
  r_received :: "message list"

fun conn_step :: "('ch, 'nt) runtime \<Rightarrow> conn_op \<Rightarrow> ('ch, 'nt) conn_run \<Rightarrow> ('ch, 'nt) conn_run" where
  "conn_step rt (OpSend m) s =
     (let (r, cl) = (cell_send rt m (r_cell s) :: (unit, unit, unit, unit) ws_result \<times> _)
      in s\<lparr>r_cell := cl, r_accepted := r_accepted s @ (if is_ok r then [m] else [])\<rparr>)"
| "conn_step rt OpClose s =
     s\<lparr>r_cell := cell_close rt (r_cell s),
       r_accepted := r_accepted s @
         (if fst (rt_try_send rt close_msg (c_tx (r_cell s))) = Sent then [close_msg] else [])\<rparr>"
| "conn_step rt (OpSetState st) s = s\<lparr>r_cell := cell_set_state st (r_cell s)\<rparr>"
| "conn_step rt OpEvicted s =
     (case cell_evicted rt (r_cell s) of None \<Rightarrow> s | Some cl \<Rightarrow> s\<lparr>r_cell := cl\<rparr>)"
| "conn_step rt OpRecv s =
     (case cell_recv rt (r_cell s) of
        None \<Rightarrow> s
      | Some (m, cl) \<Rightarrow> s\<lparr>r_cell := cl, r_received := r_received s @ [m]\<rparr>)"
| "conn_step rt OpDropRx s = s\<lparr>r_cell := cell_drop_rx rt (r_cell s)\<rparr>"

definition conn_run :: "('ch, 'nt) runtime \<Rightarrow> conn_op list \<Rightarrow> ('ch, 'nt) conn_run \<Rightarrow> ('ch, 'nt) conn_run" where
  "conn_run rt ops s = fold (conn_step rt) ops s"

definition conn_start :: "('ch, 'nt) runtime \<Rightarrow> usize \<Rightarrow> ('ch, 'nt) conn_run" where
  "conn_start rt n =
     \<lparr>r_cell = cell_new rt (rt_channel rt n), r_accepted = [], r_received = []\<rparr>"

text \<open>The server only ever sets the state to \<open>Closed\<close>.\<close>

definition server_op :: "conn_op \<Rightarrow> bool" where
  "server_op op \<longleftrightarrow> (case op of OpSetState s \<Rightarrow> s = Closed | _ \<Rightarrow> True)"

lemma conn_run_simps [simp]:
  "conn_run rt [] s = s" "conn_run rt (op # ops) s = conn_run rt ops (conn_step rt op s)"
  by (simp_all add: conn_run_def)

lemma conn_step_state:
  assumes "server_op op"
  shows "c_state (r_cell s) \<le> c_state (r_cell (conn_step rt op s)) \<or>
    op = OpClose \<and> c_state (r_cell s) = Closed \<and> c_state (r_cell (conn_step rt op s)) = Closing"
proof (cases op)
  case OpClose
  then show ?thesis by (cases "c_state (r_cell s)") (simp_all add: less_eq_conn_state_def)
qed (use assms in \<open>auto simp: server_op_def cell_set_state_def cell_drop_rx_def cell_send_state
      less_eq_conn_state_def case_prod_unfold Let_def
      dest!: cell_evicted_Some cell_recv_Some split: option.splits\<close>)

lemma conn_step_not_open:
  assumes "server_op op" "c_state (r_cell s) \<noteq> Open"
  shows "c_state (r_cell (conn_step rt op s)) \<noteq> Open"
  using assms
  by (cases op) (auto simp: server_op_def cell_set_state_def cell_drop_rx_def cell_send_state
      case_prod_unfold Let_def dest!: cell_evicted_Some cell_recv_Some split: option.splits)

lemma conn_run_not_open:
  "list_all server_op ops \<Longrightarrow> c_state (r_cell s) \<noteq> Open \<Longrightarrow> c_state (r_cell (conn_run rt ops s)) \<noteq> Open"
  by (induction ops arbitrary: s) (simp_all add: conn_step_not_open)

context mpsc_channel
begin

text \<open>
  The queue of a run: never longer than its capacity, and while the writer is there, what was
  accepted is what was received followed by what is queued.
\<close>

definition run_ok :: "('ch, 'nt) conn_run \<Rightarrow> bool" where
  "run_ok s \<longleftrightarrow>
     length (queued (c_tx (r_cell s))) \<le> capacity (c_tx (r_cell s)) \<and>
     (\<exists>lost. r_accepted s = r_received s @ queued (c_tx (r_cell s)) @ lost \<and>
        (rx_alive (c_tx (r_cell s)) \<longrightarrow> lost = []) \<and>
        (\<not> rx_alive (c_tx (r_cell s)) \<longrightarrow> queued (c_tx (r_cell s)) = []))"

lemma run_ok_start: "0 < n \<Longrightarrow> run_ok (conn_start rt n)"
  by (simp add: run_ok_def conn_start_def cell_new_def channel_new)

text \<open>An attempt to send, whatever state it leaves the connection in.\<close>

lemma run_ok_try_send:
  assumes "run_ok s"
    and "c_tx cl = snd (rt_try_send rt m (c_tx (r_cell s)))"
    and "acc = r_accepted s @ (if fst (rt_try_send rt m (c_tx (r_cell s))) = Sent then [m] else [])"
  shows "run_ok (s\<lparr>r_cell := cl, r_accepted := acc\<rparr>)"
  using assms by (cases rule: try_send_cases [of "c_tx (r_cell s)" m]) (auto simp: run_ok_def)

lemma run_ok_same_tx: "run_ok s \<Longrightarrow> c_tx cl = c_tx (r_cell s) \<Longrightarrow> run_ok (s\<lparr>r_cell := cl\<rparr>)"
  by (simp add: run_ok_def)

lemma run_ok_recv:
  assumes "run_ok s" "rt_recv rt (c_tx (r_cell s)) = Some (m, c_tx cl)"
  shows "run_ok (s\<lparr>r_cell := cl, r_received := r_received s @ [m]\<rparr>)"
  using assms by (cases rule: recv_cases [of "c_tx (r_cell s)"]) (auto simp: run_ok_def)

lemma run_ok_step:
  assumes "run_ok s"
  shows "run_ok (conn_step rt op s)"
proof (cases op)
  case (OpSend m)
  let ?r = "cell_send rt m (r_cell s) :: (unit, unit, unit, unit) ws_result \<times> _"
  show ?thesis
  proof (cases "c_state (r_cell s) = Open")
    case True
    then have "run_ok (s\<lparr>r_cell := snd ?r,
        r_accepted := r_accepted s @ (if is_ok (fst ?r) then [m] else [])\<rparr>)"
      using assms by (intro run_ok_try_send) (auto simp: cell_send_tx cell_send_ok_iff)
    then show ?thesis by (simp add: OpSend case_prod_unfold Let_def)
  next
    case False
    then show ?thesis using assms by (simp add: OpSend cell_send_not_open)
  qed
next
  case OpClose
  have "run_ok (s\<lparr>r_cell := cell_close rt (r_cell s), r_accepted := r_accepted s @
      (if fst (rt_try_send rt close_msg (c_tx (r_cell s))) = Sent then [close_msg] else [])\<rparr>)"
    using assms by (rule run_ok_try_send) (simp_all add: cell_close_tx)
  then show ?thesis by (simp add: OpClose)
next
  case (OpSetState st)
  show ?thesis using run_ok_same_tx [OF assms] by (simp add: OpSetState cell_set_state_def)
next
  case OpEvicted
  then show ?thesis
    using assms by (auto dest: cell_evicted_Some intro: run_ok_same_tx split: option.splits)
next
  case OpRecv
  then show ?thesis
    using assms by (auto dest!: cell_recv_Some intro: run_ok_recv split: option.splits)
next
  case OpDropRx
  then show ?thesis using assms by (auto simp: run_ok_def cell_drop_rx_def drop_rx)
qed

lemma run_ok_run: "run_ok s \<Longrightarrow> run_ok (conn_run rt ops s)"
  by (induction ops arbitrary: s) (simp_all add: run_ok_step)

lemma conn_step_capacity:
  "capacity (c_tx (r_cell (conn_step rt op s))) = capacity (c_tx (r_cell s))"
  by (cases op)
    (auto simp: cell_send_tx cell_close_tx try_send_capacity cell_set_state_def cell_drop_rx_def
      drop_rx case_prod_unfold Let_def dest!: cell_evicted_Some cell_recv_Some
      dest: recv_capacity split: option.splits)

lemma conn_run_capacity:
  "capacity (c_tx (r_cell (conn_run rt ops s))) = capacity (c_tx (r_cell s))"
  by (induction ops arbitrary: s) (simp_all add: conn_step_capacity)

end

context tokio_runtime begin

lemma cell_send_outcome:
  defines "r \<equiv> \<lambda>m cl. cell_send rt m cl :: ('t, 'i, 's, unit) ws_result \<times> _"
  shows "if c_state cl \<noteq> Open \<or> \<not> rx_alive (c_tx cl) then r m cl = (Inl ConnectionClosed, cl)
    else if length (queued (c_tx cl)) < capacity (c_tx cl) then
      fst (r m cl) = Inr () \<and> c_state (snd (r m cl)) = Open \<and> c_evict (snd (r m cl)) = c_evict cl \<and>
      queued (c_tx (snd (r m cl))) = queued (c_tx cl) @ [m]
    else
      fst (r m cl) = Inl SlowConsumer \<and> c_state (snd (r m cl)) = Closing \<and>
      queued (c_tx (snd (r m cl))) = queued (c_tx cl) \<and>
      rt_notified rt (c_evict (snd (r m cl))) \<noteq> None"
  by (cases rule: try_send_cases [of "c_tx cl" m])
    (auto simp: r_def cell_send_def cell_is_open_def cell_evict_def notified_notify_one)

end

section \<open>Properties\<close>

text \<open>
  \<open>Connection::send\<close> never blocks and has three outcomes: on a connection that is not open,
  or whose writer is gone, it fails with \<open>ConnectionClosed\<close> and changes nothing; with room in
  the queue the message is queued last and nothing else changes; with the queue full it fails
  with \<open>SlowConsumer\<close>, the queue is untouched, the state is \<open>Closing\<close> and the eviction permit
  is stored.  No other connection is affected.
\<close>

theorem send_outcomes:
  assumes "tokio_runtime rt queued capacity rx_alive"
  shows "let p = connection_send rt m c cells :: ('t, 'i, 's, unit) ws_result \<times> _;
      cl = cells (conn_cell c); cl' = snd p (conn_cell c); ch = c_tx cl
    in snd p = cells(conn_cell c := cl') \<and>
      (if c_state cl \<noteq> Open \<or> \<not> rx_alive ch then fst p = Inl ConnectionClosed \<and> cl' = cl
       else if length (queued ch) < capacity ch then
         fst p = Inr () \<and> c_state cl' = Open \<and> c_evict cl' = c_evict cl \<and>
         queued (c_tx cl') = queued ch @ [m]
       else
         fst p = Inl SlowConsumer \<and> c_state cl' = Closing \<and> queued (c_tx cl') = queued ch \<and>
         rt_notified rt (c_evict cl') \<noteq> None)"
  using tokio_runtime.cell_send_outcome [OF assms, of "cells (conn_cell c)" m,
      where ?'t = 't and ?'i = 'i and ?'s = 's]
  by (auto simp: connection_send_def case_prod_unfold Let_def)

text \<open>A connection with a queue of two, for the witnesses.\<close>

definition sample_cells :: "(fifo, bool) cells" where
  "sample_cells = (\<lambda>_. cell_new fifo_runtime (fifo_new 2))"

definition sample_connection :: connection where
  "sample_connection =
     \<lparr>conn_id = ''c'', remote_addr = None, conn_principal = principal_anonymous, conn_cell = 0\<rparr>"

definition sample_ops :: "conn_op list" where
  "sample_ops = [OpSend (ping_msg []), OpSend (ping_msg [1]), OpSend (ping_msg [2]), OpRecv]"

theorem send_outcomes_witness:
  "fst (connection_send fifo_runtime (text_msg ''a'') sample_connection sample_cells)
     = (Inr () :: (unit, unit, unit, unit) ws_result)"
proof -
  have "c_state (sample_cells 0) = Open" "f_alive (c_tx (sample_cells 0))"
    "length (f_buf (c_tx (sample_cells 0))) < f_cap (c_tx (sample_cells 0))"
    "conn_cell sample_connection = 0"
    by (simp_all add: sample_cells_def sample_connection_def cell_new_def fifo_new_def)
  then show ?thesis
    using send_outcomes [OF fifo.tokio_runtime_axioms, of "text_msg ''a''" sample_connection
        sample_cells, where ?'t = unit and ?'i = unit and ?'s = unit]
    by (simp add: Let_def)
qed

text \<open>
  C10. Whatever is done to a connection by its holders, the server loop and the writer, its
  outbound queue never holds more messages than the configured capacity, and the writer
  receives the accepted messages in the order they were accepted, none lost, none twice:
  while it lives, the accepted messages are those received followed by those queued.
\<close>

theorem outbound_queue_fifo_bounded:
  assumes "tokio_runtime rt queued capacity rx_alive" and "0 < n"
  shows "let s = conn_run rt ops (conn_start rt n) in
    length (queued (c_tx (r_cell s))) \<le> unat n \<and>
    (\<exists>rest. r_accepted s = r_received s @ rest \<and>
       (if rx_alive (c_tx (r_cell s)) then rest = queued (c_tx (r_cell s)) else True))"
proof -
  define s where "s = conn_run rt ops (conn_start rt n)"
  have mpsc: "mpsc_channel rt queued capacity rx_alive" using assms(1) by (rule tokio_runtime.axioms)
  have ok: "mpsc_channel.run_ok queued capacity rx_alive s"
    unfolding s_def by (intro mpsc_channel.run_ok_run [OF mpsc] mpsc_channel.run_ok_start [OF mpsc] assms)
  have "capacity (c_tx (r_cell s)) = unat n"
    unfolding s_def mpsc_channel.conn_run_capacity [OF mpsc]
    by (simp add: conn_start_def cell_new_def mpsc_channel.channel_new [OF mpsc assms(2)])
  with ok show ?thesis
    unfolding Let_def s_def [symmetric] by (auto simp: mpsc_channel.run_ok_def [OF mpsc])
qed

theorem outbound_queue_fifo_bounded_witness:
  "length (f_buf (c_tx (r_cell (conn_run fifo_runtime sample_ops (conn_start fifo_runtime 2))))) \<le> 2"
  using outbound_queue_fifo_bounded [OF fifo.tokio_runtime_axioms, of 2 sample_ops]
  by (simp add: Let_def)

text \<open>
  Leaving the state \<open>Open\<close> is final: once a connection is closing, evicted or closed, no
  sequence of operations makes a send succeed or change it again.
\<close>

theorem not_open_is_final:
  assumes "c_state (r_cell s) \<noteq> Open" and "list_all server_op ops"
  shows "c_state (r_cell (conn_run rt ops s)) \<noteq> Open \<and>
    cell_send rt m (r_cell (conn_run rt ops s)) =
      (Inl ConnectionClosed :: ('t, 'i, 's, unit) ws_result, r_cell (conn_run rt ops s))"
  using conn_run_not_open [OF assms(2,1), of rt] by (simp add: cell_send_not_open)

theorem not_open_is_final_witness:
  "cell_send fifo_runtime (ping_msg [])
     (r_cell (conn_run fifo_runtime [OpRecv, OpSetState Closed, OpSend (ping_msg [])]
       (conn_step fifo_runtime OpClose (conn_start fifo_runtime 2)))) =
   (Inl ConnectionClosed :: (unit, unit, unit, unit) ws_result,
    r_cell (conn_run fifo_runtime [OpRecv, OpSetState Closed, OpSend (ping_msg [])]
       (conn_step fifo_runtime OpClose (conn_start fifo_runtime 2))))"
  using not_open_is_final [of "conn_step fifo_runtime OpClose (conn_start fifo_runtime 2)"
      "[OpRecv, OpSetState Closed, OpSend (ping_msg [])]" fifo_runtime "ping_msg []",
      where ?'t = unit and ?'i = unit and ?'s = unit]
  by (simp add: server_op_def del: conn_run_simps)

text \<open>
  The states advance in the order Connecting, Open, Closing, Closed, with one exception:
  \<open>close\<close> on a connection that is already \<open>Closed\<close> sets it back to \<open>Closing\<close>, so \<open>Closed\<close> is
  not a terminal state for a holder of a handle.
\<close>

theorem state_order:
  assumes "server_op op"
  shows "(c_state (r_cell s) \<le> c_state (r_cell (conn_step rt op s)) \<or>
      op = OpClose \<and> c_state (r_cell s) = Closed) \<and>
    c_state (cell_close rt (cell_set_state Closed cl)) = Closing"
  using conn_step_state [OF assms, of s rt] by auto

theorem state_order_witness:
  "c_state (r_cell (conn_start fifo_runtime 2)) \<le>
     c_state (r_cell (conn_step fifo_runtime (OpSend (ping_msg [])) (conn_start fifo_runtime 2))) \<and>
   c_state (cell_close fifo_runtime (cell_set_state Closed (sample_cells 0))) = Closing"
  using state_order [of "OpSend (ping_msg [])" "conn_start fifo_runtime 2" fifo_runtime "sample_cells 0"]
  by (simp add: server_op_def)

text \<open>
  A close request is never lost: after \<open>Connection::close\<close> the state is \<open>Closing\<close>, and the
  Close message is the last of the queue or the read loop has been given the eviction permit.
\<close>

theorem close_never_lost:
  assumes "tokio_runtime rt queued capacity rx_alive"
  shows "let cl = connection_close rt c cells (conn_cell c) in
    c_state cl = Closing \<and>
    ((\<exists>ms. queued (c_tx cl) = ms @ [close_msg]) \<or> rt_notified rt (c_evict cl) \<noteq> None)"
proof -
  note notified = tokio_runtime.notified_notify_one [OF assms(1)]
  have "mpsc_channel rt queued capacity rx_alive" using assms(1) by (rule tokio_runtime.axioms)
  then show ?thesis
    by (cases rule: mpsc_channel.try_send_cases
        [of rt queued capacity rx_alive "c_tx (cells (conn_cell c))" close_msg])
      (auto simp: connection_close_def cell_close_def notified)
qed

theorem close_never_lost_witness:
  "c_state (connection_close fifo_runtime sample_connection sample_cells 0) = Closing \<and>
   (\<exists>ms. f_buf (c_tx (connection_close fifo_runtime sample_connection sample_cells 0)) = ms @ [close_msg])"
proof -
  have "rt_notified fifo_runtime (c_evict (connection_close fifo_runtime sample_connection sample_cells 0)) = None"
    by (simp add: connection_close_def cell_close_def sample_cells_def sample_connection_def cell_new_def fifo_defs)
  then show ?thesis
    using close_never_lost [OF fifo.tokio_runtime_axioms, of sample_connection sample_cells]
    by (simp add: sample_connection_def Let_def)
qed

end
