(* ===== verification/Ws_Machine.thy ===== *)
theory Ws_Machine imports Ws_Prelude begin

text \<open>
  Components as machines: a state, operations with a guard, an invariant every permitted
  operation keeps, and, in the extension, an abstract machine that the component refines.
  The room manager, the accept loop, the session loop and the client are instances.
\<close>

fun run_ops :: "('o \<Rightarrow> 's \<Rightarrow> 's) \<Rightarrow> 'o list \<Rightarrow> 's \<Rightarrow> 's" where
  "run_ops step [] s = s"
| "run_ops step (op # ops) s = run_ops step ops (step op s)"

text \<open>Every operation of the list is permitted in the state it is run in.\<close>

fun legal_ops :: "('o \<Rightarrow> 's \<Rightarrow> bool) \<Rightarrow> ('o \<Rightarrow> 's \<Rightarrow> 's) \<Rightarrow> 'o list \<Rightarrow> 's \<Rightarrow> bool" where
  "legal_ops ok step [] s = True"
| "legal_ops ok step (op # ops) s = (ok op s \<and> legal_ops ok step ops (step op s))"

lemma run_ops_append: "run_ops step (xs @ ys) s = run_ops step ys (run_ops step xs s)"
  by (induction xs arbitrary: s) simp_all

lemma legal_ops_True: "(\<And>op s. ok op s) \<Longrightarrow> legal_ops ok step ops s"
  by (induction ops arbitrary: s) simp_all

lemma legal_ops_list_all: "list_all P ops \<Longrightarrow> legal_ops (\<lambda>op _. P op) step ops s"
  by (induction ops arbitrary: s) simp_all

locale machine =
  fixes ok :: "'o \<Rightarrow> 's \<Rightarrow> bool"
    and step :: "'o \<Rightarrow> 's \<Rightarrow> 's"
    and inv :: "'s \<Rightarrow> bool"
  assumes step_inv: "inv s \<Longrightarrow> ok op s \<Longrightarrow> inv (step op s)"
begin

lemma run_inv: "inv s \<Longrightarrow> legal_ops ok step ops s \<Longrightarrow> inv (run_ops step ops s)"
  by (induction ops arbitrary: s) (simp_all add: step_inv)

end

locale refining_machine = machine ok step inv
  for ok :: "'o \<Rightarrow> 's \<Rightarrow> bool" and step :: "'o \<Rightarrow> 's \<Rightarrow> 's" and inv :: "'s \<Rightarrow> bool" +
  fixes abs :: "'s \<Rightarrow> 'a"
    and astep :: "'o \<Rightarrow> 'a \<Rightarrow> 'a"
  assumes abs_step: "inv s \<Longrightarrow> ok op s \<Longrightarrow> abs (step op s) = astep op (abs s)"
begin

lemma abs_run:
  "inv s \<Longrightarrow> legal_ops ok step ops s \<Longrightarrow> abs (run_ops step ops s) = run_ops astep ops (abs s)"
  by (induction ops arbitrary: s) (simp_all add: step_inv abs_step)

end

section \<open>Threads\<close>

text \<open>
  Threads that take turns on a shared state: \<open>step\<close> is the next atomic access of a thread, \<open>fin\<close>
  says that it has none left.
\<close>

inductive interleave ::
  "('t \<Rightarrow> 's \<Rightarrow> 't \<times> 's) \<Rightarrow> ('t \<Rightarrow> bool) \<Rightarrow> 't list \<times> 's \<Rightarrow> 't list \<times> 's \<Rightarrow> bool"
  for step fin where
  turn: "i < length ts \<Longrightarrow> \<not> fin (ts ! i) \<Longrightarrow> step (ts ! i) s = (t, s') \<Longrightarrow>
    interleave step fin (ts, s) (ts[i := t], s')"

inductive_cases interleaveE: "interleave step fin (ts, s) (ts', s')"

definition interleavings ::
  "('t \<Rightarrow> 's \<Rightarrow> 't \<times> 's) \<Rightarrow> ('t \<Rightarrow> bool) \<Rightarrow> 't list \<times> 's \<Rightarrow> 't list \<times> 's \<Rightarrow> bool" where
  "interleavings step fin = (interleave step fin)\<^sup>*\<^sup>*"

lemma interleavings_invariant:
  assumes "interleavings step fin (ts, s) (ts', s')" and "I ts s"
    and "\<And>ts s ts' s'. I ts s \<Longrightarrow> interleave step fin (ts, s) (ts', s') \<Longrightarrow> I ts' s'"
  shows "I ts' s'"
proof -
  have "I (fst z) (snd z)" if "(interleave step fin)\<^sup>*\<^sup>* (ts, s) z" for z
    using that
  proof (induction rule: rtranclp_induct)
    case base
    show ?case using assms(2) by simp
  next
    case (step y z)
    then show ?case using assms(3) [of "fst y" "snd y" "fst z" "snd z"] by simp
  qed
  from this [of "(ts', s')"] assms(1) show ?thesis by (simp add: interleavings_def)
qed

text \<open>
  Threads each of whose turns comes closer to its end, by a pair of measures in lexicographic order,
  cannot take turns for ever; and as long as one has a turn left, some turn is possible.
\<close>

lemma interleave_terminates:
  fixes m1 m2 :: "'t \<Rightarrow> nat"
  assumes "\<And>t s t' s'. \<not> fin t \<Longrightarrow> step t s = (t', s') \<Longrightarrow> m1 t' < m1 t \<or> m1 t' = m1 t \<and> m2 t' < m2 t"
  shows "wf {(c', c). interleave step fin c c'}"
proof (rule wf_subset)
  let ?r = "measures [\<lambda>(ts, s). sum_list (map m1 ts), \<lambda>(ts, s). sum_list (map m2 ts)]"
  show "wf ?r" by simp
  have sum: "sum_list (map f (ts[i := t])) + f (ts ! i) = sum_list (map f ts) + f t"
    if "i < length ts" for f :: "'t \<Rightarrow> nat" and ts i t
    using that by (induction ts arbitrary: i) (auto split: nat.splits simp: less_Suc_eq_0_disj)
  show "{(c', c). interleave step fin c c'} \<subseteq> ?r"
  proof clarify
    fix ts s ts' s' assume "interleave step fin (ts, s) (ts', s')"
    then obtain i t where i: "i < length ts" "\<not> fin (ts ! i)" "step (ts ! i) s = (t, s')" "ts' = ts[i := t]"
      by (auto elim: interleaveE)
    then show "((ts', s'), (ts, s)) \<in> ?r"
      using assms [OF i(2,3)] sum [OF i(1), of m1 t] sum [OF i(1), of m2 t] by auto
  qed
qed

lemma interleave_progress:
  "(\<exists>c'. interleave step fin (ts, s) c') \<longleftrightarrow> \<not> list_all fin ts"
proof
  show "\<exists>c'. interleave step fin (ts, s) c' \<Longrightarrow> \<not> list_all fin ts"
    by (auto elim!: interleave.cases simp: list_all_length)
  assume "\<not> list_all fin ts"
  then obtain i where i: "i < length ts" "\<not> fin (ts ! i)" by (auto simp: list_all_length)
  obtain t s' where "step (ts ! i) s = (t, s')" by fastforce
  with i show "\<exists>c'. interleave step fin (ts, s) c'" by (blast intro: turn)
qed

text \<open>A schedule, as the list of the threads that take a turn.\<close>

fun run_schedule ::
  "('t \<Rightarrow> 's \<Rightarrow> 't \<times> 's) \<Rightarrow> ('t \<Rightarrow> bool) \<Rightarrow> nat list \<Rightarrow> 't list \<times> 's \<Rightarrow> 't list \<times> 's" where
  "run_schedule step fin [] c = c"
| "run_schedule step fin (i # sched) (ts, s) =
     (if i < length ts \<and> \<not> fin (ts ! i)
      then (let (t, s') = step (ts ! i) s in run_schedule step fin sched (ts[i := t], s'))
      else run_schedule step fin sched (ts, s))"

lemma run_schedule_interleaving: "interleavings step fin c (run_schedule step fin sched c)"
proof (induction step fin sched c rule: run_schedule.induct)
  case (1 step fin c)
  show ?case by (simp add: interleavings_def)
next
  case (2 step fin i sched ts s)
  show ?case
  proof (cases "i < length ts \<and> \<not> fin (ts ! i)")
    case True
    obtain t s' where step: "step (ts ! i) s = (t, s')" by (cases "step (ts ! i) s")
    have "interleave step fin (ts, s) (ts[i := t], s')" using True step by (blast intro: turn)
    moreover have "interleavings step fin (ts[i := t], s') (run_schedule step fin sched (ts[i := t], s'))"
      using "2.IH"(1) [OF True] step by simp
    ultimately show ?thesis
      using True step by (simp add: interleavings_def converse_rtranclp_into_rtranclp)
  next
    case False
    then show ?thesis using "2.IH"(2) by auto
  qed
qed

text \<open>So some schedule brings all threads to their end.\<close>

lemma run_schedule_ends:
  fixes m1 m2 :: "'t \<Rightarrow> nat"
  assumes "\<And>t s t' s'. \<not> fin t \<Longrightarrow> step t s = (t', s') \<Longrightarrow> m1 t' < m1 t \<or> m1 t' = m1 t \<and> m2 t' < m2 t"
  shows "\<exists>sched. list_all fin (fst (run_schedule step fin sched (ts, s))) \<and>
    length (fst (run_schedule step fin sched (ts, s))) = length ts"
proof -
  have "wf {(c', c). interleave step fin c c'}" using assms by (rule interleave_terminates)
  then have "\<exists>sched. list_all fin (fst (run_schedule step fin sched c)) \<and>
      length (fst (run_schedule step fin sched c)) = length (fst c)" for c
  proof (induction c rule: wf_induct_rule)
    case (less c)
    obtain ts s where c: "c = (ts, s)" by (cases c)
    show ?case
    proof (cases "list_all fin ts")
      case True
      then show ?thesis by (intro exI [of _ "[]"]) (simp add: c)
    next
      case False
      then obtain i where i: "i < length ts" "\<not> fin (ts ! i)" by (auto simp: list_all_length)
      obtain t s' where step: "step (ts ! i) s = (t, s')" by fastforce
      have "interleave step fin (ts, s) (ts[i := t], s')" using i step by (rule turn)
      then obtain sched where "list_all fin (fst (run_schedule step fin sched (ts[i := t], s')))"
        "length (fst (run_schedule step fin sched (ts[i := t], s'))) = length ts"
        using less.IH [of "(ts[i := t], s')"] by (auto simp: c)
      then show ?thesis using i step by (intro exI [of _ "i # sched"]) (simp add: c)
    qed
  qed
  from this [of "(ts, s)"] show ?thesis by simp
qed

end
