(* ===== verification/Ws_Room.thy ===== *)
theory Ws_Room imports Ws_Connection Ws_Machine begin

text \<open>
  \<open>room.rs\<close>: rooms and the room manager.

  The manager's three \<open>DashMap\<close>s are maps from keys to values; a room is shared through an
  \<open>Arc\<close>, so the manager maps a room id to the address of a room in \<open>room_heap\<close>, and a holder
  of that address (\<open>get_room\<close>, \<open>create_room\<close>) goes on using the room after the manager has
  dropped it.  The cells of the connections are part of the state, because broadcasting sends
  on them.  The order in which a \<open>DashMap\<close> or a \<open>HashSet\<close> yields its keys is not fixed by the
  code: operations that iterate take it as an argument \<open>iter\<close>, of which \<open>iterates iter\<close> says
  that it lists each key of a finite set once.

  Each operation is one function here; the theory of interleavings splits the operations into
  the accesses to the maps that are atomic.
\<close>

record room =
  room_id :: string
  members :: "string set"

record ('ch, 'nt) world =
  cells :: "('ch, 'nt) cells"
  room_heap :: "nat \<Rightarrow> room"
  next_room :: nat
  rooms :: "string \<rightharpoonup> nat"
  connection_rooms :: "string \<rightharpoonup> string set"
  connections :: "string \<rightharpoonup> connection"

type_synonym iteration = "string set \<Rightarrow> string list"

definition iterates :: "iteration \<Rightarrow> bool" where
  "iterates iter \<longleftrightarrow> (\<forall>S. finite S \<longrightarrow> distinct (iter S) \<and> set (iter S) = S)"

section \<open>Rooms\<close>

definition room_new :: "string \<Rightarrow> room" where
  "room_new rid = \<lparr>room_id = rid, members = {}\<rparr>"

definition room_join :: "string \<Rightarrow> room \<Rightarrow> room" where
  "room_join cid r = r\<lparr>members := insert cid (members r)\<rparr>"

definition room_leave :: "string \<Rightarrow> room \<Rightarrow> bool \<times> room" where
  "room_leave cid r = (cid \<in> members r, r\<lparr>members := members r - {cid}\<rparr>)"

definition room_contains :: "string \<Rightarrow> room \<Rightarrow> bool" where
  "room_contains cid r \<longleftrightarrow> cid \<in> members r"

definition room_len :: "room \<Rightarrow> nat" where
  "room_len r = card (members r)"

definition room_is_empty :: "room \<Rightarrow> bool" where
  "room_is_empty r \<longleftrightarrow> members r = {}"

definition room_members :: "iteration \<Rightarrow> room \<Rightarrow> string list" where
  "room_members iter r = iter (members r)"

text \<open>\<open>for_each_member\<close> with a closure that updates a state.\<close>

definition for_each_member :: "iteration \<Rightarrow> room \<Rightarrow> (string \<Rightarrow> 's \<Rightarrow> 's) \<Rightarrow> 's \<Rightarrow> 's" where
  "for_each_member iter r f s = fold f (iter (members r)) s"

section \<open>The manager\<close>

definition world_new :: "('ch, 'nt) cells \<Rightarrow> ('ch, 'nt) world" where
  "world_new cls =
     \<lparr>cells = cls, room_heap = (\<lambda>_. room_new []), next_room = 0, rooms = Map.empty,
      connection_rooms = Map.empty, connections = Map.empty\<rparr>"

definition manager_default :: "('ch, 'nt) cells \<Rightarrow> ('ch, 'nt) world" where
  "manager_default cls = world_new cls"

text \<open>An update of a room behind its \<open>Arc\<close>.\<close>

definition update_room :: "nat \<Rightarrow> (room \<Rightarrow> room) \<Rightarrow> ('ch, 'nt, 'z) world_scheme \<Rightarrow> ('ch, 'nt, 'z) world_scheme" where
  "update_room ref f w = w\<lparr>room_heap := (room_heap w)(ref := f (room_heap w ref))\<rparr>"

definition register_connection ::
  "connection \<Rightarrow> ('ch, 'nt, 'z) world_scheme \<Rightarrow> ('ch, 'nt, 'z) world_scheme" where
  "register_connection c w =
     w\<lparr>connections := (connections w)(conn_id c \<mapsto> c),
       connection_rooms := (connection_rooms w)(conn_id c \<mapsto> {})\<rparr>"

text \<open>\<open>rooms.get(id)\<close> followed by \<open>leave\<close>, and \<open>rooms.remove_if(id, is_empty)\<close>.\<close>

definition leave_if_present ::
  "string \<Rightarrow> string \<Rightarrow> ('ch, 'nt, 'z) world_scheme \<Rightarrow> ('ch, 'nt, 'z) world_scheme" where
  "leave_if_present cid rid w =
     (case rooms w rid of
        None \<Rightarrow> w
      | Some ref \<Rightarrow> update_room ref (\<lambda>r. snd (room_leave cid r)) w)"

definition remove_room_if_empty ::
  "string \<Rightarrow> ('ch, 'nt, 'z) world_scheme \<Rightarrow> ('ch, 'nt, 'z) world_scheme" where
  "remove_room_if_empty rid w =
     (case rooms w rid of
        None \<Rightarrow> w
      | Some ref \<Rightarrow>
          if room_is_empty (room_heap w ref) then w\<lparr>rooms := (rooms w)(rid := None)\<rparr> else w)"

definition unregister_connection ::
  "iteration \<Rightarrow> string \<Rightarrow> ('ch, 'nt, 'z) world_scheme \<Rightarrow> ('ch, 'nt, 'z) world_scheme" where
  "unregister_connection iter cid w =
     (let w1 =
        (case connection_rooms w cid of
           None \<Rightarrow> w
         | Some room_ids \<Rightarrow>
             fold (\<lambda>rid w. remove_room_if_empty rid (leave_if_present cid rid w)) (iter room_ids)
               (w\<lparr>connection_rooms := (connection_rooms w)(cid := None)\<rparr>))
      in w1\<lparr>connections := (connections w1)(cid := None)\<rparr>)"

definition get_connection :: "string \<Rightarrow> ('ch, 'nt, 'z) world_scheme \<Rightarrow> connection option" where
  "get_connection cid w = map_option connection_clone (connections w cid)"

definition create_room ::
  "string \<Rightarrow> ('ch, 'nt, 'z) world_scheme \<Rightarrow> nat \<times> ('ch, 'nt, 'z) world_scheme" where
  "create_room rid w =
     (case rooms w rid of
        Some ref \<Rightarrow> (ref, w)
      | None \<Rightarrow>
          (next_room w,
           w\<lparr>room_heap := (room_heap w)(next_room w := room_new rid),
             rooms := (rooms w)(rid \<mapsto> next_room w),
             next_room := Suc (next_room w)\<rparr>))"

definition get_room :: "string \<Rightarrow> ('ch, 'nt, 'z) world_scheme \<Rightarrow> nat option" where
  "get_room rid w = rooms w rid"

text \<open>\<open>connection_rooms.get_mut(id)\<close> followed by an update of the set.\<close>

definition update_index ::
  "string \<Rightarrow> (string set \<Rightarrow> string set) \<Rightarrow> ('ch, 'nt, 'z) world_scheme \<Rightarrow> ('ch, 'nt, 'z) world_scheme" where
  "update_index cid f w =
     (case connection_rooms w cid of
        None \<Rightarrow> w
      | Some S \<Rightarrow> w\<lparr>connection_rooms := (connection_rooms w)(cid \<mapsto> f S)\<rparr>)"

definition delete_room ::
  "iteration \<Rightarrow> string \<Rightarrow> ('ch, 'nt, 'z) world_scheme \<Rightarrow> bool \<times> ('ch, 'nt, 'z) world_scheme" where
  "delete_room iter rid w =
     (case rooms w rid of
        None \<Rightarrow> (False, w)
      | Some ref \<Rightarrow>
          (True,
           fold (\<lambda>mid. update_index mid (\<lambda>S. S - {rid})) (room_members iter (room_heap w ref))
             (w\<lparr>rooms := (rooms w)(rid := None)\<rparr>)))"

definition join_room ::
  "string \<Rightarrow> string \<Rightarrow> ('ch, 'nt, 'z) world_scheme
     \<Rightarrow> ('t, 'i, 's, unit) ws_result \<times> ('ch, 'nt, 'z) world_scheme" where
  "join_room cid rid w =
     (if connections w cid = None then (Inl (ConnectionNotFound cid), w)
      else
        (let (ref, w1) = create_room rid w;
             w2 = update_room ref (room_join cid) w1
         in (Inr (), update_index cid (insert rid) w2)))"

definition leave_room ::
  "string \<Rightarrow> string \<Rightarrow> ('ch, 'nt, 'z) world_scheme
     \<Rightarrow> ('t, 'i, 's, unit) ws_result \<times> ('ch, 'nt, 'z) world_scheme" where
  "leave_room cid rid w =
     (Inr (), remove_room_if_empty rid (update_index cid (\<lambda>S. S - {rid}) (leave_if_present cid rid w)))"

section \<open>Broadcasting\<close>

text \<open>The body of the three loops: send to one connection and count a success.\<close>

definition send_counted ::
  "('ch, 'nt) runtime \<Rightarrow> message \<Rightarrow> connection
     \<Rightarrow> nat \<times> ('ch, 'nt, 'z) world_scheme \<Rightarrow> nat \<times> ('ch, 'nt, 'z) world_scheme" where
  "send_counted rt m c s =
     (let (r, cls) = (connection_send rt m c (cells (snd s)) :: (unit, unit, unit, unit) ws_result \<times> _)
      in (if is_ok r then fst s + 1 else fst s, (snd s)\<lparr>cells := cls\<rparr>))"

definition send_to_member ::
  "('ch, 'nt) runtime \<Rightarrow> message \<Rightarrow> string
     \<Rightarrow> nat \<times> ('ch, 'nt, 'z) world_scheme \<Rightarrow> nat \<times> ('ch, 'nt, 'z) world_scheme" where
  "send_to_member rt m cid s =
     (case connections (snd s) cid of
        None \<Rightarrow> s
      | Some c \<Rightarrow> send_counted rt m c s)"

definition broadcast_to_room ::
  "('ch, 'nt) runtime \<Rightarrow> iteration \<Rightarrow> string \<Rightarrow> message \<Rightarrow> ('ch, 'nt, 'z) world_scheme
     \<Rightarrow> ('t, 'i, 's, nat) ws_result \<times> ('ch, 'nt, 'z) world_scheme" where
  "broadcast_to_room rt iter rid m w =
     (case rooms w rid of
        None \<Rightarrow> (Inl (RoomNotFound rid), w)
      | Some ref \<Rightarrow>
          (let (n, w1) = for_each_member iter (room_heap w ref) (send_to_member rt m) (0, w)
           in (Inr n, w1)))"

definition broadcast_to_room_except ::
  "('ch, 'nt) runtime \<Rightarrow> iteration \<Rightarrow> string \<Rightarrow> message \<Rightarrow> string \<Rightarrow> ('ch, 'nt, 'z) world_scheme
     \<Rightarrow> ('t, 'i, 's, nat) ws_result \<times> ('ch, 'nt, 'z) world_scheme" where
  "broadcast_to_room_except rt iter rid m except_id w =
     (case rooms w rid of
        None \<Rightarrow> (Inl (RoomNotFound rid), w)
      | Some ref \<Rightarrow>
          (let (n, w1) = for_each_member iter (room_heap w ref)
             (\<lambda>cid s. if cid \<noteq> except_id then send_to_member rt m cid s else s) (0, w)
           in (Inr n, w1)))"

definition broadcast_all ::
  "('ch, 'nt) runtime \<Rightarrow> iteration \<Rightarrow> message \<Rightarrow> ('ch, 'nt, 'z) world_scheme
     \<Rightarrow> nat \<times> ('ch, 'nt, 'z) world_scheme" where
  "broadcast_all rt iter m w = fold (send_to_member rt m) (iter (dom (connections w))) (0, w)"

section \<open>Enumeration\<close>

definition room_ids :: "iteration \<Rightarrow> ('ch, 'nt, 'z) world_scheme \<Rightarrow> string list" where
  "room_ids iter w = iter (dom (rooms w))"

definition connection_ids :: "iteration \<Rightarrow> ('ch, 'nt, 'z) world_scheme \<Rightarrow> string list" where
  "connection_ids iter w = iter (dom (connections w))"

definition connection_count :: "('ch, 'nt, 'z) world_scheme \<Rightarrow> nat" where
  "connection_count w = card (dom (connections w))"

definition room_count :: "('ch, 'nt, 'z) world_scheme \<Rightarrow> nat" where
  "room_count w = card (dom (rooms w))"

section \<open>The invariant\<close>

definition rooms_of :: "('ch, 'nt, 'z) world_scheme \<Rightarrow> string \<Rightarrow> string set" where
  "rooms_of w cid = (case connection_rooms w cid of None \<Rightarrow> {} | Some S \<Rightarrow> S)"

definition members_of :: "('ch, 'nt, 'z) world_scheme \<Rightarrow> string \<Rightarrow> string set" where
  "members_of w rid = (case rooms w rid of None \<Rightarrow> {} | Some ref \<Rightarrow> members (room_heap w ref))"

text \<open>Every room of the manager is allocated and knows its own id; so no two share an address.\<close>

definition heap_ok :: "('ch, 'nt, 'z) world_scheme \<Rightarrow> bool" where
  "heap_ok w \<longleftrightarrow>
     (\<forall>rid ref. rooms w rid = Some ref \<longrightarrow> ref < next_room w \<and> room_id (room_heap w ref) = rid)"

text \<open>
  The invariant of the manager: the index from connections to rooms has exactly the registered
  connections and is the converse of the membership of the rooms; ids are keys; handles have
  cells of their own; everything is finite.
\<close>

definition manager_ok :: "('ch, 'nt, 'z) world_scheme \<Rightarrow> bool" where
  "manager_ok w \<longleftrightarrow>
     heap_ok w \<and>
     dom (connection_rooms w) = dom (connections w) \<and>
     (\<forall>cid rid. rid \<in> rooms_of w cid \<longleftrightarrow> cid \<in> members_of w rid) \<and>
     (\<forall>cid c. connections w cid = Some c \<longrightarrow> conn_id c = cid) \<and>
     inj_on (\<lambda>cid. conn_cell (the (connections w cid))) (dom (connections w)) \<and>
     finite (dom (connections w)) \<and> finite (dom (rooms w)) \<and> (\<forall>cid. finite (rooms_of w cid))"

lemma manager_okD:
  assumes "manager_ok w"
  shows "heap_ok w" "dom (connection_rooms w) = dom (connections w)"
    "rid \<in> rooms_of w cid \<longleftrightarrow> cid \<in> members_of w rid"
    "finite (dom (connections w))" "finite (dom (rooms w))" "finite (rooms_of w cid)"
  using assms by (auto simp: manager_ok_def)

lemma heap_ok_same: "heap_ok w \<Longrightarrow> rooms w a = Some ref \<Longrightarrow> rooms w b = Some ref \<Longrightarrow> a = b"
  unfolding heap_ok_def by metis

lemma members_registered:
  assumes "manager_ok w"
  shows "members_of w rid \<subseteq> dom (connections w)" "finite (members_of w rid)"
proof -
  show sub: "members_of w rid \<subseteq> dom (connections w)"
  proof
    fix cid assume "cid \<in> members_of w rid"
    then have "rid \<in> rooms_of w cid" using manager_okD(3) [OF assms] by blast
    then show "cid \<in> dom (connections w)"
      using manager_okD(2) [OF assms] by (auto simp: rooms_of_def split: option.splits)
  qed
  show "finite (members_of w rid)"
    by (rule finite_subset [OF sub manager_okD(4) [OF assms]])
qed

section \<open>The elementary updates\<close>

lemma members_of_cong:
  "rooms w' q = rooms w q \<Longrightarrow> room_heap w' = room_heap w \<Longrightarrow> members_of w' q = members_of w q"
  by (simp add: members_of_def split: option.split)

lemma update_room_frame [simp]:
  "cells (update_room ref f w) = cells w" "rooms (update_room ref f w) = rooms w"
  "next_room (update_room ref f w) = next_room w"
  "connection_rooms (update_room ref f w) = connection_rooms w"
  "connections (update_room ref f w) = connections w"
  "room_heap (update_room ref f w) = (room_heap w)(ref := f (room_heap w ref))"
  by (simp_all add: update_room_def)

lemma leave_if_present_frame [simp]:
  "cells (leave_if_present cid rid w) = cells w" "rooms (leave_if_present cid rid w) = rooms w"
  "connection_rooms (leave_if_present cid rid w) = connection_rooms w"
  "connections (leave_if_present cid rid w) = connections w"
  "next_room (leave_if_present cid rid w) = next_room w"
  by (simp_all add: leave_if_present_def split: option.split)

lemma remove_room_if_empty_frame [simp]:
  "cells (remove_room_if_empty rid w) = cells w"
  "connection_rooms (remove_room_if_empty rid w) = connection_rooms w"
  "connections (remove_room_if_empty rid w) = connections w"
  "next_room (remove_room_if_empty rid w) = next_room w"
  "room_heap (remove_room_if_empty rid w) = room_heap w"
  by (simp_all add: remove_room_if_empty_def split: option.split)

lemma update_index_frame [simp]:
  "cells (update_index cid f w) = cells w" "rooms (update_index cid f w) = rooms w"
  "connections (update_index cid f w) = connections w"
  "next_room (update_index cid f w) = next_room w"
  "room_heap (update_index cid f w) = room_heap w"
  "dom (connection_rooms (update_index cid f w)) = dom (connection_rooms w)"
  by (auto simp: update_index_def split: option.split)

lemma members_of_update_index [simp]: "members_of (update_index cid f w) = members_of w"
  by (simp add: members_of_def fun_eq_iff split: option.split)

lemma rooms_of_update_index:
  "rooms_of (update_index cid f w) d =
     (if d = cid \<and> cid \<in> dom (connection_rooms w) then f (rooms_of w cid) else rooms_of w d)"
  by (auto simp: update_index_def rooms_of_def split: option.split)

lemma rooms_of_frame [simp]:
  "rooms_of (leave_if_present cid rid w) = rooms_of w"
  "rooms_of (remove_room_if_empty rid w) = rooms_of w"
  "rooms_of (update_room ref f w) = rooms_of w"
  by (simp_all add: rooms_of_def fun_eq_iff)

lemma heap_ok_update_index [simp]: "heap_ok (update_index cid f w) = heap_ok w"
  by (simp add: heap_ok_def)

lemma heap_ok_update_room:
  "heap_ok w \<Longrightarrow> (\<And>r. room_id (f r) = room_id r) \<Longrightarrow> heap_ok (update_room ref f w)"
  by (auto simp: heap_ok_def)

lemma heap_ok_leave [simp]: "heap_ok w \<Longrightarrow> heap_ok (leave_if_present cid rid w)"
  by (auto simp: leave_if_present_def room_leave_def intro: heap_ok_update_room split: option.split)

lemma heap_ok_remove [simp]: "heap_ok w \<Longrightarrow> heap_ok (remove_room_if_empty rid w)"
  by (auto simp: remove_room_if_empty_def heap_ok_def split: option.split)

lemma members_of_leave:
  assumes "heap_ok w"
  shows "members_of (leave_if_present cid rid w) q =
    (if q = rid then members_of w rid - {cid} else members_of w q)"
  using heap_ok_same [OF assms]
  by (auto simp: leave_if_present_def members_of_def room_leave_def split: option.split)

lemma members_of_update_room:
  assumes "heap_ok w" "rooms w rid = Some ref"
  shows "members_of (update_room ref f w) q =
    (if q = rid then members (f (room_heap w ref)) else members_of w q)"
proof (cases "q = rid")
  case True
  with assms show ?thesis by (simp add: members_of_def)
next
  case False
  then have "rooms w q \<noteq> Some ref" using heap_ok_same [OF assms(1) _ assms(2)] by blast
  with False show ?thesis by (cases "rooms w q") (simp_all add: members_of_def)
qed

lemma members_of_remove [simp]: "members_of (remove_room_if_empty rid w) = members_of w"
  by (auto simp: remove_room_if_empty_def members_of_def room_is_empty_def fun_eq_iff split: option.split)

lemma rooms_remove:
  "dom (rooms (remove_room_if_empty rid w)) =
     dom (rooms w) - (if members_of w rid = {} then {rid} else {})"
  by (auto simp: remove_room_if_empty_def members_of_def room_is_empty_def split: option.split if_splits)

lemma create_room_spec:
  assumes "heap_ok w"
  shows "heap_ok (snd (create_room rid w))"
    and "members_of (snd (create_room rid w)) = members_of w"
    and "rooms (snd (create_room rid w)) rid = Some (fst (create_room rid w))"
    and "dom (rooms (snd (create_room rid w))) = insert rid (dom (rooms w))"
  using assms
  by (auto simp: create_room_def heap_ok_def members_of_def room_new_def fun_eq_iff
      intro: less_SucI split: option.split)

lemma create_room_frame [simp]:
  "cells (snd (create_room rid w)) = cells w"
  "connection_rooms (snd (create_room rid w)) = connection_rooms w"
  "connections (snd (create_room rid w)) = connections w"
  "rooms_of (snd (create_room rid w)) = rooms_of w"
  by (simp_all add: create_room_def rooms_of_def fun_eq_iff split: option.split)

text \<open>Leaving a room and dropping it when it is empty: the body of the loop of \<open>unregister\<close>.\<close>

abbreviation drop_member ::
  "string \<Rightarrow> string \<Rightarrow> ('ch, 'nt, 'z) world_scheme \<Rightarrow> ('ch, 'nt, 'z) world_scheme" where
  "drop_member cid rid w \<equiv> remove_room_if_empty rid (leave_if_present cid rid w)"

lemma drop_members:
  assumes "heap_ok w"
  shows "let w1 = fold (drop_member cid) rids w in
    heap_ok w1 \<and> connections w1 = connections w \<and> connection_rooms w1 = connection_rooms w \<and>
    cells w1 = cells w \<and>
    (\<forall>q. members_of w1 q = (if q \<in> set rids then members_of w q - {cid} else members_of w q)) \<and>
    dom (rooms w1) = dom (rooms w) - {rid \<in> set rids. members_of w rid \<subseteq> {cid}}"
  using assms
proof (induction rids arbitrary: w)
  case Nil
  then show ?case by simp
next
  case (Cons rid rids)
  let ?w = "drop_member cid rid w"
  have w: "heap_ok ?w" using Cons.prems by simp
  have m: "members_of (leave_if_present cid rid w) q =
      (if q = rid then members_of w rid - {cid} else members_of w q)" for q
    using Cons.prems by (rule members_of_leave)
  have d: "dom (rooms ?w) = dom (rooms w) - (if members_of w rid \<subseteq> {cid} then {rid} else {})"
    using Cons.prems by (simp add: rooms_remove members_of_leave Diff_eq_empty_iff)
  show ?case using Cons.IH [OF w] by (auto simp: Let_def m d)
qed

end
