(* ===== verification/Ws_Writer.thy ===== *)
theory Ws_Writer imports Ws_Connection "HOL-Library.Sublist" begin

text \<open>
  The writer task of a connection (\<open>ConnectionWriter::run\<close> of \<open>connection.rs\<close>) over the
  messages its channel yields; the end of the list is \<open>recv\<close> returning \<open>None\<close>.

  The sink is the write half of a tungstenite stream and a parameter: the record \<open>sink_api\<close>.
  The locale \<open>message_sink\<close> states what the writers rely on: a successful send puts exactly that
  message on the wire, a failed one puts nothing on it or that message, and \<open>close\<close> adds no
  data message.
\<close>

record ('sk, 'c, 'f, 't) sink_api =
  sink_send :: "('c, 'f) raw_message \<Rightarrow> 'sk \<Rightarrow> ('t + unit) \<times> 'sk"
  sink_close :: "'sk \<Rightarrow> 'sk"

fun writer_run ::
  "('sk, 'c, 'f, 't) sink_api \<Rightarrow> message list \<Rightarrow> 'sk
     \<Rightarrow> ('t, 'i, 's, unit) ws_result \<times> 'sk \<times> message list" where
  "writer_run api [] sk = (Inr (), sink_close api sk, [])"
| "writer_run api (m # ms) sk =
     (case raw_of_message m of
        Inl _ \<Rightarrow> writer_run api ms sk
      | Inr raw \<Rightarrow>
          (case sink_send api raw sk of
             (Inl e, sk1) \<Rightarrow> (Inl (Protocol e), sk1, ms)
           | (Inr _, sk1) \<Rightarrow>
               (if is_close m then (Inr (), sink_close api sk1, ms)
                else writer_run api ms sk1)))"

section \<open>What a writer puts on the wire\<close>

text \<open>
  The wire image of a list of messages: the sendable ones in order, up to and including the
  first Close.
\<close>

fun wire :: "message list \<Rightarrow> ('c, 'f) raw_message list" where
  "wire [] = []"
| "wire (m # ms) =
     (case raw_of_message m of
        Inl _ \<Rightarrow> wire ms
      | Inr raw \<Rightarrow> raw # (if is_close m then [] else wire ms))"

text \<open>The same, in the vocabulary of lists.\<close>

lemma wire_filter:
  "(wire ms :: ('c, 'f) raw_message list) = map (\<lambda>m. projr (raw_of_message m))
     (filter sendable (takeWhile (\<lambda>m. \<not> is_close m) ms @
        (case dropWhile (\<lambda>m. \<not> is_close m) ms of [] \<Rightarrow> [] | m # _ \<Rightarrow> [m])))"
proof (induction ms)
  case Nil
  show ?case by simp
next
  case (Cons m ms)
  show ?case
  proof (cases "is_close m")
    case True
    then show ?thesis by (simp add: raw_of_message_close sendable_def is_close_def)
  next
    case False
    show ?thesis
    proof (cases "sendable m")
      case sendable: True
      then obtain raw :: "('c, 'f) raw_message" where "raw_of_message m = Inr raw"
        using raw_of_message_ok [of m, where ?'a = 'c and ?'b = 'f] by (auto simp: is_ok_iff)
      with sendable False Cons show ?thesis by simp
    next
      case unsendable: False
      then obtain e where "raw_of_message m = (Inl e :: invalid_text_payload + ('c, 'f) raw_message)"
        using raw_of_message_ok [of m, where ?'a = 'c and ?'b = 'f]
        by (cases "raw_of_message m :: invalid_text_payload + ('c, 'f) raw_message") auto
      with unsendable False Cons show ?thesis by simp
    qed
  qed
qed

lemma wire_append_no_close:
  "list_all (\<lambda>m. \<not> is_close m) ms \<Longrightarrow> wire (ms @ ns) = wire ms @ wire ns"
  by (induction ms) (auto split: sum.splits)

lemma wire_snoc:
  assumes "list_all (\<lambda>m. \<not> is_close m) ms"
  shows "(wire (ms @ [m]) :: ('c, 'f) raw_message list) =
    wire ms @ (case raw_of_message m of Inl _ \<Rightarrow> [] | Inr raw \<Rightarrow> [raw])"
proof -
  have "(wire (ms @ [m]) :: ('c, 'f) raw_message list) = wire ms @ wire [m]"
    using assms by (rule wire_append_no_close)
  then show ?thesis by (simp split: sum.split)
qed

lemma wire_append_close:
  "\<not> list_all (\<lambda>m. \<not> is_close m) ms \<Longrightarrow> wire (ms @ ns) = wire ms"
  by (induction ms) (auto simp: raw_of_message_close split: sum.splits)

lemma wire_prefix: "prefix ms ns \<Longrightarrow> prefix (wire ms) (wire ns)"
  by (cases "list_all (\<lambda>m. \<not> is_close m) ms")
    (auto simp: prefix_def wire_append_no_close wire_append_close)

lemma wire_no_close_inside: "\<forall>r \<in> set (butlast (wire ms)). \<not> raw_is_close r"
proof (induction ms)
  case Nil
  show ?case by simp
next
  case (Cons m ms)
  then show ?case
    by (auto simp: raw_is_close_of_message split: sum.splits if_splits)
qed

lemma wire_part_no_close:
  assumes "prefix out (wire ms)"
  shows "\<forall>r \<in> set (butlast out). \<not> raw_is_close r"
proof
  fix r assume "r \<in> set (butlast out)"
  moreover obtain rest where "wire ms = out @ rest" using assms by (auto simp: prefix_def)
  ultimately have "r \<in> set (butlast (wire ms))"
    by (cases "rest = []") (auto simp: butlast_append dest: in_set_butlastD)
  then show "\<not> raw_is_close r" using wire_no_close_inside by blast
qed

section \<open>The contract of the sink\<close>

locale message_sink =
  fixes api :: "('sk, 'c, 'f, 't) sink_api" and written :: "'sk \<Rightarrow> ('c, 'f) raw_message list"
  assumes send_ok: "sink_send api raw sk = (Inr u, sk1) \<Longrightarrow> written sk1 = written sk @ [raw]"
    and send_err: "sink_send api raw sk = (Inl e, sk1) \<Longrightarrow>
      written sk1 = written sk \<or> written sk1 = written sk @ [raw]"
    and close_written: "written (sink_close api sk) = written sk"
begin

lemma writer_run_ok:
  "writer_run api ms sk = (Inr u, sk1, rest) \<Longrightarrow> written sk1 = written sk @ wire ms"
  by (induction ms arbitrary: sk)
    (auto simp: close_written send_ok split: sum.splits prod.splits if_splits)

lemma writer_run_err:
  "writer_run api ms sk = (Inl e, sk1, rest) \<Longrightarrow>
     (\<exists>t. e = Protocol t) \<and> (\<exists>out. prefix out (wire ms) \<and> written sk1 = written sk @ out)"
proof (induction ms arbitrary: sk)
  case Nil
  then show ?case by simp
next
  case (Cons m ms)
  show ?case
  proof (cases "raw_of_message m :: invalid_text_payload + ('c, 'f) raw_message")
    case (Inl x)
    with Cons show ?thesis by simp
  next
    case (Inr raw)
    show ?thesis
    proof (cases "sink_send api raw sk")
      case (Pair r sk2)
      show ?thesis
      proof (cases r)
        case (Inl t)
        with Cons.prems Inr Pair have "e = Protocol t" "sk1 = sk2" by auto
        moreover have "written sk2 = written sk \<or> written sk2 = written sk @ [raw]"
          using Pair Inl by (intro send_err) simp
        ultimately show ?thesis using Inr
          by (auto intro: exI [of _ "[]"] exI [of _ "[raw]"])
      next
        case (Inr u)
        with Cons.prems Pair \<open>raw_of_message m = Inr raw\<close> have "\<not> is_close m"
          and run: "writer_run api ms sk2 = (Inl e, sk1, rest)" by (auto split: if_splits)
        moreover have "written sk2 = written sk @ [raw]" using Pair Inr by (intro send_ok) simp
        moreover obtain t out where "e = Protocol t" "prefix out (wire ms)" "written sk1 = written sk2 @ out"
          using Cons.IH [OF run] by blast
        ultimately show ?thesis using \<open>raw_of_message m = Inr raw\<close>
          by (auto intro!: exI [of _ "raw # out"])
      qed
    qed
  qed
qed

end

section \<open>A sink over a list\<close>

text \<open>The wire as a list, on a transport that fails after a number of messages.\<close>

record ('c, 'f) wire_sink =
  ws_out :: "('c, 'f) raw_message list"
  ws_credit :: nat
  ws_closed :: bool

definition wire_send ::
  "('c, 'f) raw_message \<Rightarrow> ('c, 'f) wire_sink \<Rightarrow> (string + unit) \<times> ('c, 'f) wire_sink" where
  "wire_send raw sk =
     (if ws_closed sk then (Inl ''closed'', sk)
      else case ws_credit sk of
        0 \<Rightarrow> (Inl ''broken pipe'', sk)
      | Suc n \<Rightarrow> (Inr (), sk\<lparr>ws_out := ws_out sk @ [raw], ws_credit := n\<rparr>))"

definition wire_api :: "(('c, 'f) wire_sink, 'c, 'f, string) sink_api" where
  "wire_api = \<lparr>sink_send = wire_send, sink_close = (\<lambda>sk. sk\<lparr>ws_closed := True\<rparr>)\<rparr>"

interpretation wire: message_sink wire_api ws_out
  by unfold_locales (auto simp: wire_api_def wire_send_def split: if_splits nat.splits)

section \<open>Properties\<close>

text \<open>
  The writer puts on the wire the messages it receives, in order, each unchanged, skipping
  text that is not UTF-8 (which never stops it), up to the first Close and nothing after it;
  so at most one Close goes out, as the last message.  When a send fails, the writer stops with
  that error, and what went out is a prefix of the same sequence.
\<close>

theorem writer_wire:
  assumes "message_sink api written"
  shows "let p = writer_run api ms sk :: ('t, 'i, 's, unit) ws_result \<times> _;
      w = wire ms :: ('c, 'f) raw_message list
    in (\<exists>out. written (fst (snd p)) = written sk @ out \<and>
         (case fst p of Inr _ \<Rightarrow> out = w | Inl e \<Rightarrow> (\<exists>t. e = Protocol t) \<and> prefix out w)) \<and>
       \<not> (\<exists>r \<in> set (butlast w). raw_is_close r)"
proof -
  obtain r sk1 rest where run: "(writer_run api ms sk :: ('t, 'i, 's, unit) ws_result \<times> _) = (r, sk1, rest)"
    by (metis prod_cases3)
  show ?thesis
  proof (cases r)
    case (Inl e)
    with message_sink.writer_run_err [OF assms, of ms sk e sk1 rest] run show ?thesis
      using wire_no_close_inside [of ms] by (auto simp: Let_def)
  next
    case (Inr u)
    with message_sink.writer_run_ok [OF assms, of ms sk u sk1 rest] run show ?thesis
      using wire_no_close_inside [of ms] by (auto simp: Let_def)
  qed
qed

definition sample_messages :: "message list" where
  "sample_messages =
     [text_msg ''a'', \<lparr>message_type = Text, payload = [0xFF]\<rparr>, ping_msg [], close_msg, text_msg ''b'']"

theorem writer_wire_witness:
  "\<exists>out. ws_out (fst (snd (writer_run wire_api sample_messages
       \<lparr>ws_out = [], ws_credit = 9, ws_closed = False\<rparr>
       :: (string, unit, unit, unit) ws_result \<times> (unit, unit) wire_sink \<times> message list))) = out \<and>
     out = [RawText ''a'', RawPing [], RawClose None]"
proof -
  let ?sk = "\<lparr>ws_out = [], ws_credit = 9, ws_closed = False\<rparr> :: (unit, unit) wire_sink"
  have bad: "raw_of_message \<lparr>message_type = Text, payload = [0xFF]\<rparr>
      = (Inl \<lparr>valid_up_to = 0\<rparr> :: invalid_text_payload + (unit, unit) raw_message)"
    by (simp add: raw_of_message_Inl)
  have ok: "raw_of_message (text_msg ''a'') = (Inr (RawText ''a'') :: invalid_text_payload + (unit, unit) raw_message)"
    by code_simp
  have w: "wire sample_messages = [RawText ''a'', RawPing [], RawClose None :: (unit, unit) raw_message]"
    by (simp add: sample_messages_def bad ok)
  have "is_ok (fst (writer_run wire_api sample_messages ?sk :: (string, unit, unit, unit) ws_result \<times> _))"
    by (simp add: sample_messages_def bad ok wire_api_def wire_send_def numeral_eq_Suc)
  then obtain u where "fst (writer_run wire_api sample_messages ?sk :: (string, unit, unit, unit) ws_result \<times> _) = Inr u"
    by (auto simp: is_ok_iff)
  with writer_wire [OF wire.message_sink_axioms, of sample_messages ?sk,
      where ?'i = unit and ?'s = unit] w
  show ?thesis by simp
qed

end
