(* ===== verification/Ws_Registry.thy ===== *)
theory Ws_Registry
  imports Ws_Room Ws_Writer "HOL-Library.List_Lexorder" "HOL-Library.Char_ord"
begin

text \<open>
  The room manager of \<open>room.rs\<close> against its specification: an abstract registry of connections,
  rooms and memberships.  Every operation of the manager keeps its invariant and refines the
  corresponding operation of the registry, and broadcasting is a set of independent sends.
\<close>

section \<open>The abstract registry\<close>

text \<open>
  What the manager promises, without heap, indices and iteration: the registered connections,
  the existing rooms, and who is in which room.
\<close>

record registry =
  reg :: "string set"
  live :: "string set"
  mem :: "(string \<times> string) set"

definition registry_of :: "('ch, 'nt, 'z) world_scheme \<Rightarrow> registry" where
  "registry_of w =
     \<lparr>reg = dom (connections w), live = dom (rooms w), mem = {(cid, rid). cid \<in> members_of w rid}\<rparr>"

text \<open>The rooms that have no member but \<open>cid\<close>.\<close>

definition alone :: "registry \<Rightarrow> string \<Rightarrow> string set" where
  "alone g cid = {rid. \<forall>d. (d, rid) \<in> mem g \<longrightarrow> d = cid}"

datatype manager_op =
    Register connection
  | Unregister string
  | CreateRoom string
  | DeleteRoom string
  | Join string string
  | Leave string string
  | Broadcast string message
  | BroadcastExcept string message string
  | BroadcastAll message

fun registry_step :: "manager_op \<Rightarrow> registry \<Rightarrow> registry" where
  "registry_step (Register c) g = g\<lparr>reg := insert (conn_id c) (reg g)\<rparr>"
| "registry_step (Unregister cid) g =
     g\<lparr>reg := reg g - {cid}, live := live g - {rid \<in> alone g cid. (cid, rid) \<in> mem g},
       mem := {(d, rid) \<in> mem g. d \<noteq> cid}\<rparr>"
| "registry_step (CreateRoom rid) g = g\<lparr>live := insert rid (live g)\<rparr>"
| "registry_step (DeleteRoom rid) g =
     g\<lparr>live := live g - {rid}, mem := {(d, r) \<in> mem g. r \<noteq> rid}\<rparr>"
| "registry_step (Join cid rid) g =
     (if cid \<in> reg g then g\<lparr>live := insert rid (live g), mem := insert (cid, rid) (mem g)\<rparr> else g)"
| "registry_step (Leave cid rid) g =
     g\<lparr>live := live g - ({rid} \<inter> alone g cid), mem := mem g - {(cid, rid)}\<rparr>"
| "registry_step (Broadcast _ _) g = g"
| "registry_step (BroadcastExcept _ _ _) g = g"
| "registry_step (BroadcastAll _) g = g"

text \<open>The manager's operations, with their results dropped.\<close>

fun manager_step ::
  "('ch, 'nt) runtime \<Rightarrow> iteration \<Rightarrow> manager_op
     \<Rightarrow> ('ch, 'nt, 'z) world_scheme \<Rightarrow> ('ch, 'nt, 'z) world_scheme" where
  "manager_step rt iter (Register c) w = register_connection c w"
| "manager_step rt iter (Unregister cid) w = unregister_connection iter cid w"
| "manager_step rt iter (CreateRoom rid) w = snd (create_room rid w)"
| "manager_step rt iter (DeleteRoom rid) w = snd (delete_room iter rid w)"
| "manager_step rt iter (Join cid rid) w =
     snd (join_room cid rid w :: (unit, unit, unit, unit) ws_result \<times> _)"
| "manager_step rt iter (Leave cid rid) w =
     snd (leave_room cid rid w :: (unit, unit, unit, unit) ws_result \<times> _)"
| "manager_step rt iter (Broadcast rid m) w =
     snd (broadcast_to_room rt iter rid m w :: (unit, unit, unit, nat) ws_result \<times> _)"
| "manager_step rt iter (BroadcastExcept rid m x) w =
     snd (broadcast_to_room_except rt iter rid m x w :: (unit, unit, unit, nat) ws_result \<times> _)"
| "manager_step rt iter (BroadcastAll m) w = snd (broadcast_all rt iter m w)"

text \<open>
  The server registers each connection once, under a fresh id and with a cell of its own.
\<close>

fun manager_legal :: "manager_op \<Rightarrow> ('ch, 'nt, 'z) world_scheme \<Rightarrow> bool" where
  "manager_legal (Register c) w =
     (conn_id c \<notin> dom (connections w) \<and>
      (\<forall>cid \<in> dom (connections w). conn_cell (the (connections w cid)) \<noteq> conn_cell c))"
| "manager_legal _ _ = True"

section \<open>Each operation refines its specification\<close>

text \<open>Building the invariant from the parts an operation changes.\<close>

lemma manager_okI:
  assumes "heap_ok w" "dom (connection_rooms w) = dom (connections w)"
    and "\<And>cid rid. rid \<in> rooms_of w cid \<longleftrightarrow> cid \<in> members_of w rid"
    and "\<And>cid c. connections w cid = Some c \<Longrightarrow> conn_id c = cid"
    and "inj_on (\<lambda>cid. conn_cell (the (connections w cid))) (dom (connections w))"
    and "finite (dom (connections w))" "finite (dom (rooms w))" "\<And>cid. finite (rooms_of w cid)"
  shows "manager_ok w"
  using assms by (auto simp: manager_ok_def)

text \<open>The parts about connections, when an operation keeps or shrinks their map.\<close>

lemma manager_ok_connections:
  assumes "manager_ok w" "connections w' = (connections w) |` S"
  shows "\<And>cid c. connections w' cid = Some c \<Longrightarrow> conn_id c = cid"
    and "inj_on (\<lambda>cid. conn_cell (the (connections w' cid))) (dom (connections w'))"
    and "finite (dom (connections w'))"
proof -
  show "conn_id c = cid" if "connections w' cid = Some c" for cid c
    using that assms by (auto simp: manager_ok_def restrict_map_def split: if_splits)
  have "inj_on (\<lambda>cid. conn_cell (the (connections w cid))) (dom (connections w) \<inter> S)"
    using assms(1) by (auto simp: manager_ok_def intro: inj_on_subset)
  then show "inj_on (\<lambda>cid. conn_cell (the (connections w' cid))) (dom (connections w'))"
    by (simp add: assms(2) inj_on_def)
  show "finite (dom (connections w'))"
    using assms by (auto simp: manager_ok_def)
qed

lemma manager_ok_same_connections:
  assumes "manager_ok w" "connections w' = connections w"
    and "heap_ok w'" "dom (connection_rooms w') = dom (connection_rooms w)"
    and "\<And>cid rid. rid \<in> rooms_of w' cid \<longleftrightarrow> cid \<in> members_of w' rid"
    and "finite (dom (rooms w'))" "\<And>cid. finite (rooms_of w' cid)"
  shows "manager_ok w'"
  using assms by (auto simp: manager_ok_def)

lemma register_refines:
  assumes "manager_ok w" "manager_legal (Register c) w"
  shows "manager_ok (register_connection c w) \<and>
    registry_of (register_connection c w) = registry_step (Register c) (registry_of w)"
proof -
  let ?w = "register_connection c w"
  have fresh: "conn_id c \<notin> dom (connections w)" using assms(2) by simp
  have "rooms_of w (conn_id c) = {}"
    using fresh manager_okD(2) [OF assms(1)]
    by (auto simp: rooms_of_def domIff split: option.splits)
  then have r: "rooms_of ?w = rooms_of w"
    by (auto simp: register_connection_def rooms_of_def fun_eq_iff)
  have m: "members_of ?w = members_of w"
    by (intro ext members_of_cong) (simp_all add: register_connection_def)
  have "inj_on (\<lambda>cid. conn_cell (the (connections ?w cid))) (dom (connections ?w))"
    using assms unfolding manager_ok_def
    by (auto simp: register_connection_def inj_on_def dom_def)
  then have "manager_ok ?w"
    using assms(1) by (auto simp: manager_ok_def r m) (auto simp: register_connection_def heap_ok_def split: if_splits)
  then show ?thesis
    by (simp add: registry_of_def m) (simp add: register_connection_def)
qed

lemma create_room_refines:
  assumes "manager_ok w"
  shows "manager_ok (snd (create_room rid w)) \<and>
    registry_of (snd (create_room rid w)) = registry_step (CreateRoom rid) (registry_of w)"
proof -
  note h = create_room_spec [OF manager_okD(1) [OF assms], of rid]
  have "manager_ok (snd (create_room rid w))"
    using assms by (rule manager_ok_same_connections) (use manager_okD [OF assms] h in auto)
  with h show ?thesis by (simp add: registry_of_def)
qed

lemma join_room_refines:
  fixes cid rid :: string
  assumes "manager_ok w"
  defines "p \<equiv> join_room cid rid w :: ('t, 'i, 's, unit) ws_result \<times> _"
  shows "manager_ok (snd p) \<and> registry_of (snd p) = registry_step (Join cid rid) (registry_of w) \<and>
    fst p = (if cid \<in> dom (connections w) then Inr () else Inl (ConnectionNotFound cid))"
proof (cases "connections w cid")
  case None
  with assms show ?thesis by (auto simp: join_room_def registry_of_def)
next
  case (Some c)
  define w1 where "w1 = snd (create_room rid w)"
  define ref where "ref = fst (create_room rid w)"
  define w2 where "w2 = update_room ref (room_join cid) w1"
  note ok = manager_okD [OF assms(1)]
  note h = create_room_spec [OF ok(1), of rid, folded w1_def ref_def]
  have p: "p = (Inr (), update_index cid (insert rid) w2)"
    by (simp add: p_def join_room_def Some w2_def w1_def ref_def case_prod_unfold Let_def)
  have heap: "heap_ok w2" unfolding w2_def using h(1) by (rule heap_ok_update_room) (simp add: room_join_def)
  have mem: "members_of w2 q = (if q = rid then insert cid (members_of w rid) else members_of w q)" for q
  proof -
    have "members (room_heap w1 ref) = members_of w rid"
      using h(2,3) by (metis members_of_def option.simps(5))
    then show ?thesis
      unfolding w2_def members_of_update_room [OF h(1,3)] by (simp add: room_join_def h(2))
  qed
  have conn: "connections w2 = connections w" "connection_rooms w2 = connection_rooms w"
    "rooms_of w2 = rooms_of w" "dom (rooms w2) = insert rid (dom (rooms w))"
    using h by (simp_all add: w2_def w1_def)
  have "cid \<in> dom (connection_rooms w2)" using Some ok(2) conn by auto
  then have idx: "rooms_of (update_index cid (insert rid) w2) d =
      (if d = cid then insert rid (rooms_of w cid) else rooms_of w d)" for d
    by (simp add: rooms_of_update_index conn)
  have "manager_ok (snd p)"
    using assms(1) by (rule manager_ok_same_connections)
      (use ok heap mem conn idx in \<open>auto simp: p\<close>)
  then show ?thesis
    using Some by (auto simp: p registry_of_def mem conn)
qed

lemma leave_room_refines:
  fixes cid rid :: string
  assumes "manager_ok w"
  defines "p \<equiv> leave_room cid rid w :: ('t, 'i, 's, unit) ws_result \<times> _"
  shows "manager_ok (snd p) \<and> registry_of (snd p) = registry_step (Leave cid rid) (registry_of w) \<and>
    fst p = Inr ()"
proof -
  note ok = manager_okD [OF assms(1)]
  define w1 where "w1 = leave_if_present cid rid w"
  define w2 where "w2 = update_index cid (\<lambda>S. S - {rid}) w1"
  have p: "p = (Inr (), remove_room_if_empty rid w2)"
    by (simp add: p_def leave_room_def w2_def w1_def)
  have heap: "heap_ok w2" using ok(1) by (simp add: w2_def w1_def)
  have mem: "members_of w2 q = (if q = rid then members_of w rid - {cid} else members_of w q)" for q
    using ok(1) by (simp add: w2_def w1_def members_of_leave)
  have idx: "rooms_of w2 d = (if d = cid then rooms_of w cid - {rid} else rooms_of w d)" for d
    using ok(2) by (auto simp: w2_def w1_def rooms_of_update_index) (auto simp: rooms_of_def split: option.splits)
  have conn: "connections w2 = connections w" "dom (connection_rooms w2) = dom (connection_rooms w)"
    "dom (rooms w2) = dom (rooms w)" by (simp_all add: w2_def w1_def)
  have "manager_ok (snd p)"
    using assms(1) by (rule manager_ok_same_connections)
      (use ok heap mem conn idx in \<open>auto simp: p rooms_remove\<close>)
  then show ?thesis
    by (auto simp: p registry_of_def alone_def mem conn rooms_remove)
qed

text \<open>Taking a room out of the index of several connections.\<close>

lemma update_indexes:
  "let v' = fold (\<lambda>mid. update_index mid (\<lambda>S. S - {rid})) xs v in
     rooms v' = rooms v \<and> room_heap v' = room_heap v \<and> next_room v' = next_room v \<and>
     connections v' = connections v \<and> dom (connection_rooms v') = dom (connection_rooms v) \<and>
     (\<forall>d. rooms_of v' d = (if d \<in> set xs then rooms_of v d - {rid} else rooms_of v d))"
proof (induction xs arbitrary: v)
  case Nil
  then show ?case by simp
next
  case (Cons x xs)
  have "rooms_of (update_index x (\<lambda>S. S - {rid}) v) d =
      (if d = x then rooms_of v d - {rid} else rooms_of v d)" for d
    by (auto simp: rooms_of_update_index) (auto simp: rooms_of_def split: option.splits)
  then show ?case using Cons.IH [of "update_index x (\<lambda>S. S - {rid}) v"]
    by (auto simp: Let_def)
qed

lemma delete_room_refines:
  fixes rid :: string
  assumes "manager_ok w" "iterates iter"
  defines "p \<equiv> delete_room iter rid w"
  shows "manager_ok (snd p) \<and> registry_of (snd p) = registry_step (DeleteRoom rid) (registry_of w) \<and>
    fst p = (rid \<in> dom (rooms w))"
proof (cases "rooms w rid")
  case None
  then have "members_of w rid = {}" by (simp add: members_of_def)
  with None assms show ?thesis by (auto simp: delete_room_def registry_of_def)
next
  case (Some ref)
  note ok = manager_okD [OF assms(1)]
  define w1 where "w1 = w\<lparr>rooms := (rooms w)(rid := None)\<rparr>"
  define mids where "mids = room_members iter (room_heap w ref)"
  have p: "p = (True, fold (\<lambda>mid. update_index mid (\<lambda>S. S - {rid})) mids w1)"
    by (simp add: p_def delete_room_def Some w1_def mids_def)
  have mids: "set mids = members_of w rid"
    using assms(2) members_registered(2) [OF assms(1), of rid] Some
    by (auto simp: mids_def room_members_def iterates_def members_of_def)
  define w2 where "w2 = snd p"
  have w2: "rooms w2 = (rooms w)(rid := None)" "room_heap w2 = room_heap w" "next_room w2 = next_room w"
    "connections w2 = connections w" "dom (connection_rooms w2) = dom (connection_rooms w)"
    "rooms_of w2 d = rooms_of w d - {rid}" for d
    using update_indexes [of rid mids w1] ok(3) mids by (auto simp: w2_def p w1_def Let_def rooms_of_def)
  have mem: "members_of w2 q = (if q = rid then {} else members_of w q)" for q
    by (simp add: members_of_def w2 split: option.split)
  have "manager_ok w2"
    using assms(1) by (rule manager_ok_same_connections)
      (use ok w2 mem in \<open>auto simp: heap_ok_def\<close>)
  then show ?thesis
    using Some by (auto simp: w2_def [symmetric] registry_of_def mem w2) (auto simp: p)
qed

text \<open>Unregistering a connection that has no index is the same with an empty one.\<close>

lemma unregister_as_fold:
  assumes "manager_ok w" "iterates iter"
  shows "unregister_connection iter cid w =
    (let w1 = fold (drop_member cid) (iter (rooms_of w cid)) (w\<lparr>connection_rooms := (connection_rooms w)(cid := None)\<rparr>)
     in w1\<lparr>connections := (connections w1)(cid := None)\<rparr>)"
proof (cases "connection_rooms w cid")
  case None
  then have "set (iter (rooms_of w cid)) = {}" using assms(2) by (simp add: rooms_of_def iterates_def)
  then show ?thesis using None by (simp add: unregister_connection_def fun_upd_idem)
next
  case (Some S)
  then show ?thesis by (simp add: unregister_connection_def rooms_of_def Let_def)
qed

lemma unregister_refines:
  assumes "manager_ok w" "iterates iter"
  shows "manager_ok (unregister_connection iter cid w) \<and>
    registry_of (unregister_connection iter cid w) = registry_step (Unregister cid) (registry_of w) \<and>
    cells (unregister_connection iter cid w) = cells w"
proof -
  note ok = manager_okD [OF assms(1)]
  define w0 where "w0 = w\<lparr>connection_rooms := (connection_rooms w)(cid := None)\<rparr>"
  define rids where "rids = iter (rooms_of w cid)"
  define w1 where "w1 = fold (drop_member cid) rids w0"
  define w2 where "w2 = w1\<lparr>connections := (connections w1)(cid := None)\<rparr>"
  have rids: "set rids = rooms_of w cid"
    using assms(2) ok(6) by (simp add: rids_def iterates_def)
  have mem0: "members_of w0 = members_of w" by (intro ext members_of_cong) (simp_all add: w0_def)
  have "heap_ok w0" using ok(1) by (simp add: w0_def heap_ok_def)
  note f = drop_members [OF this, of cid rids, folded w1_def, unfolded Let_def mem0]
  have mem: "members_of w2 q = members_of w q - {cid}" for q
  proof -
    have "members_of w2 q = members_of w1 q" by (rule members_of_cong) (simp_all add: w2_def)
    then show ?thesis using f ok(3) rids by auto
  qed
  have heap: "heap_ok w2" using f by (simp add: w2_def heap_ok_def)
  have idx: "rooms_of w2 d = (if d = cid then {} else rooms_of w d)" for d
    using f by (simp add: w2_def rooms_of_def w0_def)
  have rms: "dom (rooms w2) = dom (rooms w) - {rid. cid \<in> members_of w rid \<and> members_of w rid \<subseteq> {cid}}"
    using f ok(3) rids by (auto simp: w2_def w0_def)
  have con: "connections w2 = (connections w) |` (- {cid})"
    using f by (auto simp: w2_def w0_def restrict_map_def fun_eq_iff)
  have dom: "dom (connection_rooms w2) = dom (connections w2)"
    using f ok(2) by (simp add: w2_def w0_def)
  have un: "unregister_connection iter cid w = w2"
    unfolding w2_def w1_def w0_def rids_def
      unregister_as_fold [OF assms, of cid] Let_def ..
  have "manager_ok w2"
  proof (rule manager_okI)
    show "rid \<in> rooms_of w2 d \<longleftrightarrow> d \<in> members_of w2 rid" for d rid
      using ok(3) by (auto simp: idx mem)
    show "finite (dom (rooms w2))" using ok(5) by (simp add: rms)
    show "finite (rooms_of w2 d)" for d using ok(6) by (simp add: idx)
  qed (use heap dom manager_ok_connections [OF assms(1) con] in auto)
  moreover have "cells w2 = cells w" using f by (simp add: w2_def w0_def)
  ultimately show ?thesis
    by (auto simp: un registry_of_def mem rms con alone_def)
qed

section \<open>Broadcasting touches only cells\<close>

lemma send_to_member_frame [simp]:
  "connections (snd (send_to_member rt m cid s)) = connections (snd s)"
  "rooms (snd (send_to_member rt m cid s)) = rooms (snd s)"
  "room_heap (snd (send_to_member rt m cid s)) = room_heap (snd s)"
  "next_room (snd (send_to_member rt m cid s)) = next_room (snd s)"
  "connection_rooms (snd (send_to_member rt m cid s)) = connection_rooms (snd s)"
  by (simp_all add: send_to_member_def send_counted_def case_prod_unfold Let_def split: option.split)

text \<open>One loop for the three broadcasts: the ids that are skipped are a parameter.\<close>

definition fan_out ::
  "('ch, 'nt) runtime \<Rightarrow> message \<Rightarrow> (string \<Rightarrow> bool) \<Rightarrow> string list
     \<Rightarrow> nat \<times> ('ch, 'nt, 'z) world_scheme \<Rightarrow> nat \<times> ('ch, 'nt, 'z) world_scheme" where
  "fan_out rt m skip ids s = fold (\<lambda>cid s. if skip cid then s else send_to_member rt m cid s) ids s"

lemma broadcast_to_room_fan_out:
  "broadcast_to_room rt iter rid m w =
     (case rooms w rid of
        None \<Rightarrow> (Inl (RoomNotFound rid), w)
      | Some ref \<Rightarrow>
          (let s = fan_out rt m (\<lambda>_. False) (iter (members (room_heap w ref))) (0, w)
           in (Inr (fst s), snd s)))"
  by (simp add: broadcast_to_room_def fan_out_def for_each_member_def case_prod_unfold Let_def
      split: option.split)

lemma if_negate: "(if \<not> P then x else y) = (if P then y else x)"
  by simp

lemma broadcast_to_room_except_fan_out:
  "broadcast_to_room_except rt iter rid m x w =
     (case rooms w rid of
        None \<Rightarrow> (Inl (RoomNotFound rid), w)
      | Some ref \<Rightarrow>
          (let s = fan_out rt m (\<lambda>cid. cid = x) (iter (members (room_heap w ref))) (0, w)
           in (Inr (fst s), snd s)))"
  by (simp add: broadcast_to_room_except_def fan_out_def for_each_member_def if_negate
      case_prod_unfold Let_def split: option.split)

lemma broadcast_all_fan_out:
  "broadcast_all rt iter m w = fan_out rt m (\<lambda>_. False) (iter (dom (connections w))) (0, w)"
  by (simp add: broadcast_all_def fan_out_def)

lemmas broadcast_fan_outs = broadcast_to_room_fan_out broadcast_to_room_except_fan_out
  broadcast_all_fan_out

lemma fan_out_frame [simp]:
  "connections (snd (fan_out rt m skip ids s)) = connections (snd s)"
  "rooms (snd (fan_out rt m skip ids s)) = rooms (snd s)"
  "room_heap (snd (fan_out rt m skip ids s)) = room_heap (snd s)"
  "next_room (snd (fan_out rt m skip ids s)) = next_room (snd s)"
  "connection_rooms (snd (fan_out rt m skip ids s)) = connection_rooms (snd s)"
  unfolding fan_out_def by (induction ids arbitrary: s) simp_all

lemma send_to_member_more [simp]:
  "world.more (snd (send_to_member rt m cid s)) = world.more (snd s)"
  by (simp add: send_to_member_def send_counted_def case_prod_unfold Let_def split: option.split)

lemma fan_out_more [simp]: "world.more (snd (fan_out rt m skip ids s)) = world.more (snd s)"
  unfolding fan_out_def by (induction ids arbitrary: s) simp_all

lemma manager_ok_frame:
  assumes "connections w' = connections w" "rooms w' = rooms w" "room_heap w' = room_heap w"
    "next_room w' = next_room w" "connection_rooms w' = connection_rooms w"
  shows "manager_ok w' = manager_ok w" "registry_of w' = registry_of w"
proof -
  have "members_of w' = members_of w" by (intro ext members_of_cong) (simp_all add: assms)
  moreover have "rooms_of w' = rooms_of w" by (intro ext) (simp add: rooms_of_def assms)
  ultimately show "manager_ok w' = manager_ok w" "registry_of w' = registry_of w"
    by (simp_all add: manager_ok_def heap_ok_def registry_of_def assms)
qed

lemma broadcast_frame:
  "manager_ok (snd (broadcast_to_room rt iter rid m w)) = manager_ok w"
  "registry_of (snd (broadcast_to_room rt iter rid m w)) = registry_of w"
  "manager_ok (snd (broadcast_to_room_except rt iter rid m x w)) = manager_ok w"
  "registry_of (snd (broadcast_to_room_except rt iter rid m x w)) = registry_of w"
  "manager_ok (snd (broadcast_all rt iter m w)) = manager_ok w"
  "registry_of (snd (broadcast_all rt iter m w)) = registry_of w"
  by (intro manager_ok_frame; simp add: broadcast_fan_outs Let_def split: option.split)+

section \<open>The manager as a machine that refines the registry\<close>

definition manager_permitted ::
  "iteration \<Rightarrow> manager_op \<Rightarrow> ('ch, 'nt, 'z) world_scheme \<Rightarrow> bool" where
  "manager_permitted iter op w \<longleftrightarrow> iterates iter \<and> manager_legal op w"

lemma manager_step_refines:
  assumes "manager_ok w" "manager_permitted iter op w"
  shows "manager_ok (manager_step rt iter op w) \<and>
    registry_of (manager_step rt iter op w) = registry_step op (registry_of w)"
  using assms
  by (cases op)
    (auto simp: manager_permitted_def broadcast_frame register_refines unregister_refines
      create_room_refines join_room_refines leave_room_refines delete_room_refines
      simp del: registry_step.simps(1-6) manager_legal.simps(1))

interpretation manager: refining_machine
  "manager_permitted iter" "manager_step rt iter" manager_ok registry_of registry_step
  for rt :: "('ch, 'nt) runtime" and iter
  by unfold_locales (simp_all add: manager_step_refines)

lemma manager_ok_new: "manager_ok (world_new cls)"
  by (simp add: manager_ok_def world_new_def heap_ok_def rooms_of_def members_of_def)

lemma registry_of_new: "registry_of (world_new cls) = \<lparr>reg = {}, live = {}, mem = {}\<rparr>"
  by (simp add: registry_of_def world_new_def members_of_def)

section \<open>What a broadcast delivers\<close>

text \<open>The address of a connection's cell, and the outcome of a send on it.\<close>

definition cell_of :: "('ch, 'nt, 'z) world_scheme \<Rightarrow> string \<Rightarrow> nat" where
  "cell_of w cid = conn_cell (the (connections w cid))"

definition delivers :: "('ch, 'nt) runtime \<Rightarrow> message \<Rightarrow> ('ch, 'nt, 'z) world_scheme \<Rightarrow> string \<Rightarrow> bool" where
  "delivers rt m w cid \<longleftrightarrow>
     is_ok (fst (cell_send rt m (cells w (cell_of w cid)) :: (unit, unit, unit, unit) ws_result \<times> _))"

definition after_send :: "('ch, 'nt) runtime \<Rightarrow> message \<Rightarrow> ('ch, 'nt) cell \<Rightarrow> ('ch, 'nt) cell" where
  "after_send rt m cl = snd (cell_send rt m cl :: (unit, unit, unit, unit) ws_result \<times> _)"

lemma send_to_member_Some:
  assumes "cid \<in> dom (connections w)"
  shows "send_to_member rt m cid (n, w) =
    (if delivers rt m w cid then n + 1 else n,
     w\<lparr>cells := (cells w)(cell_of w cid := after_send rt m (cells w (cell_of w cid)))\<rparr>)"
  using assms
  by (auto simp: send_to_member_def send_counted_def delivers_def after_send_def cell_of_def
      connection_send_def case_prod_unfold Let_def)

text \<open>The listed connections that are not skipped and are registered.\<close>

definition audience :: "('ch, 'nt, 'z) world_scheme \<Rightarrow> (string \<Rightarrow> bool) \<Rightarrow> string set \<Rightarrow> string set" where
  "audience w skip S = {cid \<in> S. \<not> skip cid \<and> cid \<in> dom (connections w)}"

text \<open>
  Sends to different connections do not interfere, so the loop has the effect of all the sends
  at once, whatever their order.
\<close>

lemma fan_out_spec:
  assumes "distinct ids" and "inj_on (cell_of w) (dom (connections w))"
  shows "fst (fan_out rt m skip ids (n, w)) =
      n + card {cid \<in> audience w skip (set ids). delivers rt m w cid} \<and>
    cells (snd (fan_out rt m skip ids (n, w))) =
      (\<lambda>i. if i \<in> cell_of w ` audience w skip (set ids)
           then after_send rt m (cells w i) else cells w i)"
  using assms unfolding audience_def
proof (induction ids arbitrary: n w)
  case Nil
  then show ?case by (simp add: fan_out_def)
next
  case (Cons cid ids)
  let ?A = "\<lambda>ids. {cid \<in> set ids. \<not> skip cid \<and> cid \<in> dom (connections w)}"
  show ?case
  proof (cases "\<not> skip cid \<and> cid \<in> dom (connections w)")
    case False
    then have same: "fan_out rt m skip (cid # ids) (n, w) = fan_out rt m skip ids (n, w)"
      by (auto simp: fan_out_def send_to_member_def domIff)
    have "?A (cid # ids) = ?A ids" using False by auto
    with Cons show ?thesis unfolding same by auto
  next
    case True
    define w1 where "w1 = w\<lparr>cells := (cells w)(cell_of w cid := after_send rt m (cells w (cell_of w cid)))\<rparr>"
    define n1 where "n1 = (if delivers rt m w cid then n + 1 else n)"
    have step: "fan_out rt m skip (cid # ids) (n, w) = fan_out rt m skip ids (n1, w1)"
      using True by (simp add: fan_out_def send_to_member_Some w1_def n1_def)
    have c1: "connections w1 = connections w" "cell_of w1 = cell_of w"
      by (simp_all add: w1_def cell_of_def fun_eq_iff)
    have ne: "cell_of w d \<noteq> cell_of w cid" if "d \<in> ?A ids" for d
      using that Cons.prems True by (auto dest: inj_onD)
    then have notin: "cell_of w cid \<notin> cell_of w ` ?A ids" by (metis (no_types, lifting) imageE)
    have del: "delivers rt m w1 d = delivers rt m w d" if "d \<in> ?A ids" for d
      using ne [OF that] by (simp add: delivers_def w1_def cell_of_def)
    have eqA: "?A (cid # ids) = insert cid (?A ids)" using True by auto
    have eqD: "{d \<in> ?A ids. delivers rt m w1 d} = {d \<in> ?A ids. delivers rt m w d}" using del by blast
    have insD: "{d \<in> insert cid (?A ids). delivers rt m w d} =
        (if delivers rt m w cid then insert cid {d \<in> ?A ids. delivers rt m w d}
         else {d \<in> ?A ids. delivers rt m w d})" by auto
    have IH: "fst (fan_out rt m skip ids (n1, w1)) = n1 + card {d \<in> ?A ids. delivers rt m w d}"
      "cells (snd (fan_out rt m skip ids (n1, w1))) =
        (\<lambda>i. if i \<in> cell_of w ` ?A ids then after_send rt m (cells w1 i) else cells w1 i)"
      using Cons.IH [of w1 n1] Cons.prems unfolding c1 eqD by simp_all
    have "fst (fan_out rt m skip ids (n1, w1)) = n + card {d \<in> insert cid (?A ids). delivers rt m w d}"
      using Cons.prems(1) unfolding IH insD by (simp add: n1_def)
    moreover have "cells (snd (fan_out rt m skip ids (n1, w1))) =
        (\<lambda>i. if i \<in> cell_of w ` insert cid (?A ids) then after_send rt m (cells w i) else cells w i)"
      unfolding IH using notin by (auto simp: w1_def fun_eq_iff)
    ultimately show ?thesis unfolding step eqA by blast
  qed
qed

section \<open>Rooms without members\<close>

text \<open>A room only \<open>create_room\<close> makes can be empty: without it every room has a member.\<close>

definition inhabited :: "registry \<Rightarrow> bool" where
  "inhabited g \<longleftrightarrow> (\<forall>rid \<in> live g. \<exists>cid. (cid, rid) \<in> mem g)"

fun creates_room :: "manager_op \<Rightarrow> bool" where
  "creates_room (CreateRoom _) = True"
| "creates_room _ = False"

lemma registry_step_inhabited:
  "inhabited g \<Longrightarrow> \<not> creates_room op \<Longrightarrow> inhabited (registry_step op g)"
  by (cases op; simp add: inhabited_def alone_def split: if_splits; blast)

lemma registry_run_inhabited:
  "inhabited g \<Longrightarrow> list_all (\<lambda>op. \<not> creates_room op) ops \<Longrightarrow> inhabited (run_ops registry_step ops g)"
  by (induction ops arbitrary: g) (simp_all add: registry_step_inhabited)

section \<open>A manager with two connections\<close>

text \<open>For the witnesses: iteration in the order of the ids, and a run over the FIFO runtime.\<close>

definition by_id :: iteration where
  "by_id = sorted_list_of_set"

lemma iterates_by_id: "iterates by_id"
  by (simp add: iterates_def by_id_def)

definition sample_handle :: "string \<Rightarrow> nat \<Rightarrow> connection" where
  "sample_handle cid ref =
     \<lparr>conn_id = cid, remote_addr = None, conn_principal = principal_anonymous, conn_cell = ref\<rparr>"

definition sample_manager_ops :: "manager_op list" where
  "sample_manager_ops =
     [Register (sample_handle ''a'' 0), Register (sample_handle ''b'' 1),
      Join ''a'' ''r'', Join ''b'' ''r'', Join ''a'' ''q'']"

definition sample_world :: "(fifo, bool) world" where
  "sample_world = run_ops (manager_step fifo_runtime by_id) sample_manager_ops (world_new sample_cells)"

lemma sample_legal:
  "legal_ops (manager_permitted by_id) (manager_step fifo_runtime by_id) sample_manager_ops
     (world_new sample_cells)"
  by (simp add: sample_manager_ops_def manager_permitted_def iterates_by_id register_connection_def
      sample_handle_def world_new_def)

lemma sample_world_ok: "manager_ok sample_world"
  unfolding sample_world_def by (rule manager.run_inv [OF manager_ok_new sample_legal])

lemma sample_world_registry:
  "registry_of sample_world =
     \<lparr>reg = {''a'', ''b''}, live = {''r'', ''q''},
      mem = {(''a'', ''r''), (''b'', ''r''), (''a'', ''q'')}\<rparr>"
  unfolding sample_world_def manager.abs_run [OF manager_ok_new sample_legal] registry_of_new
  by (simp add: sample_manager_ops_def sample_handle_def insert_commute)

lemma sample_world_views:
  "members_of sample_world ''r'' = {''a'', ''b''}" "members_of sample_world ''q'' = {''a''}"
  "dom (rooms sample_world) = {''r'', ''q''}" "dom (connections sample_world) = {''a'', ''b''}"
proof -
  have m: "(d, rid) \<in> mem (registry_of sample_world) \<longleftrightarrow> d \<in> members_of sample_world rid" for d rid
    by (simp add: registry_of_def)
  show "members_of sample_world ''r'' = {''a'', ''b''}" "members_of sample_world ''q'' = {''a''}"
    by (auto simp: m [symmetric] sample_world_registry)
  show "dom (rooms sample_world) = {''r'', ''q''}" "dom (connections sample_world) = {''a'', ''b''}"
    using sample_world_registry by (simp_all add: registry_of_def)
qed

section \<open>Properties\<close>

text \<open>
  C1. The room manager refines the registry: whatever sequence of registrations (each with a
  fresh id and handle), joins, leaves, room creations and deletions, unregistrations and
  broadcasts is run from an empty manager, its invariant holds (the index from connections to
  rooms is exactly the converse of the membership of the rooms, and only registered connections
  are members) and its rooms, members and connections are those of the abstract registry run
  through the same operations; the order in which the maps iterate does not matter.
\<close>

theorem manager_refines_registry:
  assumes "legal_ops (manager_permitted iter) (manager_step rt iter) ops (world_new cls)"
  shows "manager_ok (run_ops (manager_step rt iter) ops (world_new cls)) \<and>
    registry_of (run_ops (manager_step rt iter) ops (world_new cls)) =
      run_ops registry_step ops \<lparr>reg = {}, live = {}, mem = {}\<rparr>"
  using manager.run_inv [OF manager_ok_new assms] manager.abs_run [OF manager_ok_new assms]
  by (simp add: registry_of_new)

theorem manager_refines_registry_witness:
  "manager_ok (run_ops (manager_step fifo_runtime by_id) sample_manager_ops (world_new sample_cells)) \<and>
   mem (registry_of (run_ops (manager_step fifo_runtime by_id) sample_manager_ops (world_new sample_cells)))
     = {(''a'', ''r''), (''b'', ''r''), (''a'', ''q'')}"
  using manager_refines_registry [OF sample_legal] sample_world_registry
  by (simp add: sample_world_def)

text \<open>
  Without explicit \<open>create_room\<close> calls no room is ever left empty: leaving, unregistering and
  deleting remove a room with its last member, and every room has a registered member.
\<close>

theorem no_empty_rooms:
  assumes "legal_ops (manager_permitted iter) (manager_step rt iter) ops (world_new cls)"
    and "list_all (\<lambda>op. \<not> creates_room op) ops"
    and "rooms (run_ops (manager_step rt iter) ops (world_new cls)) rid = Some ref"
  shows "\<exists>cid. cid \<in> members_of (run_ops (manager_step rt iter) ops (world_new cls)) rid \<and>
    cid \<in> dom (connections (run_ops (manager_step rt iter) ops (world_new cls)))"
proof -
  let ?w = "run_ops (manager_step rt iter) ops (world_new cls)"
  have ok: "manager_ok ?w" using manager.run_inv [OF manager_ok_new assms(1)] .
  have "registry_of ?w = run_ops registry_step ops \<lparr>reg = {}, live = {}, mem = {}\<rparr>"
    using manager.abs_run [OF manager_ok_new assms(1)] by (simp add: registry_of_new)
  moreover have "inhabited (run_ops registry_step ops \<lparr>reg = {}, live = {}, mem = {}\<rparr>)"
    using assms(2) by (intro registry_run_inhabited) (simp_all add: inhabited_def)
  ultimately have "inhabited (registry_of ?w)" by simp
  then obtain cid where "cid \<in> members_of ?w rid"
    using assms(3) by (auto simp: inhabited_def registry_of_def)
  with members_registered(1) [OF ok, of rid] show ?thesis by blast
qed

theorem no_empty_rooms_witness: "\<exists>cid. cid \<in> members_of sample_world ''q''"
proof -
  obtain ref where "rooms sample_world ''q'' = Some ref" using sample_world_views(3) by blast
  then show ?thesis
    using no_empty_rooms [OF sample_legal, of "''q''" ref]
    by (auto simp: sample_world_def sample_manager_ops_def)
qed

text \<open>
  \<open>join_room\<close> succeeds exactly for a registered connection, and then changes nothing but
  that the room exists and has the connection as a member; otherwise it fails with
  \<open>ConnectionNotFound\<close> and changes nothing (no room is created).  \<open>leave_room\<close> always succeeds,
  and leaving right after joining a room with other members restores the membership.
\<close>

theorem join_leave_results:
  assumes "manager_ok w"
  shows "(let p = join_room cid rid w :: ('t, 'i, 's, unit) ws_result \<times> _ in
      if cid \<in> dom (connections w) then
        fst p = Inr () \<and> rid \<in> dom (rooms (snd p)) \<and> connections (snd p) = connections w \<and>
        (\<forall>q. members_of (snd p) q =
           (if q = rid then insert cid (members_of w rid) else members_of w q))
      else p = (Inl (ConnectionNotFound cid), w)) \<and>
    (let p = leave_room cid rid w :: ('t, 'i, 's, unit) ws_result \<times> _ in
      fst p = Inr () \<and> connections (snd p) = connections w \<and>
      (\<forall>q. members_of (snd p) q =
         (if q = rid then members_of w rid - {cid} else members_of w q)) \<and>
      rooms_of (snd p) cid = rooms_of w cid - {rid})"
proof -
  let ?j = "join_room cid rid w :: ('t, 'i, 's, unit) ws_result \<times> _"
  let ?l = "leave_room cid rid w :: ('t, 'i, 's, unit) ws_result \<times> _"
  note j = join_room_refines [OF assms, of cid rid, where ?'t = 't and ?'i = 'i and ?'s = 's]
  note l = leave_room_refines [OF assms, of cid rid, where ?'t = 't and ?'i = 'i and ?'s = 's]
  have jm: "members_of (snd ?j) q = (if q = rid then insert cid (members_of w rid) else members_of w q)"
    if "cid \<in> dom (connections w)" for q
    using j that by (auto simp: registry_of_def set_eq_iff)
  have jc: "connections (snd ?j) = connections w"
    by (simp add: join_room_def case_prod_unfold Let_def)
  have lc: "connections (snd ?l) = connections w" by (simp add: leave_room_def)
  have lm: "members_of (snd ?l) q = (if q = rid then members_of w rid - {cid} else members_of w q)" for q
    using l by (auto simp: registry_of_def set_eq_iff)
  have lr: "rooms_of (snd ?l) cid = rooms_of w cid - {rid}"
  proof (intro set_eqI)
    fix q
    have "q \<in> rooms_of (snd ?l) cid \<longleftrightarrow> cid \<in> members_of (snd ?l) q"
      using l by (intro manager_okD(3)) simp
    then show "q \<in> rooms_of (snd ?l) cid \<longleftrightarrow> q \<in> rooms_of w cid - {rid}"
      using manager_okD(3) [OF assms, of q cid] by (simp add: lm)
  qed
  have live: "rid \<in> dom (rooms (snd ?j))" if "cid \<in> dom (connections w)"
    using j that by (auto simp: registry_of_def)
  have miss: "?j = (Inl (ConnectionNotFound cid), w)" if "cid \<notin> dom (connections w)"
    using that by (simp add: join_room_def domIff)
  have res: "fst ?j = Inr ()" if "cid \<in> dom (connections w)" using j that by simp
  have "fst ?l = Inr ()" by (simp add: leave_room_def)
  with res miss live jm jc lc lm lr show ?thesis by (simp add: Let_def)
qed

theorem join_leave_results_witness:
  "members_of (snd (join_room ''b'' ''q'' sample_world :: (unit, unit, unit, unit) ws_result \<times> _)) ''q''
     = {''a'', ''b''} \<and>
   fst (join_room ''x'' ''q'' sample_world :: (unit, unit, unit, unit) ws_result \<times> _)
     = Inl (ConnectionNotFound ''x'')"
  using join_leave_results [OF sample_world_ok, of "''b''" "''q''", where ?'t = unit and ?'i = unit and ?'s = unit]
    join_leave_results [OF sample_world_ok, of "''x''" "''q''", where ?'t = unit and ?'i = unit and ?'s = unit]
  by (simp add: Let_def sample_world_views insert_commute)

text \<open>
  Unregistering cleans up completely: the connection is gone from the connections, from the
  index and from every room, the rooms it was the only member of are gone, and every other
  connection keeps its memberships.
\<close>

theorem unregister_cleans_up:
  assumes "manager_ok w" and "iterates iter"
  shows "let w' = unregister_connection iter cid w in
    connections w' cid = None \<and> connection_rooms w' cid = None \<and>
    (\<forall>rid. members_of w' rid = members_of w rid - {cid}) \<and>
    dom (rooms w') = dom (rooms w) - {rid. members_of w rid = {cid}} \<and>
    (\<forall>d. d \<noteq> cid \<longrightarrow> rooms_of w' d = rooms_of w d)"
proof -
  let ?w = "unregister_connection iter cid w"
  have ok: "manager_ok ?w" and reg: "registry_of ?w = registry_step (Unregister cid) (registry_of w)"
    using unregister_refines [OF assms, of cid] by auto
  have mem: "members_of ?w rid = members_of w rid - {cid}" for rid
    using reg by (auto simp: registry_of_def set_eq_iff)
  have gone: "connections ?w cid = None" using reg by (auto simp: registry_of_def)
  then have "connection_rooms ?w cid = None" using manager_okD(2) [OF ok] by (metis domIff)
  moreover have "dom (rooms ?w) = dom (rooms w) - {rid. members_of w rid = {cid}}"
  proof -
    have "dom (rooms ?w) =
        dom (rooms w) - {rid. (\<forall>d. d \<in> members_of w rid \<longrightarrow> d = cid) \<and> cid \<in> members_of w rid}"
      using arg_cong [OF reg, of live] by (simp add: registry_of_def alone_def)
    moreover have "((\<forall>d. d \<in> members_of w rid \<longrightarrow> d = cid) \<and> cid \<in> members_of w rid) =
        (members_of w rid = {cid})" for rid by blast
    ultimately show ?thesis by simp
  qed
  moreover have "rooms_of ?w d = rooms_of w d" if "d \<noteq> cid" for d
  proof (intro set_eqI)
    fix q
    show "q \<in> rooms_of ?w d \<longleftrightarrow> q \<in> rooms_of w d"
      unfolding manager_okD(3) [OF ok] manager_okD(3) [OF assms(1)] mem using that by simp
  qed
  ultimately show ?thesis using gone mem by (simp add: Let_def)
qed

theorem unregister_cleans_up_witness:
  "members_of (unregister_connection by_id ''a'' sample_world) ''r'' = {''b''} \<and>
   dom (rooms (unregister_connection by_id ''a'' sample_world)) = {''r''}"
proof -
  have "{''r'', ''q''} - {rid. members_of sample_world rid = {''a''}} = {''r''}"
    by (simp add: insert_Diff_if sample_world_views doubleton_eq_iff)
  then show ?thesis
    using unregister_cleans_up [OF sample_world_ok iterates_by_id, of "''a''"]
    by (simp add: Let_def sample_world_views)
qed

text \<open>
  C17. A broadcast to a room is, for any iteration order, one send to each member that is
  registered and not excepted, all taking effect as if done at once; it returns the number of
  those whose send succeeded, leaves every other connection alone, and only fails, with
  \<open>RoomNotFound\<close>, when the room does not exist.
\<close>

theorem broadcast_delivery:
  assumes "manager_ok w" and "iterates iter"
  shows "let p = broadcast_to_room_except rt iter rid m x w :: ('t, 'i, 's, nat) ws_result \<times> _;
      A = {cid \<in> members_of w rid. cid \<noteq> x}
    in if rid \<in> dom (rooms w) then
         fst p = Inr (card {cid \<in> A. delivers rt m w cid}) \<and>
         snd p = w\<lparr>cells := (\<lambda>i. if i \<in> cell_of w ` A then after_send rt m (cells w i) else cells w i)\<rparr>
       else p = (Inl (RoomNotFound rid), w)"
proof (cases "rooms w rid")
  case None
  then show ?thesis by (auto simp: broadcast_to_room_except_def Let_def)
next
  case (Some ref)
  let ?S = "members (room_heap w ref)"
  have S: "?S = members_of w rid" by (simp add: members_of_def Some)
  have ids: "distinct (iter ?S)" "set (iter ?S) = members_of w rid"
    using assms(2) members_registered(2) [OF assms(1), of rid] by (simp_all add: iterates_def S)
  have inj: "inj_on (cell_of w) (dom (connections w))"
    using assms(1) by (simp add: manager_ok_def cell_of_def [abs_def])
  have A: "audience w (\<lambda>cid. cid = x) (members_of w rid) = {cid \<in> members_of w rid. cid \<noteq> x}"
    using members_registered(1) [OF assms(1), of rid] by (auto simp: audience_def)
  let ?s = "fan_out rt m (\<lambda>cid. cid = x) (iter ?S) (0, w)"
  note spec = fan_out_spec [OF ids(1) inj, of rt m "\<lambda>cid. cid = x" 0, unfolded ids(2) A]
  have "snd ?s = w\<lparr>cells := cells (snd ?s)\<rparr>"
    by (intro world.equality) (simp_all add: fan_out_more)
  with spec show ?thesis
    using Some by (auto simp: broadcast_to_room_except_fan_out Let_def)
qed

lemma membership_cells [simp]:
  "cells (register_connection c w) = cells w"
  "cells (snd (join_room cid rid w :: ('t, 'i, 's, unit) ws_result \<times> _)) = cells w"
  "cells (snd (leave_room cid rid w :: ('t, 'i, 's, unit) ws_result \<times> _)) = cells w"
  by (simp_all add: register_connection_def join_room_def leave_room_def case_prod_unfold Let_def)

lemma sample_world_cells: "cells sample_world = sample_cells"
  by (simp add: sample_world_def sample_manager_ops_def) (simp add: world_new_def)

theorem broadcast_delivery_witness:
  "fst (broadcast_to_room_except fifo_runtime by_id ''r'' (ping_msg []) ''a'' sample_world
     :: (unit, unit, unit, nat) ws_result \<times> _) = Inr 1"
proof -
  have "{cid \<in> {''a'', ''b''}. cid \<noteq> ''a''} = {''b''}" by auto
  moreover have "delivers fifo_runtime (ping_msg []) sample_world ''b''"
    by (simp add: delivers_def sample_world_cells sample_cells_def cell_send_ok_iff cell_new_def fifo_defs)
  then have "{cid. cid = ''b'' \<and> delivers fifo_runtime (ping_msg []) sample_world cid} = {''b''}" by auto
  ultimately show ?thesis
    using broadcast_delivery [OF sample_world_ok iterates_by_id, of fifo_runtime "''r''" "ping_msg []" "''a''",
        where ?'t = unit and ?'i = unit and ?'s = unit]
    by (simp add: Let_def sample_world_views)
qed

text \<open>
  \<open>broadcast_to_room\<close> is the excepting broadcast that excepts nobody, and \<open>broadcast_all\<close>
  sends once to every registered connection, whatever rooms it is in, and counts the sends
  that succeeded; both change nothing but the queues they send on.
\<close>

theorem broadcast_room_and_all:
  assumes "manager_ok w" and "iterates iter" and "x \<notin> members_of w rid"
  shows "(broadcast_to_room rt iter rid m w :: ('t, 'i, 's, nat) ws_result \<times> _) =
      broadcast_to_room_except rt iter rid m x w \<and>
    broadcast_all rt iter m w =
      (card {cid \<in> dom (connections w). delivers rt m w cid},
       w\<lparr>cells := (\<lambda>i. if i \<in> cell_of w ` dom (connections w)
                   then after_send rt m (cells w i) else cells w i)\<rparr>)"
proof (rule conjI)
  have inj: "inj_on (cell_of w) (dom (connections w))"
    using assms(1) by (simp add: manager_ok_def cell_of_def [abs_def])
  have ids: "distinct (iter (dom (connections w)))" "set (iter (dom (connections w))) = dom (connections w)"
    using assms(2) manager_okD(4) [OF assms(1)] by (simp_all add: iterates_def)
  have A: "audience w (\<lambda>_. False) (dom (connections w)) = dom (connections w)"
    by (auto simp: audience_def)
  let ?s = "fan_out rt m (\<lambda>_. False) (iter (dom (connections w))) (0, w)"
  note spec = fan_out_spec [OF ids(1) inj, of rt m "\<lambda>_. False" 0, unfolded ids(2) A]
  have "snd ?s = w\<lparr>cells := cells (snd ?s)\<rparr>"
    by (intro world.equality) (simp_all add: fan_out_more)
  with spec show "broadcast_all rt iter m w =
      (card {cid \<in> dom (connections w). delivers rt m w cid},
       w\<lparr>cells := (\<lambda>i. if i \<in> cell_of w ` dom (connections w)
                   then after_send rt m (cells w i) else cells w i)\<rparr>)"
    by (simp add: broadcast_all_fan_out prod_eq_iff)
next
  show "(broadcast_to_room rt iter rid m w :: ('t, 'i, 's, nat) ws_result \<times> _) =
      broadcast_to_room_except rt iter rid m x w"
  proof (cases "rooms w rid")
    case None
    then show ?thesis by (simp add: broadcast_to_room_def broadcast_to_room_except_def)
  next
    case (Some ref)
    let ?ids = "iter (members (room_heap w ref))"
    have "set ?ids = members_of w rid"
      using assms(2) members_registered(2) [OF assms(1), of rid] by (simp add: iterates_def members_of_def Some)
    then have "fan_out rt m (\<lambda>cid. cid = x) ?ids (0, w) = fan_out rt m (\<lambda>_. False) ?ids (0, w)"
      unfolding fan_out_def using assms(3) by (intro fold_cong) auto
    then show ?thesis
      by (simp add: broadcast_to_room_fan_out broadcast_to_room_except_fan_out Some)
  qed
qed

theorem broadcast_room_and_all_witness:
  "fst (broadcast_all fifo_runtime by_id (ping_msg []) sample_world) = 2"
proof -
  have "delivers fifo_runtime (ping_msg []) sample_world cid" if "cid \<in> {''a'', ''b''}" for cid
    by (simp add: delivers_def sample_world_cells sample_cells_def cell_send_ok_iff cell_new_def fifo_defs)
  then have "{cid \<in> {''a'', ''b''}. delivers fifo_runtime (ping_msg []) sample_world cid} = {''a'', ''b''}"
    by blast
  then show ?thesis
    using broadcast_room_and_all [THEN conjunct2, OF sample_world_ok iterates_by_id,
        of "''x''" "''r''" fifo_runtime "ping_msg []"]
    by (simp add: sample_world_views card_insert_if)
qed

text \<open>
  The manager relies on ids being fresh: registering an id that is already in a room resets
  its index, and unregistering it afterwards leaves it as a member of that room, which then
  stays in the manager although its last connection is gone.
\<close>

theorem reregister_leaves_ghost:
  assumes "manager_ok w" and "iterates iter" and "rid \<in> rooms_of w (conn_id c)"
  shows "let w' = unregister_connection iter (conn_id c) (register_connection c w) in
    connections w' (conn_id c) = None \<and> connection_rooms w' (conn_id c) = None \<and>
    conn_id c \<in> members_of w' rid \<and> rid \<in> dom (rooms w')"
proof -
  let ?w = "unregister_connection iter (conn_id c) (register_connection c w)"
  have "iter {} = []"
    using assms(2) unfolding iterates_def by (metis finite.emptyI set_empty)
  then have w: "rooms ?w = rooms w" "room_heap ?w = room_heap w"
    "connections ?w (conn_id c) = None" "connection_rooms ?w (conn_id c) = None"
    by (simp_all add: unregister_connection_def register_connection_def Let_def)
  have "conn_id c \<in> members_of w rid" using assms manager_okD(3) by blast
  moreover have "members_of ?w rid = members_of w rid" by (intro members_of_cong) (simp_all add: w)
  moreover have "rid \<in> dom (rooms w)"
    using calculation(1) by (auto simp: members_of_def split: option.splits)
  ultimately show ?thesis by (simp add: w Let_def)
qed

theorem reregister_leaves_ghost_witness:
  "''a'' \<in> members_of (unregister_connection by_id ''a''
      (register_connection (sample_handle ''a'' 5) sample_world)) ''q''"
proof -
  have "''q'' \<in> rooms_of sample_world (conn_id (sample_handle ''a'' 5))"
    using manager_okD(3) [OF sample_world_ok, of "''q''" "''a''"]
    by (simp add: sample_world_views sample_handle_def)
  from reregister_leaves_ghost [OF sample_world_ok iterates_by_id this] show ?thesis
    by (simp add: Let_def sample_handle_def)
qed

end
