(* ===== verification/Ws_Races.thy ===== *)
theory Ws_Races imports Ws_Registry "HOL-Library.Multiset" begin

text \<open>
  The operations of the room manager under concurrency.  Each access to a \<open>DashMap\<close> is atomic
  (it holds the lock of its shard), but \<open>register_connection\<close>, \<open>join_room\<close>, \<open>leave_room\<close>,
  \<open>delete_room\<close> and \<open>unregister_connection\<close> make several; a thread is what is left of one of them,
  and \<open>interleave\<close> lets any thread take its next access.
\<close>

section \<open>Operations as threads\<close>

datatype thread =
    RegConnection connection
  | RegIndex string
  | CreateOnly string
  | DeleteTake string
  | DeleteMembers string nat
  | DeleteIndex string string "string list"
  | JoinCheck string string
  | JoinCreate string string
  | JoinMember string string nat
  | JoinIndex string string
  | LeaveMember string string
  | LeaveIndex string string
  | LeaveRemove string string
  | UnregTake string
  | UnregLeave string string "string list"
  | UnregRemove string string "string list"
  | UnregConnection string
  | Finished bool

fun unreg_next :: "string \<Rightarrow> string list \<Rightarrow> thread" where
  "unreg_next cid [] = UnregConnection cid"
| "unreg_next cid (rid # rids) = UnregLeave cid rid rids"

fun delete_next :: "string \<Rightarrow> string list \<Rightarrow> thread" where
  "delete_next rid [] = Finished True"
| "delete_next rid (mid # mids) = DeleteIndex rid mid mids"

fun thread_step ::
  "iteration \<Rightarrow> thread \<Rightarrow> ('ch, 'nt, 'z) world_scheme \<Rightarrow> thread \<times> ('ch, 'nt, 'z) world_scheme" where
  "thread_step iter (RegConnection c) w =
     (RegIndex (conn_id c), w\<lparr>connections := (connections w)(conn_id c \<mapsto> c)\<rparr>)"
| "thread_step iter (RegIndex cid) w =
     (Finished True, w\<lparr>connection_rooms := (connection_rooms w)(cid \<mapsto> {})\<rparr>)"
| "thread_step iter (CreateOnly rid) w = (Finished True, snd (create_room rid w))"
| "thread_step iter (DeleteTake rid) w =
     (case rooms w rid of
        None \<Rightarrow> (Finished False, w)
      | Some ref \<Rightarrow> (DeleteMembers rid ref, w\<lparr>rooms := (rooms w)(rid := None)\<rparr>))"
| "thread_step iter (DeleteMembers rid ref) w =
     (delete_next rid (room_members iter (room_heap w ref)), w)"
| "thread_step iter (DeleteIndex rid mid mids) w =
     (delete_next rid mids, update_index mid (\<lambda>S. S - {rid}) w)"
| "thread_step iter (JoinCheck cid rid) w =
     (if connections w cid = None then Finished False else JoinCreate cid rid, w)"
| "thread_step iter (JoinCreate cid rid) w =
     (let (ref, w1) = create_room rid w in (JoinMember cid rid ref, w1))"
| "thread_step iter (JoinMember cid rid ref) w = (JoinIndex cid rid, update_room ref (room_join cid) w)"
| "thread_step iter (JoinIndex cid rid) w = (Finished True, update_index cid (insert rid) w)"
| "thread_step iter (LeaveMember cid rid) w = (LeaveIndex cid rid, leave_if_present cid rid w)"
| "thread_step iter (LeaveIndex cid rid) w =
     (LeaveRemove cid rid, update_index cid (\<lambda>S. S - {rid}) w)"
| "thread_step iter (LeaveRemove cid rid) w = (Finished True, remove_room_if_empty rid w)"
| "thread_step iter (UnregTake cid) w =
     (case connection_rooms w cid of
        None \<Rightarrow> (UnregConnection cid, w)
      | Some S \<Rightarrow>
          (unreg_next cid (iter S),
           w\<lparr>connection_rooms := (connection_rooms w)(cid := None)\<rparr>))"
| "thread_step iter (UnregLeave cid rid rids) w = (UnregRemove cid rid rids, leave_if_present cid rid w)"
| "thread_step iter (UnregRemove cid rid rids) w = (unreg_next cid rids, remove_room_if_empty rid w)"
| "thread_step iter (UnregConnection cid) w =
     (Finished True, w\<lparr>connections := (connections w)(cid := None)\<rparr>)"
| "thread_step iter (Finished b) w = (Finished b, w)"

fun is_finished :: "thread \<Rightarrow> bool" where
  "is_finished (Finished _) = True"
| "is_finished _ = False"

text \<open>A thread on its own.\<close>

fun thread_fuel :: "thread \<Rightarrow> nat" where
  "thread_fuel (RegConnection _) = 2"
| "thread_fuel (RegIndex _) = 1"
| "thread_fuel (CreateOnly _) = 1"
| "thread_fuel (DeleteTake _) = 1"
| "thread_fuel (DeleteMembers _ _) = 0"
| "thread_fuel (DeleteIndex _ _ mids) = length mids + 1"
| "thread_fuel (JoinCheck _ _) = 4"
| "thread_fuel (JoinCreate _ _) = 3"
| "thread_fuel (JoinMember _ _ _) = 2"
| "thread_fuel (JoinIndex _ _) = 1"
| "thread_fuel (LeaveMember _ _) = 3"
| "thread_fuel (LeaveIndex _ _) = 2"
| "thread_fuel (LeaveRemove _ _) = 1"
| "thread_fuel (UnregTake _) = 0"
| "thread_fuel (UnregLeave _ _ rids) = 2 * length rids + 3"
| "thread_fuel (UnregRemove _ _ rids) = 2 * length rids + 2"
| "thread_fuel (UnregConnection _) = 1"
| "thread_fuel (Finished _) = 0"

fun takes_index :: "thread \<Rightarrow> nat" where
  "takes_index (UnregTake _) = 1"
| "takes_index (DeleteTake _) = 1"
| "takes_index (DeleteMembers _ _) = 1"
| "takes_index _ = 0"

lemma unreg_next_simps [simp]:
  "takes_index (unreg_next cid rids) = 0" "thread_fuel (unreg_next cid rids) = 2 * length rids + 1"
  by (cases rids; simp)+

lemma delete_next_simps [simp]:
  "takes_index (delete_next rid mids) = 0" "thread_fuel (delete_next rid mids) = length mids"
  by (cases mids; simp)+

lemma thread_step_decreases:
  assumes "\<not> is_finished t" and "thread_step iter t w = (t', w')"
  shows "takes_index t' < takes_index t \<or> takes_index t' = takes_index t \<and> thread_fuel t' < thread_fuel t"
  using assms by (cases t) (auto simp: case_prod_unfold Let_def split: option.splits if_splits)

function run_alone ::
  "iteration \<Rightarrow> thread \<Rightarrow> ('ch, 'nt, 'z) world_scheme \<Rightarrow> bool \<times> ('ch, 'nt, 'z) world_scheme" where
  "run_alone iter t w =
     (case t of
        Finished b \<Rightarrow> (b, w)
      | _ \<Rightarrow> run_alone iter (fst (thread_step iter t w)) (snd (thread_step iter t w)))"
  by pat_completeness auto
termination
proof (relation "measures [\<lambda>(iter, t, w). takes_index t, \<lambda>(iter, t, w). thread_fuel t]")
  show "wf (measures [\<lambda>(iter, t, w). takes_index t, \<lambda>(iter, t, w). thread_fuel t])" by simp
qed (auto simp: case_prod_unfold Let_def split: option.splits if_splits)

declare run_alone.simps [simp del]

lemma run_alone_step:
  "\<not> is_finished t \<Longrightarrow> run_alone iter t w =
     run_alone iter (fst (thread_step iter t w)) (snd (thread_step iter t w))"
  by (subst run_alone.simps) (cases t; simp)

lemma run_alone_Finished [simp]: "run_alone iter (Finished b) w = (b, w)"
  by (subst run_alone.simps) simp

lemma run_alone_unreg:
  "run_alone iter (unreg_next cid rids) w =
     (True, (let w1 = fold (drop_member cid) rids w in w1\<lparr>connections := (connections w1)(cid := None)\<rparr>))"
proof (induction rids arbitrary: w)
  case Nil
  show ?case by (simp add: run_alone_step Let_def fun_upd_def)
next
  case (Cons rid rids)
  then show ?case by (simp add: run_alone_step)
qed

lemma run_alone_delete:
  "run_alone iter (delete_next rid mids) w =
     (True, fold (\<lambda>mid. update_index mid (\<lambda>S. S - {rid})) mids w)"
  by (induction mids arbitrary: w) (simp_all add: run_alone_step)

section \<open>What every interleaving keeps\<close>

text \<open>A joining thread holds an allocated room with the id it joins.\<close>

fun ref_ok :: "('ch, 'nt, 'z) world_scheme \<Rightarrow> thread \<Rightarrow> bool" where
  "ref_ok w (JoinMember cid rid ref) = (ref < next_room w \<and> room_id (room_heap w ref) = rid)"
| "ref_ok w _ = True"

lemma ref_ok_next [simp]: "ref_ok w (delete_next rid mids)" "ref_ok w (unreg_next cid rids)"
  by (cases mids; simp) (cases rids; simp)

definition heap_growing :: "('ch, 'nt, 'z) world_scheme \<Rightarrow> ('ch, 'nt, 'z) world_scheme \<Rightarrow> bool" where
  "heap_growing w w' \<longleftrightarrow> next_room w \<le> next_room w' \<and>
     (\<forall>ref < next_room w. room_id (room_heap w' ref) = room_id (room_heap w ref))"

lemma ref_ok_growing: "ref_ok w t \<Longrightarrow> heap_growing w w' \<Longrightarrow> ref_ok w' t"
  by (cases t) (auto simp: heap_growing_def)

lemma heap_ok_index [simp]:
  "heap_ok (w\<lparr>connections := x\<rparr>) = heap_ok w" "heap_ok (w\<lparr>connection_rooms := y\<rparr>) = heap_ok w"
  by (simp_all add: heap_ok_def)

lemma members_of_conn_update [simp]:
  "members_of (w\<lparr>connections := x\<rparr>) = members_of w" "members_of (w\<lparr>connection_rooms := y\<rparr>) = members_of w"
  by (intro ext members_of_cong; simp)+

lemma rooms_of_conn_update [simp]: "rooms_of (w\<lparr>connections := x\<rparr>) = rooms_of w"
  by (simp add: rooms_of_def fun_eq_iff)

lemma leave_room_id [simp]:
  "room_id (room_heap (leave_if_present cid rid w) ref) = room_id (room_heap w ref)"
  by (simp add: leave_if_present_def room_leave_def split: option.split)

lemma thread_step_heap:
  assumes "heap_ok w" "ref_ok w t" "thread_step iter t w = (t', w')"
  shows "heap_ok w' \<and> heap_growing w w' \<and> ref_ok w' t'"
proof (cases t)
  case (CreateOnly rid)
  moreover from this have "heap_ok w'"
    using assms create_room_spec(1) [OF assms(1), of rid] by simp
  ultimately show ?thesis using assms
    by (auto simp: create_room_def heap_ok_def heap_growing_def room_new_def Let_def
        split: option.splits)
next
  case (DeleteTake rid)
  then show ?thesis using assms
    by (auto simp: heap_ok_def heap_growing_def split: option.splits if_splits)
next
  case (JoinCreate cid rid)
  moreover from this have "heap_ok w'"
    using assms create_room_spec(1) [OF assms(1), of rid] by (simp add: case_prod_unfold Let_def)
  ultimately show ?thesis using assms
    by (auto simp: create_room_def heap_ok_def heap_growing_def room_new_def Let_def
        split: option.splits)
next
  case (JoinMember cid rid ref)
  then show ?thesis using assms
    by (auto simp: heap_ok_def heap_growing_def room_join_def)
next
  case (UnregTake cid)
  then show ?thesis using assms
    by (cases "iter (the (connection_rooms w cid))")
      (auto simp: heap_ok_def heap_growing_def split: option.splits)
next
  case (UnregRemove cid rid rids)
  then show ?thesis using assms
    by (cases rids) (auto simp: heap_growing_def)
qed (use assms in \<open>auto simp: heap_growing_def split: if_splits\<close>)

text \<open>A step takes a room out of the manager only if nobody is in it, unless it deletes the room.\<close>

lemma thread_step_removes_empty:
  assumes "thread_step iter t w = (t', w')" "rid \<in> dom (rooms w)" "rid \<notin> dom (rooms w')"
  shows "members_of w rid = {} \<or> t = DeleteTake rid"
proof -
  have "rid \<in> dom (rooms w) \<Longrightarrow> rid \<in> dom (rooms (snd (create_room q w)))" for q
    by (auto simp: create_room_def split: option.split)
  moreover have "members_of w rid = {}" if "rid \<notin> dom (rooms (remove_room_if_empty q w))" for q
    using that assms(2) by (auto simp: remove_room_if_empty_def members_of_def room_is_empty_def
        split: option.splits if_splits)
  ultimately show ?thesis
    using assms by (cases t) (auto simp: case_prod_unfold Let_def split: option.splits if_splits)
qed

section \<open>Concurrent joins\<close>

text \<open>
  How far a thread has got with the job of joining \<open>cid\<close> to \<open>rid\<close>; \<open>known\<close> are the registered
  connections.
\<close>

fun join_progress ::
  "string set \<Rightarrow> string \<times> string \<Rightarrow> thread \<Rightarrow> ('ch, 'nt, 'z) world_scheme \<Rightarrow> bool" where
  "join_progress known (cid, rid) (JoinCheck c r) w = (c = cid \<and> r = rid)"
| "join_progress known (cid, rid) (JoinCreate c r) w = (c = cid \<and> r = rid \<and> cid \<in> known)"
| "join_progress known (cid, rid) (JoinMember c r ref) w =
     (c = cid \<and> r = rid \<and> cid \<in> known \<and> rooms w rid = Some ref)"
| "join_progress known (cid, rid) (JoinIndex c r) w =
     (c = cid \<and> r = rid \<and> cid \<in> known \<and> cid \<in> members_of w rid)"
| "join_progress known (cid, rid) (Finished b) w =
     ((b \<longleftrightarrow> cid \<in> known) \<and> (b \<longrightarrow> cid \<in> members_of w rid \<and> rid \<in> rooms_of w cid))"
| "join_progress known job _ w = False"

text \<open>Joins only add: rooms, members and index entries.\<close>

definition joined_more :: "('ch, 'nt, 'z) world_scheme \<Rightarrow> ('ch, 'nt, 'z) world_scheme \<Rightarrow> bool" where
  "joined_more w w' \<longleftrightarrow>
     rooms w \<subseteq>\<^sub>m rooms w' \<and> (\<forall>q. members_of w q \<subseteq> members_of w' q) \<and>
     (\<forall>c. rooms_of w c \<subseteq> rooms_of w' c)"

lemma map_leD: "m a = Some b \<Longrightarrow> m \<subseteq>\<^sub>m m' \<Longrightarrow> m' a = Some b"
  by (metis domI map_le_def)

lemma join_progress_mono:
  "join_progress known job t w \<Longrightarrow> joined_more w w' \<Longrightarrow> join_progress known job t w'"
  by (cases job; cases t) (auto simp: joined_more_def dest: map_leD)

text \<open>The jobs of registered connections, and what may have changed while they run.\<close>

definition admitted :: "('ch, 'nt, 'z) world_scheme \<Rightarrow> (string \<times> string) list \<Rightarrow> (string \<times> string) set" where
  "admitted w jobs = {(cid, rid) \<in> set jobs. cid \<in> dom (connections w)}"

definition joining_world ::
  "('ch, 'nt, 'z) world_scheme \<Rightarrow> (string \<times> string) set \<Rightarrow> ('ch, 'nt, 'z) world_scheme \<Rightarrow> bool" where
  "joining_world w0 A w \<longleftrightarrow>
     heap_ok w \<and> connections w = connections w0 \<and>
     dom (connection_rooms w) = dom (connection_rooms w0) \<and> joined_more w0 w \<and>
     (\<forall>cid q. cid \<in> members_of w q \<longrightarrow> cid \<in> members_of w0 q \<or> (cid, q) \<in> A) \<and>
     dom (rooms w) \<subseteq> dom (rooms w0) \<union> snd ` A \<and>
     (\<forall>cid q. q \<in> rooms_of w cid \<longrightarrow> cid \<in> members_of w q) \<and>
     (\<forall>cid. finite (rooms_of w cid))"

definition joining ::
  "('ch, 'nt, 'z) world_scheme \<Rightarrow> (string \<times> string) list \<Rightarrow> thread list
     \<Rightarrow> ('ch, 'nt, 'z) world_scheme \<Rightarrow> bool" where
  "joining w0 jobs ts w \<longleftrightarrow>
     joining_world w0 (admitted w0 jobs) w \<and> length ts = length jobs \<and>
     (\<forall>i < length jobs. join_progress (dom (connections w0)) (jobs ! i) (ts ! i) w)"

lemma joined_more_refl [simp]: "joined_more w w"
  by (simp add: joined_more_def)

lemma joined_more_trans: "joined_more u v \<Longrightarrow> joined_more v w \<Longrightarrow> joined_more u w"
  unfolding joined_more_def by (meson map_le_trans subset_trans)

text \<open>One access of a joining thread.\<close>

lemma join_step:
  assumes "heap_ok w" "dom (connection_rooms w) = dom (connections w)"
    "join_progress (dom (connections w)) (cid, rid) t w" "thread_step iter t w = (t', w')"
  shows "heap_ok w' \<and> connections w' = connections w \<and>
    dom (connection_rooms w') = dom (connection_rooms w) \<and> joined_more w w' \<and>
    join_progress (dom (connections w)) (cid, rid) t' w' \<and>
    (\<forall>c q. c \<in> members_of w' q \<longrightarrow> c \<in> members_of w q \<or> c = cid \<and> q = rid \<and> cid \<in> dom (connections w)) \<and>
    dom (rooms w') \<subseteq> dom (rooms w) \<union> (if cid \<in> dom (connections w) then {rid} else {}) \<and>
    (\<forall>c q. q \<in> rooms_of w' c \<longrightarrow> q \<in> rooms_of w c \<or> c = cid \<and> q = rid \<and> cid \<in> members_of w rid)"
proof (cases t)
  case (JoinCheck c r)
  then show ?thesis using assms by (auto simp: domIff)
next
  case (JoinCreate c r)
  note spec = create_room_spec [OF assms(1), of rid]
  have "rooms w \<subseteq>\<^sub>m rooms (snd (create_room rid w))"
    by (auto simp: create_room_def map_le_def split: option.split)
  then show ?thesis using assms(3,4) JoinCreate spec
    by (auto simp: joined_more_def case_prod_unfold Let_def)
next
  case (JoinMember c r ref)
  have m: "members_of (update_room ref (room_join cid) w) q =
      (if q = rid then insert cid (members_of w rid) else members_of w q)" for q
    using members_of_update_room [OF assms(1), of rid ref "room_join cid" q] assms(3) JoinMember
    by (auto simp: room_join_def members_of_def)
  have "heap_ok (update_room ref (room_join cid) w)"
    using assms(1) by (rule heap_ok_update_room) (simp add: room_join_def)
  then show ?thesis using assms(3,4) JoinMember
    by (auto simp: joined_more_def m split: if_splits)
next
  case (JoinIndex c r)
  then have "cid \<in> dom (connection_rooms w)" using assms(2,3) by simp
  then have ix: "rooms_of (update_index cid (insert rid) w) d =
      (if d = cid then insert rid (rooms_of w cid) else rooms_of w d)" for d
    by (simp add: rooms_of_update_index)
  have w': "w' = update_index cid (insert rid) w" "t' = Finished True" "cid \<in> members_of w rid"
    "cid \<in> dom (connections w)" using assms(3,4) JoinIndex by auto
  have "joined_more w w'" by (auto simp: joined_more_def w' ix)
  moreover have "q \<in> rooms_of w' c \<longrightarrow> q \<in> rooms_of w c \<or> c = cid \<and> q = rid \<and> cid \<in> members_of w rid" for c q
    using w' by (simp add: ix)
  moreover have "join_progress (dom (connections w)) (cid, rid) t' w'" using w' by (simp add: ix)
  ultimately show ?thesis using assms(1) by (simp add: w' subset_insertI)
next
  case (Finished b)
  then show ?thesis using assms by auto
qed (use assms in simp_all)

lemma joining_world_step:
  assumes J: "joining_world w0 A w" and "dom (connection_rooms w0) = dom (connections w0)"
    and prog: "join_progress (dom (connections w)) (cid, rid) t w" and step: "thread_step iter t w = (t', w')"
    and adm: "cid \<in> dom (connections w0) \<Longrightarrow> (cid, rid) \<in> A"
  shows "joining_world w0 A w' \<and> joined_more w w' \<and> join_progress (dom (connections w0)) (cid, rid) t' w'"
proof -
  note J = J [unfolded joining_world_def]
  have con: "connections w = connections w0" using J by blast
  have "dom (connection_rooms w) = dom (connections w)" using J assms(2) by simp
  with J have S: "heap_ok w'" "connections w' = connections w"
    "dom (connection_rooms w') = dom (connection_rooms w)" "joined_more w w'"
    "join_progress (dom (connections w)) (cid, rid) t' w'"
    "\<And>c q. c \<in> members_of w' q \<Longrightarrow> c \<in> members_of w q \<or> c = cid \<and> q = rid \<and> cid \<in> dom (connections w)"
    "dom (rooms w') \<subseteq> dom (rooms w) \<union> (if cid \<in> dom (connections w) then {rid} else {})"
    "\<And>c q. q \<in> rooms_of w' c \<Longrightarrow> q \<in> rooms_of w c \<or> c = cid \<and> q = rid \<and> cid \<in> members_of w rid"
    using join_step [OF _ _ prog step] by blast+
  have "joining_world w0 A w'"
    unfolding joining_world_def
  proof (intro conjI allI impI)
    show "joined_more w0 w'" using J S(4) joined_more_trans by blast
    show "c \<in> members_of w0 q \<or> (c, q) \<in> A" if "c \<in> members_of w' q" for c q
      using S(6) [OF that] J adm by (auto simp: con)
    have "(if cid \<in> dom (connections w) then {rid} else {}) \<subseteq> snd ` A"
      using adm image_eqI [of rid snd "(cid, rid)"] by (simp add: con)
    then show "dom (rooms w') \<subseteq> dom (rooms w0) \<union> snd ` A" using S(7) J by blast
    show "c \<in> members_of w' q" if "q \<in> rooms_of w' c" for c q
      using S(8) [OF that] J S(4) unfolding joined_more_def by blast
    show "finite (rooms_of w' c)" for c
      by (rule finite_subset [of _ "insert rid (rooms_of w c)"]) (use J S(8) in auto)
  qed (use J S in auto)
  then show ?thesis using S(4,5) by (simp add: con)
qed

lemma joining_step:
  assumes J: "joining w0 jobs ts w" and dom: "dom (connection_rooms w0) = dom (connections w0)"
    and "interleave (thread_step iter) is_finished (ts, w) (ts', w')"
  shows "joining w0 jobs ts' w'"
proof -
  from assms(3) obtain i t where i: "i < length ts" and step: "thread_step iter (ts ! i) w = (t, w')"
    and ts': "ts' = ts[i := t]" by (auto elim: interleaveE)
  obtain cid rid where job: "jobs ! i = (cid, rid)" by (cases "jobs ! i")
  have len: "length ts = length jobs" and prog: "\<And>j. j < length jobs \<Longrightarrow>
      join_progress (dom (connections w0)) (jobs ! j) (ts ! j) w"
    and world: "joining_world w0 (admitted w0 jobs) w"
    using J by (auto simp: joining_def)
  have "connections w = connections w0" using world by (simp add: joining_world_def)
  then have "join_progress (dom (connections w)) (cid, rid) (ts ! i) w"
    using prog [of i] i len job by simp
  moreover have "(cid, rid) \<in> admitted w0 jobs" if "cid \<in> dom (connections w0)"
    using that i len job nth_mem [of i jobs] by (auto simp: admitted_def)
  ultimately have S: "joining_world w0 (admitted w0 jobs) w'" "joined_more w w'"
    "join_progress (dom (connections w0)) (cid, rid) t w'"
    using joining_world_step [OF world dom _ step] by blast+
  have "join_progress (dom (connections w0)) (jobs ! j) (ts' ! j) w'" if "j < length jobs" for j
    using S(3) i job join_progress_mono [OF prog [OF that] S(2)]
    by (cases "j = i") (simp_all add: ts')
  then show ?thesis using S(1) len by (simp add: joining_def ts')
qed

text \<open>Joining threads that have all returned.\<close>

lemma joining_finished:
  assumes "joining w jobs ts w'" and "list_all is_finished ts" and "i < length jobs"
  shows "join_progress (dom (connections w)) (jobs ! i) (ts ! i) w' \<and> (\<exists>b. ts ! i = Finished b)"
proof -
  have "is_finished (ts ! i)" using assms by (simp add: list_all_length joining_def joining_world_def)
  then show ?thesis using assms(1,3) by (cases "ts ! i") (auto simp: joining_def joining_world_def)
qed

lemma joining_results:
  assumes "joining w jobs ts w'" and "list_all is_finished ts"
  shows "ts = map (\<lambda>(cid, rid). Finished (cid \<in> dom (connections w))) jobs"
proof (rule nth_equalityI)
  show "length ts = length (map (\<lambda>(cid, rid). Finished (cid \<in> dom (connections w))) jobs)"
    using assms(1) by (simp add: joining_def joining_world_def)
  show "ts ! i = map (\<lambda>(cid, rid). Finished (cid \<in> dom (connections w))) jobs ! i" if "i < length ts" for i
    using joining_finished [OF assms, of i] that assms(1) by (cases "jobs ! i") (auto simp: joining_def joining_world_def)
qed

lemma joining_admitted:
  assumes "joining w jobs ts w'" and "list_all is_finished ts" and "(cid, q) \<in> admitted w jobs"
  shows "cid \<in> members_of w' q \<and> q \<in> rooms_of w' cid"
proof -
  obtain i where "i < length jobs" "jobs ! i = (cid, q)" "cid \<in> dom (connections w)"
    using assms(3) by (auto simp: admitted_def in_set_conv_nth)
  then show ?thesis using joining_finished [OF assms(1,2), of i] by auto
qed

lemma joining_members:
  assumes "joining w jobs ts w'" and "list_all is_finished ts"
  shows "members_of w' q = members_of w q \<union> {cid. (cid, q) \<in> admitted w jobs}"
proof -
  have "members_of w q \<subseteq> members_of w' q" using assms(1) by (simp add: joining_def joining_world_def joined_more_def)
  moreover have "cid \<in> members_of w q \<or> (cid, q) \<in> admitted w jobs" if "cid \<in> members_of w' q" for cid
    using assms(1) that unfolding joining_def joining_world_def by blast
  ultimately show ?thesis using joining_admitted [OF assms] by blast
qed

section \<open>A call on its own\<close>

text \<open>
  A call whose accesses are not interleaved with others has the effect and the result of the function that
  models it as a whole.
\<close>

lemma operations_are_threads:
  "run_alone iter (JoinCheck cid rid) w =
     (let p = join_room cid rid w :: (unit, unit, unit, unit) ws_result \<times> _ in (is_ok (fst p), snd p)) \<and>
   run_alone iter (LeaveMember cid rid) w =
     (let p = leave_room cid rid w :: (unit, unit, unit, unit) ws_result \<times> _ in (is_ok (fst p), snd p)) \<and>
   run_alone iter (UnregTake cid) w = (True, unregister_connection iter cid w) \<and>
   run_alone iter (RegConnection c) w = (True, register_connection c w) \<and>
   run_alone iter (CreateOnly rid) w = (True, snd (create_room rid w)) \<and>
   run_alone iter (DeleteTake rid) w = delete_room iter rid w"
proof (intro conjI)
  show "run_alone iter (RegConnection c) w = (True, register_connection c w)"
    by (simp add: run_alone_step register_connection_def)
  show "run_alone iter (CreateOnly rid) w = (True, snd (create_room rid w))"
    by (simp add: run_alone_step)
  show "run_alone iter (DeleteTake rid) w = delete_room iter rid w"
    by (simp add: run_alone_step run_alone_delete delete_room_def split: option.split)
  show "run_alone iter (JoinCheck cid rid) w =
     (let p = join_room cid rid w :: (unit, unit, unit, unit) ws_result \<times> _ in (is_ok (fst p), snd p))"
    by (simp add: run_alone_step join_room_def case_prod_unfold Let_def)
  show "run_alone iter (LeaveMember cid rid) w =
     (let p = leave_room cid rid w :: (unit, unit, unit, unit) ws_result \<times> _ in (is_ok (fst p), snd p))"
    by (simp add: run_alone_step leave_room_def)
  show "run_alone iter (UnregTake cid) w = (True, unregister_connection iter cid w)"
  proof (cases "connection_rooms w cid")
    case None
    then show ?thesis by (simp add: run_alone_step unregister_connection_def fun_upd_def)
  next
    case (Some S)
    then show ?thesis
      by (simp add: run_alone_step run_alone_unreg unregister_connection_def Let_def)
  qed
qed

text \<open>In the interleaving semantics a single thread takes the accesses of \<open>run_alone\<close> and ends.\<close>

lemma alone_interleavings:
  assumes "interleavings (thread_step iter) is_finished ([t], w) (ts, w')" and "list_all is_finished ts"
  shows "ts = [Finished (fst (run_alone iter t w))] \<and> w' = snd (run_alone iter t w)"
proof -
  have "\<exists>t'. ts = [t'] \<and> run_alone iter t' w' = run_alone iter t w"
  proof (rule interleavings_invariant [OF assms(1), where I = "\<lambda>ts w'. \<exists>t'. ts = [t'] \<and> run_alone iter t' w' = run_alone iter t w"])
    show "\<exists>t'. [t] = [t'] \<and> run_alone iter t' w = run_alone iter t w" by simp
    fix ts1 w1 ts2 w2
    assume I: "\<exists>t'. ts1 = [t'] \<and> run_alone iter t' w1 = run_alone iter t w"
      and "interleave (thread_step iter) is_finished (ts1, w1) (ts2, w2)"
    then obtain t1 t2 where "ts1 = [t1]" "\<not> is_finished t1" "thread_step iter t1 w1 = (t2, w2)" "ts2 = [t2]"
      by (auto elim!: interleaveE)
    then show "\<exists>t'. ts2 = [t'] \<and> run_alone iter t' w2 = run_alone iter t w"
      using I run_alone_step [of t1 iter w1] by auto
  qed
  then obtain t' where t': "ts = [t']" "run_alone iter t' w' = run_alone iter t w" by blast
  with assms(2) obtain b where "t' = Finished b" by (cases t') simp_all
  with t' show ?thesis by (metis fst_conv run_alone_Finished snd_conv)
qed

fun call_thread :: "manager_op \<Rightarrow> thread option" where
  "call_thread (Register c) = Some (RegConnection c)"
| "call_thread (Unregister cid) = Some (UnregTake cid)"
| "call_thread (CreateRoom rid) = Some (CreateOnly rid)"
| "call_thread (DeleteRoom rid) = Some (DeleteTake rid)"
| "call_thread (Join cid rid) = Some (JoinCheck cid rid)"
| "call_thread (Leave cid rid) = Some (LeaveMember cid rid)"
| "call_thread _ = None"

text \<open>What a call answers, of the abstract registry it starts from.\<close>

fun call_answer :: "manager_op \<Rightarrow> registry \<Rightarrow> bool" where
  "call_answer (Join cid rid) g = (cid \<in> reg g)"
| "call_answer (DeleteRoom rid) g = (rid \<in> live g)"
| "call_answer _ g = True"

lemma run_alone_call:
  assumes "call_thread op = Some t"
  shows "snd (run_alone iter t w) = manager_step rt iter op w"
  using assms by (cases op) (auto simp: operations_are_threads Let_def)

lemma run_alone_answer:
  assumes "manager_ok w" "iterates iter" "call_thread op = Some t"
  shows "fst (run_alone iter t w) = call_answer op (registry_of w)"
proof -
  have "is_ok (fst (join_room cid rid w :: (unit, unit, unit, unit) ws_result \<times> _)) \<longleftrightarrow> cid \<in> dom (connections w)"
    "is_ok (fst (leave_room cid rid w :: (unit, unit, unit, unit) ws_result \<times> _))"
    "fst (delete_room iter rid w) \<longleftrightarrow> rid \<in> dom (rooms w)" for cid rid
    using delete_room_refines [OF assms(1,2), of rid]
      leave_room_refines [OF assms(1), of cid rid, where ?'t = unit and ?'i = unit and ?'s = unit]
      join_room_refines [OF assms(1), of cid rid, where ?'t = unit and ?'i = unit and ?'s = unit] by simp_all
  then show ?thesis
    using assms(3) by (cases op) (simp_all add: operations_are_threads Let_def registry_of_def del: domIff; clarsimp)+
qed

lemma update_indices_cells [simp]: "cells (fold (\<lambda>mid. update_index mid f) mids w) = cells w"
  by (induction mids arbitrary: w) simp_all

lemma delete_room_cells [simp]: "cells (snd (delete_room iter rid w)) = cells w"
  by (simp add: delete_room_def Let_def split: option.split)

section \<open>Properties\<close>

text \<open>
  C32. Access by access, a call of the room manager in a state of its invariant (a registration with a
  fresh id and a cell of its own) that no other call interrupts does what the abstract registry says: it comes to its end, keeps the manager's invariant, changes the connections, rooms
  and memberships as the operation does, leaves every queue alone, and answers with success
  exactly when the connection to join is registered, or the room to delete exists.
\<close>

theorem calls_refine_registry:
  assumes "manager_ok w" and "manager_permitted iter op w" and "call_thread op = Some t"
  shows "(\<exists>ts w'. interleavings (thread_step iter) is_finished ([t], w) (ts, w') \<and> list_all is_finished ts) \<and>
    (\<forall>ts w'. interleavings (thread_step iter) is_finished ([t], w) (ts, w') \<and> list_all is_finished ts \<longrightarrow>
       manager_ok w' \<and> registry_of w' = registry_step op (registry_of w) \<and> cells w' = cells w \<and>
       ts = [Finished (call_answer op (registry_of w))])"
proof (intro conjI allI impI)
  obtain sched where "list_all is_finished (fst (run_schedule (thread_step iter) is_finished sched ([t], w)))"
    using run_schedule_ends [where fin = is_finished and step = "thread_step iter" and ?m1.0 = takes_index
        and ?m2.0 = thread_fuel and ts = "[t]" and s = w] thread_step_decreases by blast
  then show "\<exists>ts w'. interleavings (thread_step iter) is_finished ([t], w) (ts, w') \<and> list_all is_finished ts"
    using run_schedule_interleaving [of "thread_step iter" is_finished "([t], w)" sched]
    by (intro exI [of _ "fst (run_schedule (thread_step iter) is_finished sched ([t], w))"]
        exI [of _ "snd (run_schedule (thread_step iter) is_finished sched ([t], w))"]) simp
next
  fix ts w' assume run: "interleavings (thread_step iter) is_finished ([t], w) (ts, w') \<and> list_all is_finished ts"
  have end_state: "w' = manager_step undefined iter op w" "ts = [Finished (call_answer op (registry_of w))]"
    using alone_interleavings [of iter t w ts w'] run run_alone_call [OF assms(3), of iter w]
      run_alone_answer [OF assms(1) _ assms(3)] assms(2) by (auto simp: manager_permitted_def)
  note refines = manager_step_refines [OF assms(1,2), of undefined, folded end_state(1)]
  show "manager_ok w'" "registry_of w' = registry_step op (registry_of w)" using refines by simp_all
  show "cells w' = cells w"
    using assms unregister_refines [OF assms(1)]
    by (cases op) (auto simp: end_state(1) manager_permitted_def)
  show "ts = [Finished (call_answer op (registry_of w))]" by (rule end_state(2))
qed

theorem calls_refine_registry_witness:
  "\<exists>w'. interleavings (thread_step by_id) is_finished ([LeaveMember ''a'' ''q''], sample_world) ([Finished True], w') \<and>
     live (registry_of w') = {''r''} \<and> mem (registry_of w') = {(''a'', ''r''), (''b'', ''r'')}"
proof -
  have "manager_permitted by_id (Leave ''a'' ''q'') sample_world"
    by (simp add: manager_permitted_def iterates_by_id)
  note call = calls_refine_registry [OF sample_world_ok this call_thread.simps(6)]
  have ans: "call_answer (Leave ''a'' ''q'') (registry_of sample_world)" by simp
  have "alone (registry_of sample_world) ''a'' = {rid. rid \<noteq> ''r''}"
    by (auto simp: alone_def sample_world_registry)
  then have g: "live (registry_step (Leave ''a'' ''q'') (registry_of sample_world)) = {''r''}"
    "mem (registry_step (Leave ''a'' ''q'') (registry_of sample_world)) = {(''a'', ''r''), (''b'', ''r'')}"
    by (auto simp: sample_world_registry)
  from call obtain ts w' where run: "interleavings (thread_step by_id) is_finished ([LeaveMember ''a'' ''q''], sample_world) (ts, w')"
    "list_all is_finished ts" by blast
  with call ans have "ts = [Finished True]" by metis
  moreover from call run have "registry_of w' = registry_step (Leave ''a'' ''q'') (registry_of sample_world)" by blast
  ultimately show ?thesis using run(1) g by (intro exI [of _ w']) simp
qed

text \<open>
  In every interleaving of the manager's operations the rooms stay well formed, and the
  conditional removal is safe: unless the room is deleted as such, it is only ever taken out of the
  manager at a moment when nobody is in it.
\<close>

theorem races_remove_only_empty:
  assumes "heap_ok w" and "list_all (ref_ok w) ts" and "interleavings (thread_step iter) is_finished (ts, w) (ts', w')"
  shows "heap_ok w' \<and>
    (\<forall>ts'' w''. interleave (thread_step iter) is_finished (ts', w') (ts'', w'') \<longrightarrow>
       (\<forall>rid \<in> dom (rooms w') - dom (rooms w''). members_of w' rid = {} \<or> DeleteTake rid \<in> set ts'))"
proof -
  have "heap_ok w' \<and> list_all (ref_ok w') ts'"
  proof (rule interleavings_invariant [OF assms(3)])
    show "heap_ok w \<and> list_all (ref_ok w) ts" using assms by simp
    show "heap_ok w2 \<and> list_all (ref_ok w2) ts2"
      if I: "heap_ok w1 \<and> list_all (ref_ok w1) ts1"
        and step: "interleave (thread_step iter) is_finished (ts1, w1) (ts2, w2)" for ts1 w1 ts2 w2
    proof -
      from step obtain i t where i: "i < length ts1" "thread_step iter (ts1 ! i) w1 = (t, w2)"
        and ts2: "ts2 = ts1[i := t]" by (auto elim: interleaveE)
      have "ref_ok w1 (ts1 ! i)" using I i by (simp add: list_all_length)
      then have S: "heap_ok w2 \<and> heap_growing w1 w2 \<and> ref_ok w2 t"
        using thread_step_heap I i(2) by blast
      then have "list_all (ref_ok w2) ts1" using I ref_ok_growing by (auto simp: list_all_iff)
      then show ?thesis using S i by (auto simp: ts2 list_all_length nth_list_update)
    qed
  qed
  then show ?thesis by (auto elim!: interleaveE dest!: thread_step_removes_empty dest: nth_mem)
qed

theorem races_remove_only_empty_witness:
  "heap_ok (snd (run_schedule (thread_step by_id) is_finished [0, 1, 0, 1, 1, 0]
     ([JoinCheck ''b'' ''q'', LeaveMember ''a'' ''q''], sample_world)))"
proof -
  let ?ts = "[JoinCheck ''b'' ''q'', LeaveMember ''a'' ''q'']"
  let ?s = "run_schedule (thread_step by_id) is_finished [0, 1, 0, 1, 1, 0] (?ts, sample_world)"
  have "interleavings (thread_step by_id) is_finished (?ts, sample_world) (fst ?s, snd ?s)"
    unfolding prod.collapse by (rule run_schedule_interleaving)
  moreover have "list_all (ref_ok sample_world) ?ts" by simp
  ultimately show ?thesis
    using races_remove_only_empty manager_okD(1) [OF sample_world_ok] by blast
qed

text \<open>
  C24. Concurrent joins do not interfere: however any number of \<open>join_room\<close> calls are interleaved,
  when all have returned the manager's invariant holds, each call has succeeded exactly if its
  connection is registered, and exactly those memberships have been added.
\<close>

theorem concurrent_joins:
  assumes "manager_ok w"
    and "interleavings (thread_step iter) is_finished (map (\<lambda>(cid, rid). JoinCheck cid rid) jobs, w) (ts, w')"
    and "list_all is_finished ts"
  shows "manager_ok w' \<and>
    ts = map (\<lambda>(cid, rid). Finished (cid \<in> dom (connections w))) jobs \<and>
    (\<forall>q. members_of w' q = members_of w q \<union> {cid. (cid, q) \<in> admitted w jobs})"
proof -
  note ok = manager_okD [OF assms(1)]
  have "joining w jobs (map (\<lambda>(cid, rid). JoinCheck cid rid) jobs) w"
    using ok by (auto simp: joining_def joining_world_def split: prod.split)
  then have J: "joining w jobs ts w'"
    by (rule interleavings_invariant [OF assms(2)]) (rule joining_step [OF _ ok(2)])
  note returned = joining_admitted [OF J assms(3)] joining_members [OF J assms(3)]
  have "manager_ok w'"
  proof (rule manager_ok_same_connections [OF assms(1)])
    show "q \<in> rooms_of w' cid \<longleftrightarrow> cid \<in> members_of w' q" for cid q
    proof
      show "q \<in> rooms_of w' cid \<Longrightarrow> cid \<in> members_of w' q" using J unfolding joining_def joining_world_def by blast
      assume "cid \<in> members_of w' q"
      then consider "q \<in> rooms_of w cid" | "(cid, q) \<in> admitted w jobs" using returned(2) ok(3) by blast
      then show "q \<in> rooms_of w' cid"
        using J returned(1) by cases (auto simp: joining_def joining_world_def joined_more_def)
    qed
    have "finite (admitted w jobs)" by (rule finite_subset [of _ "set jobs"]) (auto simp: admitted_def)
    then show "finite (dom (rooms w'))"
      using J ok(5) by (intro finite_subset [of "dom (rooms w')" "dom (rooms w) \<union> snd ` admitted w jobs"])
        (simp_all add: joining_def joining_world_def)
  qed (use J in \<open>auto simp: joining_def joining_world_def\<close>)
  with joining_results [OF J assms(3)] returned(2) show ?thesis by blast
qed

theorem concurrent_joins_witness:
  "members_of (snd (run_schedule (thread_step by_id) is_finished [0, 1, 0, 1, 1, 0, 0, 1]
     (map (\<lambda>(cid, rid). JoinCheck cid rid) [(''a'', ''new''), (''b'', ''new'')], sample_world))) ''new''
     = {''a'', ''b''}"
proof -
  let ?jobs = "[(''a'', ''new''), (''b'', ''new'')]"
  let ?s = "run_schedule (thread_step by_id) is_finished [0, 1, 0, 1, 1, 0, 0, 1] (map (\<lambda>(cid, rid). JoinCheck cid rid) ?jobs, sample_world)"
  have con: "\<exists>c. connections sample_world ''a'' = Some c" "\<exists>c. connections sample_world ''b'' = Some c"
    using sample_world_views(4) by auto
  then have fin: "list_all is_finished (fst ?s)"
    by (auto simp: case_prod_unfold Let_def)
  have "interleavings (thread_step by_id) is_finished (map (\<lambda>(cid, rid). JoinCheck cid rid) ?jobs, sample_world) (fst ?s, snd ?s)"
    unfolding prod.collapse by (rule run_schedule_interleaving)
  from concurrent_joins [OF sample_world_ok this fin]
  have "members_of (snd ?s) ''new'' = members_of sample_world ''new'' \<union> {cid. (cid, ''new'') \<in> admitted sample_world ?jobs}"
    by blast
  moreover have "admitted sample_world ?jobs = {(''a'', ''new''), (''b'', ''new'')}"
    unfolding admitted_def sample_world_views by auto
  moreover have "''new'' \<notin> dom (rooms sample_world)" by (simp add: sample_world_views)
  then have "members_of sample_world ''new'' = {}" by (simp add: members_of_def domIff)
  moreover have "{cid. (cid, ''new'') \<in> {(''a'', ''new''), (''b'', ''new'')}} = {''a'', ''b''}" by auto
  ultimately show ?thesis by (simp only: Un_empty_left)
qed

text \<open>
  C35. A join can be lost to a concurrent leave: when the last member leaves a room while another
  connection joins it, an interleaving exists in which both calls succeed, yet the room is gone
  from the manager, the joined connection is in no such room, its index names a room that does
  not exist, and a broadcast to the room fails.
\<close>

theorem join_lost_to_leave:
  assumes "manager_ok w" and "members_of w r = {a}" and "b \<in> dom (connections w)" and "b \<noteq> a"
  shows "\<exists>w'. interleavings (thread_step iter) is_finished ([JoinCheck b r, LeaveMember a r], w) ([Finished True, Finished True], w') \<and>
    rooms w' r = None \<and> r \<in> rooms_of w' b \<and> b \<notin> members_of w' r \<and>
    broadcast_to_room rt iter' r m w' = (Inl (RoomNotFound r) :: ('t, 'i, 's, nat) ws_result, w')"
proof -
  obtain ref where ref: "rooms w r = Some ref"
    using assms(2) by (auto simp: members_of_def split: option.splits)
  define w2 where "w2 = update_index a (\<lambda>S. S - {r}) (leave_if_present a r w)"
  define w3 where "w3 = remove_room_if_empty r w2"
  define w5 where "w5 = update_index b (insert r) (update_room ref (room_join b) w3)"
  have "run_schedule (thread_step iter) is_finished [0, 0, 1, 1, 1, 0, 0] ([JoinCheck b r, LeaveMember a r], w)
      = ([Finished True, Finished True], w5)"
    using assms(3) ref by (auto simp: create_room_def w5_def w3_def w2_def)
  moreover have "members_of w2 r = {}"
    using manager_okD(1) [OF assms(1)] assms(2) by (simp add: w2_def members_of_leave)
  then have "rooms w5 r = None"
    using rooms_remove [of r w2] by (auto simp: w5_def w3_def)
  moreover have "b \<in> dom (connection_rooms w3)"
    using manager_okD(2) [OF assms(1)] assms(3) by (simp add: w3_def w2_def)
  then have "r \<in> rooms_of w5 b" by (simp add: w5_def rooms_of_update_index)
  ultimately show ?thesis
    using run_schedule_interleaving [of "thread_step iter" is_finished "([JoinCheck b r, LeaveMember a r], w)" "[0, 0, 1, 1, 1, 0, 0]"]
    by (auto simp: members_of_def broadcast_to_room_def)
qed

theorem join_lost_to_leave_witness:
  "\<exists>w'. interleavings (thread_step by_id) is_finished ([JoinCheck ''b'' ''q'', LeaveMember ''a'' ''q''], sample_world)
      ([Finished True, Finished True], w') \<and> rooms w' ''q'' = None \<and> ''q'' \<in> rooms_of w' ''b''"
proof -
  have "members_of sample_world ''q'' = {''a''}" "''b'' \<in> dom (connections sample_world)" "''b'' \<noteq> ''a''"
    by (simp_all add: sample_world_views)
  from join_lost_to_leave [OF sample_world_ok this, of by_id fifo_runtime by_id close_msg,
      where ?'t = unit and ?'i = unit and ?'s = unit]
  show ?thesis by blast
qed

text \<open>
  C34. A join can outlive its connection: when a connection is unregistered while it joins a room,
  an interleaving exists in which both calls succeed and the connection stays a member of the
  room although it is no longer registered, so nothing removes it or the room any more.
\<close>

theorem join_outlives_connection:
  assumes "manager_ok w" and "iterates iter" and "b \<in> dom (connections w)" and "rooms_of w b = {}"
  shows "\<exists>w'. interleavings (thread_step iter) is_finished ([JoinCheck b r, UnregTake b], w) ([Finished True, Finished True], w') \<and>
    connections w' b = None \<and> connection_rooms w' b = None \<and> b \<in> members_of w' r \<and>
    unregister_connection iter b w' = w'"
proof -
  obtain S where S: "connection_rooms w b = Some S"
    using assms(1,3) manager_okD(2) [OF assms(1)] by blast
  then have "S = {}" using assms(4) by (simp add: rooms_of_def)
  have nil: "iter {} = []" using assms(2) unfolding iterates_def by (metis finite.emptyI set_empty)
  define w1 where "w1 = w\<lparr>connection_rooms := (connection_rooms w)(b := None),
    connections := (connections w)(b := None)\<rparr>"
  define w2 where "w2 = snd (create_room r w1)"
  define ref where "ref = fst (create_room r w1)"
  define w4 where "w4 = update_index b (insert r) (update_room ref (room_join b) w2)"
  have h: "heap_ok w1" using manager_okD(1) [OF assms(1)] by (simp add: w1_def)
  note spec = create_room_spec [OF h, of r, folded w2_def ref_def]
  have run: "run_schedule (thread_step iter) is_finished [0, 1, 1, 0, 0, 0] ([JoinCheck b r, UnregTake b], w)
      = ([Finished True, Finished True], w4)"
    using assms(3) S nil \<open>S = {}\<close>
    by (auto simp: w4_def w2_def ref_def w1_def case_prod_unfold Let_def)
  have gone: "connections w2 b = None" "connection_rooms w2 b = None"
    by (simp_all add: w2_def) (simp_all add: w1_def)
  have w4: "w4 = update_room ref (room_join b) w2" "connections w4 b = None" "connection_rooms w4 b = None"
    using gone by (simp_all add: w4_def update_index_def)
  have "b \<in> members_of w4 r"
    using members_of_update_room [OF spec(1,3), of "room_join b" r] by (simp add: w4(1) room_join_def)
  moreover have "unregister_connection iter b w4 = w4"
    using w4(2,3) by (simp add: unregister_connection_def fun_upd_idem)
  ultimately show ?thesis
    using w4(2,3) run
      run_schedule_interleaving [of "thread_step iter" is_finished "([JoinCheck b r, UnregTake b], w)" "[0, 1, 1, 0, 0, 0]"] by auto
qed

definition late_world :: "(fifo, bool) world" where
  "late_world = register_connection (sample_handle ''d'' 5) sample_world"

theorem join_outlives_connection_witness:
  "\<exists>w'. interleavings (thread_step by_id) is_finished ([JoinCheck ''d'' ''r'', UnregTake ''d''], late_world)
      ([Finished True, Finished True], w') \<and> connections w' ''d'' = None \<and> ''d'' \<in> members_of w' ''r''"
proof -
  have "connections sample_world = [''a'' \<mapsto> sample_handle ''a'' 0, ''b'' \<mapsto> sample_handle ''b'' 1]"
    by (simp add: sample_world_def sample_manager_ops_def register_connection_def world_new_def
        join_room_def sample_handle_def case_prod_unfold Let_def)
  then have "manager_legal (Register (sample_handle ''d'' 5)) sample_world"
    by (auto simp: sample_handle_def)
  then have "manager_ok late_world"
    using register_refines [OF sample_world_ok] by (simp add: late_world_def)
  moreover have "''d'' \<in> dom (connections late_world)" "rooms_of late_world ''d'' = {}"
    by (simp_all add: late_world_def register_connection_def sample_handle_def rooms_of_def)
  ultimately show ?thesis using join_outlives_connection [OF _ iterates_by_id] by blast
qed

text \<open>
  C36. A deletion can forget a join: when a room is deleted while its member joins it again, an
  interleaving exists in which both calls succeed and the connection is a member of the new room
  without having it in its index, so unregistering the connection leaves it in the room for ever.
\<close>

theorem delete_forgets_join:
  assumes "manager_ok w" and "iterates iter" and "members_of w r = {a}"
  shows "\<exists>w'. interleavings (thread_step iter) is_finished ([DeleteTake r, JoinCheck a r], w) ([Finished True, Finished True], w') \<and>
    a \<in> members_of w' r \<and> r \<notin> rooms_of w' a \<and>
    connections (unregister_connection iter a w') a = None \<and> a \<in> members_of (unregister_connection iter a w') r"
proof -
  obtain ref where ref: "rooms w r = Some ref" "members (room_heap w ref) = {a}"
    using assms(3) by (auto simp: members_of_def split: option.splits)
  have one: "iter {a} = [a]"
    using assms(2) by (intro distinct_singleton_list) (simp_all add: iterates_def)
  obtain c where c: "connections w a = Some c"
    using members_registered(1) [OF assms(1), of r] assms(3) by auto
  then obtain S where S: "connection_rooms w a = Some S" using manager_okD(2) [OF assms(1)] by blast
  then have "finite S" using manager_okD(6) [OF assms(1), of a] by (simp add: rooms_of_def)
  define w1 where "w1 = w\<lparr>rooms := (rooms w)(r := None)\<rparr>"
  define w2 where "w2 = snd (create_room r w1)"
  define ref' where "ref' = fst (create_room r w1)"
  define w3 where "w3 = update_room ref' (room_join a) w2"
  define w5 where "w5 = update_index a (\<lambda>S. S - {r}) (update_index a (insert r) w3)"
  have h: "heap_ok w1" using manager_okD(1) [OF assms(1)] by (auto simp: w1_def heap_ok_def)
  note spec = create_room_spec [OF h, of r, folded w2_def ref'_def]
  have run: "run_schedule (thread_step iter) is_finished [0, 0, 1, 1, 1, 1, 0] ([DeleteTake r, JoinCheck a r], w)
      = ([Finished True, Finished True], w5)"
    using ref c by (simp add: w5_def w3_def w2_def ref'_def w1_def room_members_def one case_prod_unfold Let_def)
  have "connection_rooms w3 = connection_rooms w" by (simp add: w3_def w2_def) (simp add: w1_def)
  then have index: "connection_rooms w5 a = Some (S - {r})" using S by (auto simp: w5_def update_index_def)
  have "a \<in> members_of w3 r"
    using members_of_update_room [OF spec(1,3), of "room_join a" r] by (simp add: w3_def room_join_def)
  then have member: "a \<in> members_of w5 r" by (simp add: w5_def)
  define w6 where "w6 = w5\<lparr>connection_rooms := (connection_rooms w5)(a := None)\<rparr>"
  have "heap_ok w3" unfolding w3_def using spec(1) by (rule heap_ok_update_room) (simp add: room_join_def)
  then have "heap_ok w6" by (simp add: w6_def w5_def)
  from drop_members [OF this, of a "iter (S - {r})", unfolded Let_def]
  have "members_of (fold (drop_member a) (iter (S - {r})) w6) r = members_of w6 r"
    using assms(2) \<open>finite S\<close> by (simp add: iterates_def)
  moreover have "a \<in> members_of w6 r" using member by (simp add: w6_def)
  ultimately have "a \<in> members_of (unregister_connection iter a w5) r"
    using index by (simp add: unregister_connection_def w6_def Let_def)
  moreover have "connections (unregister_connection iter a w5) a = None"
    by (simp add: unregister_connection_def Let_def)
  ultimately show ?thesis
    using run index member run_schedule_interleaving [of "thread_step iter" is_finished "([DeleteTake r, JoinCheck a r], w)" "[0, 0, 1, 1, 1, 1, 0]"]
    by (auto simp: rooms_of_def)
qed

theorem delete_forgets_join_witness:
  "\<exists>w'. interleavings (thread_step by_id) is_finished ([DeleteTake ''q'', JoinCheck ''a'' ''q''], sample_world)
      ([Finished True, Finished True], w') \<and> ''q'' \<notin> rooms_of w' ''a'' \<and>
    ''a'' \<in> members_of (unregister_connection by_id ''a'' w') ''q''"
proof -
  have "members_of sample_world ''q'' = {''a''}" by (simp add: sample_world_views)
  from delete_forgets_join [OF sample_world_ok iterates_by_id this] show ?thesis by blast
qed

end
