(* ===== verification/Ws_Send_Races.thy ===== *)
theory Ws_Send_Races imports Ws_Writer Ws_Machine "HOL-Library.Multiset" begin

text \<open>
  \<open>Connection::send\<close> and \<open>Connection::close\<close> under concurrency: any number of calls on handles of
  one connection, each split into its accesses to the state, the channel and the \<open>Notify\<close>.
\<close>

datatype sender =
    SendCheck message
  | SendTry message
  | EvictStore
  | EvictNotify
  | CloseStore
  | CloseTry
  | CloseNotify
  | SenderDone "message option"

fun sender_step ::
  "('ch, 'nt) runtime \<Rightarrow> sender \<Rightarrow> ('ch, 'nt) cell \<Rightarrow> sender \<times> ('ch, 'nt) cell" where
  "sender_step rt (SendCheck m) cl = (if cell_is_open cl then SendTry m else SenderDone None, cl)"
| "sender_step rt (SendTry m) cl =
     (case rt_try_send rt m (c_tx cl) of
        (Sent, ch) \<Rightarrow> (SenderDone (Some m), cl\<lparr>c_tx := ch\<rparr>)
      | (QueueFull, ch) \<Rightarrow> (EvictStore, cl\<lparr>c_tx := ch\<rparr>)
      | (QueueClosed, ch) \<Rightarrow> (SenderDone None, cl\<lparr>c_tx := ch\<rparr>))"
| "sender_step rt EvictStore cl = (EvictNotify, cl\<lparr>c_state := Closing\<rparr>)"
| "sender_step rt EvictNotify cl = (SenderDone None, cl\<lparr>c_evict := rt_notify_one rt (c_evict cl)\<rparr>)"
| "sender_step rt CloseStore cl = (CloseTry, cl\<lparr>c_state := Closing\<rparr>)"
| "sender_step rt CloseTry cl =
     (case rt_try_send rt close_msg (c_tx cl) of
        (Sent, ch) \<Rightarrow> (SenderDone (Some close_msg), cl\<lparr>c_tx := ch\<rparr>)
      | (_, ch) \<Rightarrow> (CloseNotify, cl\<lparr>c_tx := ch\<rparr>))"
| "sender_step rt CloseNotify cl = (SenderDone None, cl\<lparr>c_evict := rt_notify_one rt (c_evict cl)\<rparr>)"
| "sender_step rt (SenderDone r) cl = (SenderDone r, cl)"

fun sender_done :: "sender \<Rightarrow> bool" where
  "sender_done (SenderDone _) = True"
| "sender_done _ = False"

fun sender_call :: "sender \<Rightarrow> bool" where
  "sender_call (SendCheck _) = True"
| "sender_call CloseStore = True"
| "sender_call _ = False"

text \<open>The messages the channel has accepted from the calls.\<close>

fun accepted_of :: "sender \<Rightarrow> message list" where
  "accepted_of (SenderDone (Some m)) = [m]"
| "accepted_of _ = []"

text \<open>Without interruption the accesses are the calls.\<close>

lemma sender_alone:
  "run_schedule (sender_step rt) sender_done [0, 0, 0, 0] ([SendCheck m], cl) =
     (let (r, cl') = cell_send rt m cl :: (unit, unit, unit, unit) ws_result \<times> _
      in ([SenderDone (if is_ok r then Some m else None)], cl'))"
  "snd (run_schedule (sender_step rt) sender_done [0, 0, 0] ([CloseStore], cl)) = cell_close rt cl"
  by (auto simp: cell_send_def cell_evict_def cell_close_def Let_def
      split: prod.splits try_send_result.splits)

section \<open>What every interleaving keeps\<close>

text \<open>How far a call has got.\<close>

definition call_progress ::
  "('ch, 'nt) runtime \<Rightarrow> sender \<Rightarrow> sender \<Rightarrow> ('ch, 'nt) cell \<Rightarrow> bool" where
  "call_progress rt call t cl \<longleftrightarrow>
     (if call = CloseStore
      then t = CloseStore \<or> c_state cl = Closing \<and>
        (t = CloseTry \<or> t = CloseNotify \<or> t = SenderDone (Some close_msg) \<or>
         t = SenderDone None \<and> rt_notified rt (c_evict cl) \<noteq> None)
      else t \<noteq> CloseStore \<and> t \<noteq> CloseTry \<and> t \<noteq> CloseNotify)"

lemma accepted_update:
  "i < length ts \<Longrightarrow> accepted_of (ts ! i) = [] \<Longrightarrow>
     mset (concat (map accepted_of (ts[i := t]))) =
       mset (concat (map accepted_of ts)) + mset (accepted_of t)"
  by (induction ts arbitrary: i) (auto split: nat.split)

lemma not_done_accepts_nothing: "\<not> sender_done t \<Longrightarrow> accepted_of t = []"
  by (cases t) auto

context tokio_runtime begin

definition calls_ok :: "sender list \<Rightarrow> nat \<Rightarrow> sender list \<Rightarrow> ('ch, 'nt) cell \<Rightarrow> bool" where
  "calls_ok calls n ts cl \<longleftrightarrow>
     length ts = length calls \<and> rx_alive (c_tx cl) \<and> capacity (c_tx cl) = n \<and>
     length (queued (c_tx cl)) \<le> n \<and> (c_state cl = Open \<or> c_state cl = Closing) \<and>
     mset (queued (c_tx cl)) = mset (concat (map accepted_of ts)) \<and>
     (\<forall>i < length calls. call_progress rt (calls ! i) (ts ! i) cl)"

lemma progress_stable:
  assumes "call_progress rt call t cl" "sender_step rt t' cl = (u, cl')"
  shows "call_progress rt call t cl'"
proof -
  have "c_state cl = Closing \<Longrightarrow> c_state cl' = Closing"
    using assms(2) by (cases t') (auto split: prod.splits try_send_result.splits)
  moreover have "rt_notified rt (c_evict cl) \<noteq> None \<Longrightarrow> rt_notified rt (c_evict cl') \<noteq> None"
    using assms(2) notified_notify_one by (cases t') (auto split: prod.splits try_send_result.splits)
  ultimately show ?thesis using assms(1) by (auto simp: call_progress_def)
qed

lemma progress_step:
  assumes "call_progress rt call t cl" "\<not> sender_done t" "sender_step rt t cl = (u, cl')"
  shows "call_progress rt call u cl'"
  using assms notified_notify_one
  by (cases t) (auto simp: call_progress_def split: prod.splits try_send_result.splits if_splits)

lemma channel_step:
  assumes "rx_alive (c_tx cl)" "length (queued (c_tx cl)) \<le> capacity (c_tx cl)"
    and "\<not> sender_done t" "sender_step rt t cl = (u, cl')"
  shows "rx_alive (c_tx cl') \<and> capacity (c_tx cl') = capacity (c_tx cl) \<and>
    length (queued (c_tx cl')) \<le> capacity (c_tx cl) \<and>
    queued (c_tx cl') = queued (c_tx cl) @ accepted_of u"
proof (cases t)
  case (SendTry m)
  show ?thesis
    by (cases rule: try_send_cases [of "c_tx cl" m]) (use assms SendTry in auto)
next
  case CloseTry
  show ?thesis
    by (cases rule: try_send_cases [of "c_tx cl" close_msg]) (use assms CloseTry in auto)
qed (use assms in auto)

lemma calls_ok_step:
  assumes "calls_ok calls n ts cl" "interleave (sender_step rt) sender_done (ts, cl) (ts', cl')"
  shows "calls_ok calls n ts' cl'"
proof -
  from assms(2) obtain i u where i: "i < length ts" "\<not> sender_done (ts ! i)"
    and step: "sender_step rt (ts ! i) cl = (u, cl')" and ts': "ts' = ts[i := u]"
    by (auto elim: interleaveE)
  note ok = assms(1) [unfolded calls_ok_def]
  have len: "length ts = length calls" using ok by simp
  have ch: "rx_alive (c_tx cl') \<and> capacity (c_tx cl') = capacity (c_tx cl) \<and>
      length (queued (c_tx cl')) \<le> capacity (c_tx cl) \<and> queued (c_tx cl') = queued (c_tx cl) @ accepted_of u"
    using ok i(2) step by (intro channel_step) auto
  have st: "c_state cl' = Open \<or> c_state cl' = Closing"
    using ok step by (cases "ts ! i") (auto split: prod.splits try_send_result.splits)
  have prog: "call_progress rt (calls ! j) (ts' ! j) cl'" if "j < length calls" for j
  proof (cases "j = i")
    case True
    then show ?thesis using ok that i step progress_step by (auto simp: ts')
  next
    case False
    then show ?thesis using ok that step progress_stable by (auto simp: ts')
  qed
  have "mset (queued (c_tx cl')) = mset (concat (map accepted_of ts'))"
    using ok ch accepted_update [OF i(1) not_done_accepts_nothing [OF i(2)], of u] by (simp add: ts')
  moreover have "length ts' = length calls" by (simp add: ts' len)
  moreover have "length (queued (c_tx cl')) \<le> n" "capacity (c_tx cl') = n" "rx_alive (c_tx cl')"
    using ok ch by auto
  ultimately show ?thesis unfolding calls_ok_def using ok st prog by blast
qed

lemma calls_ok_start:
  assumes "0 < n" "list_all sender_call calls"
  shows "calls_ok calls (unat n) calls (cell_new rt (rt_channel rt n))"
proof -
  have "concat (map accepted_of calls) = []"
    using assms(2) by (induction calls) (auto elim: sender_call.elims)
  moreover have "call_progress rt (calls ! i) (calls ! i) cl" if "i < length calls" for i cl
    using assms(2) that by (cases "calls ! i") (auto simp: call_progress_def list_all_length)
  ultimately show ?thesis
    using channel_new [OF assms(1)] by (simp add: calls_ok_def cell_new_def)
qed

end

section \<open>Properties\<close>

text \<open>
  C25. Concurrent use of one connection is safe: in every interleaving of sends and closes the
  queue holds exactly the messages whose calls succeeded, each once, never more than its
  capacity; and when all calls have returned and one was a close, the connection is closing
  and the Close message is queued or the eviction permit is stored.
\<close>

theorem concurrent_sends:
  assumes "tokio_runtime rt queued capacity rx_alive" and "0 < n" and "list_all sender_call calls"
    and "interleavings (sender_step rt) sender_done (calls, cell_new rt (rt_channel rt n)) (ts, cl)"
  shows "length (queued (c_tx cl)) \<le> unat n \<and>
    mset (queued (c_tx cl)) = mset (concat (map accepted_of ts)) \<and>
    (CloseStore \<in> set calls \<and> list_all sender_done ts \<longrightarrow>
       c_state cl = Closing \<and>
       (close_msg \<in> set (queued (c_tx cl)) \<or> rt_notified rt (c_evict cl) \<noteq> None))"
proof -
  have ok: "tokio_runtime.calls_ok rt queued capacity rx_alive calls (unat n) ts cl"
    by (rule interleavings_invariant [OF assms(4)])
      (use tokio_runtime.calls_ok_start [OF assms(1-3)] tokio_runtime.calls_ok_step [OF assms(1)] in auto)
  note ok = ok [unfolded tokio_runtime.calls_ok_def [OF assms(1)]]
  have "c_state cl = Closing \<and> (close_msg \<in> set (queued (c_tx cl)) \<or> rt_notified rt (c_evict cl) \<noteq> None)"
    if close: "CloseStore \<in> set calls" and fin: "list_all sender_done ts"
  proof -
    obtain i where i: "i < length calls" "calls ! i = CloseStore" using close by (auto simp: in_set_conv_nth)
    have d: "sender_done (ts ! i)" using fin ok i by (simp add: list_all_length)
    have p: "call_progress rt CloseStore (ts ! i) cl" using ok i by metis
    have "close_msg \<in># mset (concat (map accepted_of ts))" if "ts ! i = SenderDone (Some close_msg)"
      using that i ok nth_mem [of i ts] by (auto intro!: bexI [of _ "ts ! i"])
    then have "close_msg \<in> set (queued (c_tx cl))" if "ts ! i = SenderDone (Some close_msg)"
      using that ok by (metis set_mset_mset)
    then show ?thesis using p d by (auto simp: call_progress_def)
  qed
  then show ?thesis using ok by simp
qed

theorem concurrent_sends_witness:
  "let s = run_schedule (sender_step fifo_runtime) sender_done [0, 1, 1, 0, 2, 2]
      ([SendCheck (ping_msg []), CloseStore, SendCheck (ping_msg [1])], cell_new fifo_runtime (fifo_new 4))
   in c_state (snd s) = Closing \<and> length (f_buf (c_tx (snd s))) \<le> 4"
proof -
  let ?calls = "[SendCheck (ping_msg []), CloseStore, SendCheck (ping_msg [1])]"
  let ?s = "run_schedule (sender_step fifo_runtime) sender_done [0, 1, 1, 0, 2, 2]
      (?calls, cell_new fifo_runtime (rt_channel fifo_runtime 4))"
  have "interleavings (sender_step fifo_runtime) sender_done
      (?calls, cell_new fifo_runtime (rt_channel fifo_runtime 4)) (fst ?s, snd ?s)"
    unfolding prod.collapse by (rule run_schedule_interleaving)
  moreover have "list_all sender_done (fst ?s)"
    by (simp add: cell_new_def fifo_defs cell_is_open_def)
  moreover have "rt_channel fifo_runtime = fifo_new" by (simp add: fifo_runtime_def)
  ultimately show ?thesis
    using concurrent_sends [OF fifo.tokio_runtime_axioms, of 4 ?calls "fst ?s" "snd ?s"]
    by (simp add: Let_def)
qed

text \<open>
  C38. A send that succeeded may still not be sent: when a close comes between the two accesses of a
  send, both succeed but the message is queued behind the Close, where the writer stops.
\<close>

theorem send_overtaken_by_close:
  assumes "tokio_runtime rt queued capacity rx_alive"
    and "c_state cl = Open" "rx_alive (c_tx cl)" "length (queued (c_tx cl)) + 2 \<le> capacity (c_tx cl)"
  shows "\<exists>cl'. interleavings (sender_step rt) sender_done ([SendCheck m, CloseStore], cl)
      ([SenderDone (Some m), SenderDone (Some close_msg)], cl') \<and>
    queued (c_tx cl') = queued (c_tx cl) @ [close_msg, m] \<and>
    (wire (queued (c_tx cl')) :: ('c, 'f) raw_message list) = wire (queued (c_tx cl) @ [close_msg])"
proof -
  have ch: "mpsc_channel rt queued capacity rx_alive" using assms(1) by (rule tokio_runtime.axioms)
  obtain ch1 where ch1: "rt_try_send rt close_msg (c_tx cl) = (Sent, ch1)"
    "queued ch1 = queued (c_tx cl) @ [close_msg]" "capacity ch1 = capacity (c_tx cl)" "rx_alive ch1"
    using mpsc_channel.try_send_room [OF ch assms(3), of close_msg] assms(4) by auto
  obtain ch2 where ch2: "rt_try_send rt m ch1 = (Sent, ch2)" "queued ch2 = queued ch1 @ [m]"
    using mpsc_channel.try_send_room [OF ch ch1(4), of m] assms(4) ch1(2,3) by auto
  have "run_schedule (sender_step rt) sender_done [0, 1, 1, 0] ([SendCheck m, CloseStore], cl) =
      ([SenderDone (Some m), SenderDone (Some close_msg)], cl\<lparr>c_state := Closing, c_tx := ch2\<rparr>)"
    using assms(2) ch1 ch2 by (simp add: cell_is_open_def)
  moreover have "\<not> list_all (\<lambda>m. \<not> is_close m) (queued (c_tx cl) @ [close_msg])"
    by (simp add: is_close_def close_msg_def)
  then have "(wire ((queued (c_tx cl) @ [close_msg]) @ [m]) :: ('c, 'f) raw_message list) =
      wire (queued (c_tx cl) @ [close_msg])" by (rule wire_append_close)
  ultimately show ?thesis
    using run_schedule_interleaving [of "sender_step rt" sender_done "([SendCheck m, CloseStore], cl)" "[0, 1, 1, 0]"]
      ch1(2) ch2(2)
    by (intro exI [of _ "cl\<lparr>c_state := Closing, c_tx := ch2\<rparr>"]) simp
qed

theorem send_overtaken_by_close_witness:
  "\<exists>cl'. interleavings (sender_step fifo_runtime) sender_done
      ([SendCheck (ping_msg []), CloseStore], cell_new fifo_runtime (fifo_new 4))
      ([SenderDone (Some (ping_msg [])), SenderDone (Some close_msg)], cl') \<and>
    f_buf (c_tx cl') = [close_msg, ping_msg []]"
proof -
  let ?cl = "cell_new fifo_runtime (fifo_new 4)"
  have "c_state ?cl = Open" "f_alive (c_tx ?cl)" "length (f_buf (c_tx ?cl)) + 2 \<le> f_cap (c_tx ?cl)"
    "f_buf (c_tx ?cl) = []" by (simp_all add: cell_new_def fifo_new_def)
  then show ?thesis
    using send_overtaken_by_close [OF fifo.tokio_runtime_axioms, of ?cl "ping_msg []"] by auto
qed

end
