(* ===== verification/Ws_Locks.thy ===== *)
theory Ws_Locks imports Ws_Prelude "HOL-Library.Product_Lexorder" begin

text \<open>
  The locks behind \<open>room.rs\<close> and \<open>connection.rs\<close>.  A \<open>DashMap\<close> has a readers-writer lock for each of
  its shards, and the state of a connection has one of its own; an operation holds a lock as long
  as the guard it got from the map lives, and takes others meanwhile.  The locks of every
  operation are written out as it takes and drops them; what it finds in the maps (rooms, members,
  full queues) is an argument, so that every course of an operation is covered.
\<close>

section \<open>Locks\<close>

datatype lock =
    RoomsLock nat
  | MembersLock nat nat
  | ConnectionsLock nat
  | IndexLock nat
  | StateLock nat

datatype lock_mode = Shared | Exclusive

datatype lock_action = Take lock_mode lock | Drop lock

text \<open>
  How each map spreads its keys over its shards (every map hashes them its own way), and whether iterating a map drops the lock of a shard
  before or after it takes that of the next.
\<close>

datatype map_name = RoomsMap | MembersMap nat | ConnectionsMap | IndexMap

record sharding =
  shard_of :: "map_name \<Rightarrow> string \<Rightarrow> nat"
  shard_count :: nat
  hand_over :: bool

definition with_lock :: "lock_mode \<Rightarrow> lock \<Rightarrow> lock_action list \<Rightarrow> lock_action list" where
  "with_lock m l body = Take m l # body @ [Drop l]"

abbreviation touch :: "lock_mode \<Rightarrow> lock \<Rightarrow> lock_action list" where
  "touch m l \<equiv> with_lock m l []"

fun walk :: "(nat \<Rightarrow> lock) \<Rightarrow> (nat \<Rightarrow> lock_action list) \<Rightarrow> nat \<Rightarrow> nat list \<Rightarrow> lock_action list" where
  "walk L body k [] = body k @ [Drop (L k)]"
| "walk L body k (j # js) = body k @ Take Shared (L j) # Drop (L k) # walk L body j js"

definition iterate :: "sharding \<Rightarrow> (nat \<Rightarrow> lock) \<Rightarrow> (nat \<Rightarrow> lock_action list) \<Rightarrow> lock_action list" where
  "iterate sh L body =
     (if hand_over sh
      then (case [0..<shard_count sh] of [] \<Rightarrow> [] | k # ks \<Rightarrow> Take Shared (L k) # walk L body k ks)
      else concat (map (\<lambda>k. with_lock Shared (L k) (body k)) [0..<shard_count sh]))"

section \<open>The locks of each operation\<close>

text \<open>\<open>Connection::send\<close>: the check of the state, and the eviction if the queue is full.\<close>

definition send_locks :: "nat \<Rightarrow> bool \<Rightarrow> lock_action list" where
  "send_locks cell full =
     touch Shared (StateLock cell) @ (if full then touch Exclusive (StateLock cell) else [])"

definition close_locks :: "nat \<Rightarrow> lock_action list" where
  "close_locks cell = touch Exclusive (StateLock cell)"

definition register_locks :: "sharding \<Rightarrow> string \<Rightarrow> lock_action list" where
  "register_locks sh cid =
     touch Exclusive (ConnectionsLock (shard_of sh ConnectionsMap cid)) @ touch Exclusive (IndexLock (shard_of sh IndexMap cid))"

definition create_locks :: "sharding \<Rightarrow> string \<Rightarrow> lock_action list" where
  "create_locks sh rid = touch Exclusive (RoomsLock (shard_of sh RoomsMap rid))"

definition join_locks :: "sharding \<Rightarrow> string \<Rightarrow> string \<Rightarrow> nat option \<Rightarrow> lock_action list" where
  "join_locks sh cid rid joined =
     touch Shared (ConnectionsLock (shard_of sh ConnectionsMap cid)) @
     (case joined of
        None \<Rightarrow> []
      | Some ref \<Rightarrow>
          create_locks sh rid @ touch Exclusive (MembersLock ref (shard_of sh (MembersMap ref) cid)) @
          touch Exclusive (IndexLock (shard_of sh IndexMap cid)))"

text \<open>\<open>rooms.get(..)\<close> with \<open>leave\<close> under its guard, and \<open>rooms.remove_if(.., is_empty)\<close>.\<close>

definition leave_member_locks :: "sharding \<Rightarrow> string \<Rightarrow> string \<Rightarrow> nat option \<Rightarrow> lock_action list" where
  "leave_member_locks sh cid rid found =
     with_lock Shared (RoomsLock (shard_of sh RoomsMap rid))
       (case found of None \<Rightarrow> [] | Some ref \<Rightarrow> touch Exclusive (MembersLock ref (shard_of sh (MembersMap ref) cid)))"

definition remove_if_locks :: "sharding \<Rightarrow> string \<Rightarrow> nat option \<Rightarrow> lock_action list" where
  "remove_if_locks sh rid found =
     with_lock Exclusive (RoomsLock (shard_of sh RoomsMap rid))
       (case found of None \<Rightarrow> [] | Some ref \<Rightarrow> iterate sh (MembersLock ref) (\<lambda>_. []))"

definition leave_locks :: "sharding \<Rightarrow> string \<Rightarrow> string \<Rightarrow> nat option \<Rightarrow> nat option \<Rightarrow> lock_action list" where
  "leave_locks sh cid rid found found' =
     leave_member_locks sh cid rid found @ touch Exclusive (IndexLock (shard_of sh IndexMap cid)) @
     remove_if_locks sh rid found'"

definition unregister_locks ::
  "sharding \<Rightarrow> string \<Rightarrow> (string \<times> nat option \<times> nat option) list \<Rightarrow> lock_action list" where
  "unregister_locks sh cid joined =
     touch Exclusive (IndexLock (shard_of sh IndexMap cid)) @
     concat (map (\<lambda>(rid, found, found'). leave_member_locks sh cid rid found @ remove_if_locks sh rid found') joined) @
     touch Exclusive (ConnectionsLock (shard_of sh ConnectionsMap cid))"

definition delete_locks :: "sharding \<Rightarrow> string \<Rightarrow> (nat \<times> string list) option \<Rightarrow> lock_action list" where
  "delete_locks sh rid found =
     touch Exclusive (RoomsLock (shard_of sh RoomsMap rid)) @
     (case found of
        None \<Rightarrow> []
      | Some (ref, mids) \<Rightarrow>
          iterate sh (MembersLock ref) (\<lambda>_. []) @
          concat (map (\<lambda>mid. touch Exclusive (IndexLock (shard_of sh IndexMap mid))) mids))"

text \<open>A broadcast: \<open>visit\<close> gives the members in each shard, with the cells of those it sends to.\<close>

definition deliver_locks :: "sharding \<Rightarrow> string \<times> (nat \<times> bool) option \<Rightarrow> lock_action list" where
  "deliver_locks sh v =
     with_lock Shared (ConnectionsLock (shard_of sh ConnectionsMap (fst v)))
       (case snd v of None \<Rightarrow> [] | Some (cell, full) \<Rightarrow> send_locks cell full)"

definition broadcast_locks ::
  "sharding \<Rightarrow> string \<Rightarrow> (nat \<times> (nat \<Rightarrow> (string \<times> (nat \<times> bool) option) list)) option \<Rightarrow> lock_action list" where
  "broadcast_locks sh rid found =
     with_lock Shared (RoomsLock (shard_of sh RoomsMap rid))
       (case found of
          None \<Rightarrow> []
        | Some (ref, visit) \<Rightarrow>
            iterate sh (MembersLock ref) (\<lambda>k. concat (map (deliver_locks sh) (visit k))))"

definition broadcast_all_locks :: "sharding \<Rightarrow> (nat \<Rightarrow> (nat \<times> bool) list) \<Rightarrow> lock_action list" where
  "broadcast_all_locks sh visit =
     iterate sh ConnectionsLock (\<lambda>k. concat (map (\<lambda>(cell, full). send_locks cell full) (visit k)))"

text \<open>\<open>get_connection\<close>, \<open>get_room\<close>, the listings and counts, and \<open>for_each_member\<close> with a closure.\<close>

fun map_lock :: "map_name \<Rightarrow> nat \<Rightarrow> lock" where
  "map_lock RoomsMap k = RoomsLock k"
| "map_lock (MembersMap ref) k = MembersLock ref k"
| "map_lock ConnectionsMap k = ConnectionsLock k"
| "map_lock IndexMap k = IndexLock k"

definition lookup_locks :: "sharding \<Rightarrow> map_name \<Rightarrow> string \<Rightarrow> lock_action list" where
  "lookup_locks sh N key = touch Shared (map_lock N (shard_of sh N key))"

definition list_locks :: "sharding \<Rightarrow> (nat \<Rightarrow> lock) \<Rightarrow> lock_action list" where
  "list_locks sh L = iterate sh L (\<lambda>_. [])"

definition visit_locks :: "sharding \<Rightarrow> nat \<Rightarrow> (nat \<Rightarrow> lock_action list) \<Rightarrow> lock_action list" where
  "visit_locks sh ref closure = iterate sh (MembersLock ref) closure"

section \<open>Threads that lock\<close>

text \<open>
  A thread holds locks and has actions left.  A lock is granted if nobody holds it in the way; the
  fair policy lets readers wait for a waiting writer too, as \<open>parking_lot\<close> may do.  An actual lock
  grants at least what \<open>fair\<close> grants and at most what is granted without.
\<close>

type_synonym locker = "(lock_mode \<times> lock) list \<times> lock_action list"

definition grantable :: "bool \<Rightarrow> locker list \<Rightarrow> lock_mode \<Rightarrow> lock \<Rightarrow> bool" where
  "grantable fair ts m l \<longleftrightarrow>
     (\<forall>t \<in> set ts. \<forall>m'. (m', l) \<in> set (fst t) \<longrightarrow> m = Shared \<and> m' = Shared) \<and>
     (fair \<and> m = Shared \<longrightarrow> (\<forall>t \<in> set ts. \<forall>as. snd t \<noteq> Take Exclusive l # as))"

inductive lock_step :: "bool \<Rightarrow> locker list \<Rightarrow> locker list \<Rightarrow> bool" for fair where
  take_lock: "i < length ts \<Longrightarrow> ts ! i = (held, Take m l # as) \<Longrightarrow> grantable fair ts m l \<Longrightarrow>
    lock_step fair ts (ts[i := ((m, l) # held, as)])"
| drop_lock: "i < length ts \<Longrightarrow> ts ! i = (held, Drop l # as) \<Longrightarrow>
    lock_step fair ts (ts[i := (filter (\<lambda>h. snd h \<noteq> l) held, as)])"

inductive_cases lock_stepE: "lock_step fair ts ts'"

section \<open>The order of the locks\<close>

text \<open>Maps in the order rooms, members, connections, index, state; within a map by shard.\<close>

fun rank :: "lock \<Rightarrow> nat \<times> nat" where
  "rank (RoomsLock k) = (0, k)"
| "rank (MembersLock _ k) = (1, k)"
| "rank (ConnectionsLock k) = (2, k)"
| "rank (IndexLock k) = (3, k)"
| "rank (StateLock _) = (4, 0)"

text \<open>
  The locks held after some actions, provided that each lock is taken above all that are held and
  only held locks are dropped.
\<close>

fun after :: "lock list \<Rightarrow> lock_action list \<Rightarrow> lock list option" where
  "after held [] = Some held"
| "after held (Take _ l # as) = (if \<forall>k \<in> set held. rank k < rank l then after (l # held) as else None)"
| "after held (Drop l # as) = (if l \<in> set held then after (filter (\<lambda>k. k \<noteq> l) held) as else None)"

lemma after_append: "after held (as @ bs) = Option.bind (after held as) (\<lambda>h. after h bs)"
  by (induction held as rule: after.induct) simp_all

text \<open>Actions that may run above the rank \<open>r\<close> and leave what was held.\<close>

definition neutral :: "nat \<times> nat \<Rightarrow> lock_action list \<Rightarrow> bool" where
  "neutral r as \<longleftrightarrow> (\<forall>held. (\<forall>k \<in> set held. rank k < r) \<longrightarrow> after held as = Some held)"

lemma neutral_Nil [simp]: "neutral r []"
  by (simp add: neutral_def)

lemma neutral_append [intro]: "neutral r as \<Longrightarrow> neutral r bs \<Longrightarrow> neutral r (as @ bs)"
  by (simp add: neutral_def after_append)

lemma neutral_concat [intro]: "(\<And>x. x \<in> set xs \<Longrightarrow> neutral r (f x)) \<Longrightarrow> neutral r (concat (map f xs))"
  by (induction xs) auto

lemma neutral_mono: "neutral r as \<Longrightarrow> q \<le> r \<Longrightarrow> neutral q as"
  unfolding neutral_def by (meson order_less_le_trans)

lemma neutral_with_lock:
  assumes "r \<le> rank l" "neutral (fst (rank l), Suc (snd (rank l))) body"
  shows "neutral r (with_lock m l body)"
  unfolding neutral_def
proof (intro allI impI)
  fix held assume "\<forall>k \<in> set held. rank k < r"
  then have low: "\<forall>k \<in> set held. rank k < rank l" using assms(1) by (meson order_less_le_trans)
  then have "\<forall>k \<in> set (l # held). rank k < (fst (rank l), Suc (snd (rank l)))"
    by (fastforce simp: less_prod_def)
  then have "after (l # held) body = Some (l # held)" using assms(2) unfolding neutral_def by blast
  moreover have "filter (\<lambda>k. k \<noteq> l) held = held" using low by (auto intro!: filter_True)
  ultimately show "after held (with_lock m l body) = Some held"
    using low by (simp add: with_lock_def after_append)
qed

lemma neutral_walk:
  assumes "\<And>k. rank (L k) = (c, k)" "\<And>k. neutral (c, Suc k) (body k)"
    and "sorted_wrt (<) (k # ks)" "\<forall>j \<in> set held. rank j < (c, 0)"
  shows "after (L k # held) (walk L body k ks) = Some held"
  using assms(3,4)
proof (induction ks arbitrary: k)
  case Nil
  have low: "\<forall>j \<in> set (L k # held). rank j < (c, Suc k)"
    using Nil.prems(2) by (auto simp: assms(1) less_prod_def)
  have "filter (\<lambda>j. j \<noteq> L k) held = held" using Nil.prems(2) by (intro filter_True) (auto simp: assms(1) less_prod_def)
  then show ?case using assms(2) [of k] low by (simp add: neutral_def after_append)
next
  case (Cons j js)
  have low: "\<forall>i \<in> set (L k # held). rank i < (c, Suc k)"
    using Cons.prems(2) by (auto simp: assms(1) less_prod_def)
  have "filter (\<lambda>i. i \<noteq> L k) held = held" using Cons.prems(2) by (intro filter_True) (auto simp: assms(1) less_prod_def)
  moreover have "L j \<noteq> L k" "rank (L k) < rank (L j)"
    using Cons.prems(1) by (auto simp: assms(1) less_prod_def dest: arg_cong [of "L j" "L k" rank])
  moreover have "\<forall>i \<in> set held. rank i < rank (L j)"
    using Cons.prems(2) by (auto simp: assms(1) less_prod_def)
  ultimately show ?case
    using assms(2) [of k] low Cons.IH [of j] Cons.prems by (simp add: neutral_def after_append)
qed

lemma neutral_iterate:
  assumes "\<And>k. rank (L k) = (c, k)" "\<And>k. neutral (c, Suc k) (body k)"
  shows "neutral (c, 0) (iterate sh L body)"
proof (cases "hand_over sh")
  case False
  have "neutral (c, 0) (with_lock Shared (L k) (body k))" for k
    by (rule neutral_with_lock) (use assms in \<open>simp_all add: less_eq_prod_def\<close>)
  then show ?thesis using False by (auto simp: iterate_def)
next
  case True
  have "after held (iterate sh L body) = Some held" if "\<forall>j \<in> set held. rank j < (c, 0)" for held
  proof (cases "shard_count sh")
    case 0
    then show ?thesis using True by (simp add: iterate_def)
  next
    case (Suc n)
    have "[0..<Suc n] = 0 # [1..<Suc n]" by (simp add: upt_conv_Cons)
    moreover have "sorted_wrt (<) (0 # [1..<Suc n])" by (simp add: sorted_wrt_upt del: upt_Suc)
    ultimately show ?thesis
      using neutral_walk [of L c body 0 "[1..<Suc n]" held] assms that True Suc
      by (auto simp: iterate_def assms(1) less_prod_def)
  qed
  then show ?thesis by (simp add: neutral_def)
qed

section \<open>The operations keep the order\<close>

lemmas neutral_simps = less_eq_prod_def less_prod_def

lemma neutral_touch: "r \<le> rank l \<Longrightarrow> neutral r (touch m l)"
  by (rule neutral_with_lock) simp_all

lemma neutral_send: "r \<le> (4, 0) \<Longrightarrow> neutral r (send_locks cell full)"
  unfolding send_locks_def by (intro neutral_append neutral_touch) (auto intro!: neutral_touch)

lemma neutral_leave_member: "neutral (0, 0) (leave_member_locks sh cid rid found)"
  unfolding leave_member_locks_def
  by (intro neutral_with_lock) (auto simp: neutral_simps intro!: neutral_touch split: option.split)

lemma neutral_remove_if: "neutral (0, 0) (remove_if_locks sh rid found)"
proof -
  have "neutral (1, 0) (iterate sh (MembersLock ref) (\<lambda>_. []))" for ref
    by (rule neutral_iterate) simp_all
  then have "neutral (0, Suc k) (iterate sh (MembersLock ref) (\<lambda>_. []))" for ref k
    by (rule neutral_mono) (simp add: neutral_simps)
  then show ?thesis
    unfolding remove_if_locks_def by (intro neutral_with_lock) (auto simp: neutral_simps split: option.split)
qed

lemma neutral_create: "neutral (0, 0) (create_locks sh rid)"
  unfolding create_locks_def by (intro neutral_touch) (simp add: neutral_simps)

lemma neutral_join: "neutral (0, 0) (join_locks sh cid rid joined)"
  unfolding join_locks_def
  by (intro neutral_append) (auto simp: neutral_simps intro!: neutral_append neutral_touch neutral_create split: option.split)

lemma neutral_leave: "neutral (0, 0) (leave_locks sh cid rid found found')"
  unfolding leave_locks_def
  by (intro neutral_append neutral_leave_member neutral_remove_if neutral_touch) (simp add: neutral_simps)

lemma neutral_register: "neutral (0, 0) (register_locks sh cid)"
  unfolding register_locks_def by (intro neutral_append neutral_touch) (simp_all add: neutral_simps)

lemma neutral_unregister: "neutral (0, 0) (unregister_locks sh cid joined)"
  unfolding unregister_locks_def
  by (intro neutral_append neutral_concat neutral_touch)
    (auto simp: neutral_simps intro!: neutral_append neutral_leave_member neutral_remove_if)

lemma neutral_members: "neutral (0, 0) (iterate sh (MembersLock ref) (\<lambda>_. []))"
  by (rule neutral_mono [of "(1, 0)"], rule neutral_iterate) (simp_all add: neutral_simps)

lemma neutral_delete: "neutral (0, 0) (delete_locks sh rid found)"
  unfolding delete_locks_def
  by (intro neutral_append)
    (auto simp: neutral_simps intro!: neutral_touch neutral_append neutral_concat neutral_members split: option.split)

lemma neutral_deliver: "neutral (Suc 0, k) (deliver_locks sh v)"
  unfolding deliver_locks_def
  by (intro neutral_with_lock) (auto simp: neutral_simps intro!: neutral_send split: option.split)

lemma neutral_broadcast: "neutral (0, 0) (broadcast_locks sh rid found)"
proof -
  have "neutral (1, 0) (iterate sh (MembersLock ref) (\<lambda>k. concat (map (deliver_locks sh) (visit k))))" for ref visit
    by (rule neutral_iterate) (auto intro!: neutral_concat neutral_deliver)
  then have "neutral (0, Suc k) (iterate sh (MembersLock ref) (\<lambda>k. concat (map (deliver_locks sh) (visit k))))"
    for ref visit k
    by (rule neutral_mono) (simp add: neutral_simps)
  then show ?thesis
    unfolding broadcast_locks_def by (intro neutral_with_lock) (auto simp: neutral_simps split: option.split)
qed

lemma neutral_broadcast_all: "neutral (0, 0) (broadcast_all_locks sh visit)"
proof -
  have "neutral (2, 0) (broadcast_all_locks sh visit)"
    unfolding broadcast_all_locks_def
    by (rule neutral_iterate) (auto simp: neutral_simps intro!: neutral_concat neutral_send)
  then show ?thesis by (rule neutral_mono) (simp add: neutral_simps)
qed

section \<open>Calls\<close>

text \<open>
  The calls of the public interface; \<open>Visit\<close> is \<open>for_each_member\<close> with a closure that makes calls on
  connections (\<open>send\<close>, \<open>close\<close>, \<open>state\<close>) and looks connections up, as a broadcast does.
\<close>

datatype locking_call =
    RegisterCall string
  | UnregisterCall string "(string \<times> nat option \<times> nat option) list"
  | CreateCall string
  | DeleteCall string "(nat \<times> string list) option"
  | JoinCall string string "nat option"
  | LeaveCall string string "nat option" "nat option"
  | BroadcastCall string "(nat \<times> (nat \<Rightarrow> (string \<times> (nat \<times> bool) option) list)) option"
  | BroadcastAllCall "nat \<Rightarrow> (nat \<times> bool) list"
  | GetConnectionCall string
  | GetRoomCall string
  | ListRoomsCall
  | ListConnectionsCall
  | ListMembersCall nat
  | VisitCall nat "nat \<Rightarrow> (string \<times> (nat \<times> bool) option) list"
  | SendCall nat bool
  | CloseCall nat

fun call_locks :: "sharding \<Rightarrow> locking_call \<Rightarrow> lock_action list" where
  "call_locks sh (RegisterCall cid) = register_locks sh cid"
| "call_locks sh (UnregisterCall cid joined) = unregister_locks sh cid joined"
| "call_locks sh (CreateCall rid) = create_locks sh rid"
| "call_locks sh (DeleteCall rid found) = delete_locks sh rid found"
| "call_locks sh (JoinCall cid rid joined) = join_locks sh cid rid joined"
| "call_locks sh (LeaveCall cid rid found found') = leave_locks sh cid rid found found'"
| "call_locks sh (BroadcastCall rid found) = broadcast_locks sh rid found"
| "call_locks sh (BroadcastAllCall visit) = broadcast_all_locks sh visit"
| "call_locks sh (GetConnectionCall cid) = lookup_locks sh ConnectionsMap cid"
| "call_locks sh (GetRoomCall rid) = lookup_locks sh RoomsMap rid"
| "call_locks sh ListRoomsCall = list_locks sh RoomsLock"
| "call_locks sh ListConnectionsCall = list_locks sh ConnectionsLock"
| "call_locks sh (ListMembersCall ref) = list_locks sh (MembersLock ref)"
| "call_locks sh (VisitCall ref visit) = visit_locks sh ref (\<lambda>k. concat (map (deliver_locks sh) (visit k)))"
| "call_locks sh (SendCall cell full) = send_locks cell full"
| "call_locks sh (CloseCall cell) = close_locks cell"

lemma call_neutral: "neutral (0, 0) (call_locks sh call)"
proof (cases call)
  case (VisitCall ref visit)
  have "neutral (1, 0) (call_locks sh call)"
    unfolding VisitCall call_locks.simps visit_locks_def
    by (rule neutral_iterate) (auto intro!: neutral_concat neutral_deliver)
  then show ?thesis by (rule neutral_mono) (simp add: neutral_simps)
next
  case ListRoomsCall
  have "neutral (0, 0) (iterate sh RoomsLock (\<lambda>_. []))" by (rule neutral_iterate) simp_all
  then show ?thesis by (simp add: ListRoomsCall list_locks_def)
next
  case ListConnectionsCall
  have "neutral (0, 0) (iterate sh ConnectionsLock (\<lambda>_. []))"
    by (rule neutral_mono [of "(2, 0)"], rule neutral_iterate) (simp_all add: neutral_simps)
  then show ?thesis by (simp add: ListConnectionsCall list_locks_def)
qed (auto simp: neutral_simps lookup_locks_def list_locks_def close_locks_def neutral_register neutral_unregister
    neutral_create neutral_delete neutral_join neutral_leave neutral_broadcast neutral_broadcast_all neutral_members
    neutral_send intro!: neutral_touch)

lemma calls_neutral: "neutral (0, 0) (concat (map (call_locks sh) calls))"
  by (intro neutral_concat call_neutral)

section \<open>No deadlock\<close>

definition orderly :: "locker \<Rightarrow> bool" where
  "orderly t \<longleftrightarrow> after (map snd (fst t)) (snd t) = Some []"

lemma orderly_start: "orderly ([], concat (map (call_locks sh) calls))"
  using calls_neutral [of sh calls] by (simp add: orderly_def neutral_def)

lemma filter_snd: "map snd (filter (\<lambda>h. snd h \<noteq> l) held) = filter (\<lambda>k. k \<noteq> l) (map snd held)"
  by (induction held) auto

lemma orderly_take: "orderly (held, Take m l # as) \<Longrightarrow> orderly ((m, l) # held, as)"
  and orderly_drop: "orderly (held, Drop l # as) \<Longrightarrow> orderly (filter (\<lambda>h. snd h \<noteq> l) held, as)"
  by (auto simp: orderly_def filter_snd split: if_splits)

lemma list_all_update: "list_all P ts \<Longrightarrow> P t \<Longrightarrow> list_all P (ts[i := t])"
  by (auto simp: list_all_iff dest: set_update_subset_insert [THEN subsetD])

lemma lock_step_orderly:
  assumes "list_all orderly ts" "lock_step fair ts ts'"
  shows "list_all orderly ts'"
proof -
  have "orderly (held, as)" if "i < length ts" "ts ! i = (held, as)" for i held as
    using assms(1) that by (metis list_all_length)
  then show ?thesis using assms
    by (auto elim!: lock_step.cases intro!: list_all_update orderly_take orderly_drop)
qed

lemma lock_steps_orderly:
  assumes "(lock_step fair)\<^sup>*\<^sup>* ts ts'" "list_all orderly ts"
  shows "list_all orderly ts'"
  using assms by (induction rule: rtranclp_induct) (auto intro: lock_step_orderly)

text \<open>Of the locks the threads wait for, one of the highest rank is free.\<close>

lemma orderly_progress:
  assumes "list_all orderly ts" and "t \<in> set ts" and "snd t \<noteq> []"
  shows "\<exists>ts'. lock_step fair ts ts'"
proof (cases "\<exists>u \<in> set ts. \<exists>l as. snd u = Drop l # as")
  case True
  then obtain i held l as where "i < length ts" "ts ! i = (held, Drop l # as)"
    by (metis in_set_conv_nth prod.collapse)
  then show ?thesis by (blast intro: drop_lock)
next
  case False
  let ?W = "{l. \<exists>u \<in> set ts. \<exists>m as. snd u = Take m l # as}"
  have take: "\<exists>m l as. snd u = Take m l # as" if "u \<in> set ts" "snd u \<noteq> []" for u
    using False that by (metis lock_action.exhaust neq_Nil_conv)
  have "?W \<subseteq> (\<lambda>u. case hd (snd u) of Take m l \<Rightarrow> l | Drop l \<Rightarrow> l) ` set ts"
    by (force simp: image_iff)
  then have "finite ?W" by (rule finite_subset) simp
  moreover have "?W \<noteq> {}" using take [OF assms(2,3)] assms(2) by blast
  ultimately obtain l where l: "l \<in> ?W" and top: "\<And>k. k \<in> ?W \<Longrightarrow> rank k \<le> rank l"
  proof -
    assume W: "finite ?W" "?W \<noteq> {}"
    then have "Max (rank ` ?W) \<in> rank ` ?W" by (intro Max_in) simp_all
    then obtain l where l: "Max (rank ` ?W) = rank l" "l \<in> ?W" by (rule imageE)
    have "rank k \<le> rank l" if "k \<in> ?W" for k
      unfolding l(1) [symmetric] using W(1) that by (intro Max_ge finite_imageI imageI)
    with l(2) show ?thesis by (rule that)
  qed
  have free: "(m, l) \<notin> set (fst u)" if u: "u \<in> set ts" for u m
  proof
    assume held: "(m, l) \<in> set (fst u)"
    have o: "orderly u" using assms(1) u by (simp add: list_all_iff)
    moreover from this held have "snd u \<noteq> []" by (auto simp: orderly_def)
    then obtain m' k as where "snd u = Take m' k # as" using take u by blast
    ultimately have "rank l < rank k" using held by (auto simp: orderly_def split: if_splits)
    moreover have "k \<in> ?W" using u \<open>snd u = Take m' k # as\<close> by blast
    ultimately show False using top by (meson leD)
  qed
  show ?thesis
  proof (cases "\<exists>u \<in> set ts. \<exists>as. snd u = Take Exclusive l # as")
    case True
    then obtain i held as where i: "i < length ts" "ts ! i = (held, Take Exclusive l # as)"
      by (metis in_set_conv_nth prod.collapse)
    have "grantable fair ts Exclusive l" using free by (auto simp: grantable_def)
    with i show ?thesis by (blast intro: take_lock)
  next
    case False
    obtain u m as where "u \<in> set ts" "snd u = Take m l # as" using l by blast
    then obtain i held where i: "i < length ts" "ts ! i = (held, Take m l # as)"
      by (metis in_set_conv_nth prod.collapse)
    have "grantable fair ts m l" using free False by (auto simp: grantable_def)
    with i show ?thesis by (blast intro: take_lock)
  qed
qed

lemma lock_step_terminates: "wf {(ts', ts). lock_step fair ts ts'}"
proof (rule wf_subset)
  let ?m = "\<lambda>ts :: locker list. sum_list (map (length \<circ> snd) ts)"
  show "wf (measure ?m)" by simp
  have "?m (ts[i := t]) < ?m ts" if "i < length ts" "length (snd t) < length (snd (ts ! i))" for ts i and t :: locker
    using that by (induction ts arbitrary: i) (auto split: nat.splits simp: less_Suc_eq_0_disj)
  then show "{(ts', ts). lock_step fair ts ts'} \<subseteq> measure ?m"
    by (auto elim!: lock_step.cases)
qed

text \<open>A run, as the list of the threads that take a turn.\<close>

fun lock_turns :: "bool \<Rightarrow> nat list \<Rightarrow> locker list \<Rightarrow> locker list option" where
  "lock_turns fair [] ts = Some ts"
| "lock_turns fair (i # is) ts =
     (if i < length ts then
        (case ts ! i of
           (held, Take m l # as) \<Rightarrow>
             if grantable fair ts m l then lock_turns fair is (ts[i := ((m, l) # held, as)]) else None
         | (held, Drop l # as) \<Rightarrow> lock_turns fair is (ts[i := (filter (\<lambda>h. snd h \<noteq> l) held, as)])
         | _ \<Rightarrow> None)
      else None)"

lemma lock_turns_steps: "lock_turns fair is ts = Some ts' \<Longrightarrow> (lock_step fair)\<^sup>*\<^sup>* ts ts'"
proof (induction fair "is" ts rule: lock_turns.induct)
  case (1 fair ts)
  then show ?case by simp
next
  case (2 fair i "is" ts)
  obtain held as where t: "ts ! i = (held, as)" by (cases "ts ! i")
  have i: "i < length ts" using 2(3) by (simp split: if_splits)
  show ?case
  proof (cases as)
    case Nil
    then show ?thesis using 2(3) t i by simp
  next
    case (Cons a bs)
    show ?thesis
    proof (cases a)
      case (Take m l)
      then have "grantable fair ts m l" "(lock_step fair)\<^sup>*\<^sup>* (ts[i := ((m, l) # held, bs)]) ts'"
        using 2(1) [OF i t [symmetric] Cons] 2(3) t i Cons by (simp_all split: if_splits)
      moreover from this have "lock_step fair ts (ts[i := ((m, l) # held, bs)])"
        using i t Cons Take by (auto intro: take_lock)
      ultimately show ?thesis by (meson converse_rtranclp_into_rtranclp)
    next
      case (Drop l)
      then have "(lock_step fair)\<^sup>*\<^sup>* (ts[i := (filter (\<lambda>h. snd h \<noteq> l) held, bs)]) ts'"
        using 2(2) [OF i t [symmetric] Cons] 2(3) t i Cons by simp
      moreover have "lock_step fair ts (ts[i := (filter (\<lambda>h. snd h \<noteq> l) held, bs)])"
        using i t Cons Drop by (auto intro: drop_lock)
      ultimately show ?thesis by (meson converse_rtranclp_into_rtranclp)
    qed
  qed
qed

section \<open>Properties\<close>

text \<open>
  C15. The locks of the room manager never deadlock: however many threads make any calls, whatever they
  find, however keys fall into shards, and whether locks prefer writers or not, as long as a thread
  is in a call some thread can go on, and no run goes on for ever.
\<close>

theorem calls_never_deadlock:
  assumes "(lock_step False)\<^sup>*\<^sup>* (map (\<lambda>calls. ([], concat (map (call_locks sh) calls))) threads) ts"
    and "t \<in> set ts" and "snd t \<noteq> []"
  shows "(\<exists>ts'. lock_step fair ts ts') \<and> wf {(ts', ts). lock_step fair ts ts'}"
proof -
  have "list_all orderly (map (\<lambda>calls. ([], concat (map (call_locks sh) calls))) threads)"
    by (simp add: list_all_iff orderly_start)
  then have "list_all orderly ts" using lock_steps_orderly [OF assms(1)] by blast
  then show ?thesis using orderly_progress assms(2,3) lock_step_terminates by blast
qed

text \<open>A broadcast that holds a room, and a connection that is to leave it.\<close>

definition plain_sharding :: sharding where
  "plain_sharding = \<lparr>shard_of = (\<lambda>_. length), shard_count = 2, hand_over = True\<rparr>"

theorem calls_never_deadlock_witness:
  "\<exists>ts ts'. lock_turns False [0, 0] (map (\<lambda>calls. ([], concat (map (call_locks plain_sharding) calls)))
      [[BroadcastCall ''r'' (Some (0, \<lambda>k. if k = 1 then [(''a'', Some (7, False))] else []))],
       [LeaveCall ''a'' ''r'' (Some 0) None]]) = Some ts \<and> lock_step True ts ts'"
proof -
  let ?threads = "[[BroadcastCall ''r'' (Some (0, \<lambda>k. if k = 1 then [(''a'', Some (7, False))] else []))],
       [LeaveCall ''a'' ''r'' (Some 0) None]]"
  let ?start = "map (\<lambda>calls. ([], concat (map (call_locks plain_sharding) calls))) ?threads"
  have "\<exists>ts. lock_turns False [0, 0] ?start = Some ts \<and> snd (hd ts) \<noteq> [] \<and> ts \<noteq> []"
    by (simp add: broadcast_locks_def leave_locks_def leave_member_locks_def with_lock_def iterate_def plain_sharding_def
        grantable_def numeral_2_eq_2)
  then obtain ts where ts: "lock_turns False [0, 0] ?start = Some ts" "snd (hd ts) \<noteq> []" "ts \<noteq> []" by blast
  from calls_never_deadlock [OF lock_turns_steps [OF ts(1)] _ ts(2), of True] ts show ?thesis by auto
qed

text \<open>
  C37. A closure given to \<open>for_each_member\<close> may not touch the other maps freely: if it makes a connection
  leave another room in the same shard while a member of the visited room leaves that, both calls can
  wait for each other for ever, with any policy of granting locks.
\<close>

theorem visitor_can_deadlock:
  assumes "shard_of sh RoomsMap r1 = shard_of sh RoomsMap r2" and "shard_of sh (MembersMap ref1) a = 0" and "0 < shard_count sh" and "ref1 \<noteq> ref2"
  shows "\<exists>ts. (lock_step True)\<^sup>*\<^sup>*
      [([], visit_locks sh ref1 (\<lambda>k. if k = 0 then leave_locks sh b r2 (Some ref2) (Some ref2) else [])),
       ([], leave_locks sh a r1 (Some ref1) (Some ref1))] ts \<and>
    list_all (\<lambda>t. snd t \<noteq> []) ts \<and> (\<nexists>ts'. lock_step False ts ts')"
proof -
  let ?start = "[([], visit_locks sh ref1 (\<lambda>k. if k = 0 then leave_locks sh b r2 (Some ref2) (Some ref2) else [])),
       ([], leave_locks sh a r1 (Some ref1) (Some ref1))]"
  let ?s = "shard_of sh RoomsMap r2"
  obtain n where n: "shard_count sh = Suc n" using assms(3) by (cases "shard_count sh") auto
  have upt: "[0..<Suc n] = 0 # [1..<Suc n]" by (simp add: upt_conv_Cons)
  obtain rest where rest: "visit_locks sh ref1 (\<lambda>k. if k = 0 then leave_locks sh b r2 (Some ref2) (Some ref2) else []) =
      Take Shared (MembersLock ref1 0) # leave_locks sh b r2 (Some ref2) (Some ref2) @ rest"
    unfolding visit_locks_def iterate_def n upt
    by (cases "hand_over sh"; cases "[1..<Suc n]") (simp_all add: with_lock_def)
  obtain as bs where "lock_turns True [0, 1, 0, 0, 0, 0, 0, 0] ?start =
      Some [([(Shared, MembersLock ref1 0)], Take Exclusive (RoomsLock ?s) # as),
            ([(Shared, RoomsLock ?s)], Take Exclusive (MembersLock ref1 0) # bs)]"
    unfolding rest using assms
    by (simp add: leave_locks_def leave_member_locks_def remove_if_locks_def with_lock_def grantable_def)
  moreover have "\<nexists>ts'. lock_step False [([(Shared, MembersLock ref1 0)], Take Exclusive (RoomsLock ?s) # as),
            ([(Shared, RoomsLock ?s)], Take Exclusive (MembersLock ref1 0) # bs)] ts'"
    by (auto elim!: lock_step.cases simp: grantable_def less_Suc_eq numeral_2_eq_2)
  ultimately show ?thesis by (fastforce dest: lock_turns_steps)
qed

theorem visitor_can_deadlock_witness:
  "\<exists>ts. (lock_step True)\<^sup>*\<^sup>*
      [([], visit_locks (plain_sharding\<lparr>shard_of := \<lambda>_ _. 0\<rparr>) 0
         (\<lambda>k. if k = 0 then leave_locks (plain_sharding\<lparr>shard_of := \<lambda>_ _. 0\<rparr>) ''b'' ''q'' (Some 1) (Some 1) else [])),
       ([], leave_locks (plain_sharding\<lparr>shard_of := \<lambda>_ _. 0\<rparr>) ''a'' ''r'' (Some 0) (Some 0))] ts \<and>
    (\<nexists>ts'. lock_step False ts ts')"
  using visitor_can_deadlock [where sh = "plain_sharding\<lparr>shard_of := \<lambda>_ _. 0\<rparr>" and ?r1.0 = "''r''" and ?r2.0 = "''q''"
      and a = "''a''" and b = "''b''" and ?ref1.0 = 0 and ?ref2.0 = 1]
  by (auto simp: plain_sharding_def)

end
