(* ===== verification/Ws_Broadcast.thy ===== *)
theory Ws_Broadcast imports Ws_Races Ws_Send_Races Ws_Locks begin

text \<open>
  The broadcasts of \<open>room.rs\<close> while everything else goes on: the room manager's other operations,
  other broadcasts, sends and closes on single connections, and the writers that empty the queues.

  A broadcast iterates over a \<open>DashMap\<close> shard by shard: it takes the lock of a shard, visits the keys
  it finds there and goes on to the next shard.  What the others do to a shard before or after that
  they may do freely.  The locks are left out here: without them a shard may change even while its
  keys are being visited, so that every run of the code is a run of this model, and what holds of
  all runs of the model holds of the code.
\<close>

section \<open>A broadcast, one access at a time\<close>

text \<open>\<open>broadcast_all\<close>, and \<open>broadcast_to_room\<close> and \<open>broadcast_to_room_except\<close> as one.\<close>

datatype target = Everyone | InRoom string "string option"

text \<open>The map that is iterated: that of the connections, or that of a room's members.\<close>

datatype source = AllConnections | MembersOf nat "string option"

text \<open>
  A broadcast under way: the shards it has yet to visit, the ids left of the one it is at, and what
  it has sent so far, with the results; \<open>sent_count\<close> is the number of good ones.
\<close>

record cast =
  cast_source :: source
  cast_msg :: message
  cast_shards :: "nat list"
  cast_ids :: "string list"
  cast_log :: "(connection \<times> bool) list"

datatype caster =
    Lookup target message
  | Casting cast
  | Sending cast connection sender
  | CastFailed string
  | CastDone message "(connection \<times> bool) list"

definition sent_count :: "(connection \<times> bool) list \<Rightarrow> nat" where
  "sent_count log = length (filter snd log)"

fun source_ids :: "source \<Rightarrow> ('ch, 'nt, 'z) world_scheme \<Rightarrow> string set" where
  "source_ids AllConnections w = dom (connections w)"
| "source_ids (MembersOf ref _) w = members (room_heap w ref)"

fun source_map :: "source \<Rightarrow> map_name" where
  "source_map AllConnections = ConnectionsMap"
| "source_map (MembersOf ref _) = MembersMap ref"

fun source_skips :: "source \<Rightarrow> string \<Rightarrow> bool" where
  "source_skips AllConnections cid = False"
| "source_skips (MembersOf _ ex) cid = (ex = Some cid)"

definition cast_start :: "sharding \<Rightarrow> source \<Rightarrow> message \<Rightarrow> cast" where
  "cast_start sh src m =
     \<lparr>cast_source = src, cast_msg = m, cast_shards = [0..<shard_count sh], cast_ids = [], cast_log = []\<rparr>"

text \<open>An access to the cell of a connection.\<close>

definition at_cell ::
  "nat \<Rightarrow> (('ch, 'nt) cell \<Rightarrow> 'a \<times> ('ch, 'nt) cell) \<Rightarrow> ('ch, 'nt, 'z) world_scheme
     \<Rightarrow> 'a \<times> ('ch, 'nt, 'z) world_scheme" where
  "at_cell ref f w = (let (x, cl) = f (cells w ref) in (x, w\<lparr>cells := (cells w)(ref := cl)\<rparr>))"

fun after_access :: "cast \<Rightarrow> connection \<Rightarrow> sender \<Rightarrow> caster" where
  "after_access k c (SenderDone r) = Casting (k\<lparr>cast_log := cast_log k @ [(c, r \<noteq> None)]\<rparr>)"
| "after_access k c s = Sending k c s"

fun cast_step ::
  "('ch, 'nt) runtime \<Rightarrow> sharding \<Rightarrow> iteration \<Rightarrow> caster \<Rightarrow> ('ch, 'nt, 'z) world_scheme
     \<Rightarrow> caster \<times> ('ch, 'nt, 'z) world_scheme" where
  "cast_step rt sh iter (Lookup Everyone m) w = (Casting (cast_start sh AllConnections m), w)"
| "cast_step rt sh iter (Lookup (InRoom rid ex) m) w =
     (case rooms w rid of
        None \<Rightarrow> (CastFailed rid, w)
      | Some ref \<Rightarrow> (Casting (cast_start sh (MembersOf ref ex) m), w))"
| "cast_step rt sh iter (Casting k) w =
     (case cast_ids k of
        cid # ids \<Rightarrow>
          (if source_skips (cast_source k) cid then Casting (k\<lparr>cast_ids := ids\<rparr>)
           else
             (case connections w cid of
                None \<Rightarrow> Casting (k\<lparr>cast_ids := ids\<rparr>)
              | Some c \<Rightarrow> Sending (k\<lparr>cast_ids := ids\<rparr>) c (SendCheck (cast_msg k))), w)
      | [] \<Rightarrow>
          (case cast_shards k of
             [] \<Rightarrow> CastDone (cast_msg k) (cast_log k)
           | j # js \<Rightarrow>
               Casting (k\<lparr>cast_shards := js,
                 cast_ids := iter {cid \<in> source_ids (cast_source k) w.
                   shard_of sh (source_map (cast_source k)) cid = j}\<rparr>), w))"
| "cast_step rt sh iter (Sending k c s) w =
     (let (s', w') = at_cell (conn_cell c) (sender_step rt s) w in (after_access k c s', w'))"
| "cast_step rt sh iter (CastFailed rid) w = (CastFailed rid, w)"
| "cast_step rt sh iter (CastDone m log) w = (CastDone m log, w)"

fun cast_done :: "caster \<Rightarrow> bool" where
  "cast_done (CastFailed _) = True"
| "cast_done (CastDone _ _) = True"
| "cast_done _ = False"

section \<open>Everything that goes on\<close>

datatype actor =
    Caller thread
  | Caster caster
  | Sender nat sender
  | Receiver nat "message list"

fun receive ::
  "('ch, 'nt) runtime \<Rightarrow> message list \<Rightarrow> ('ch, 'nt) cell \<Rightarrow> message list \<times> ('ch, 'nt) cell" where
  "receive rt got cl =
     (case cell_recv rt cl of None \<Rightarrow> (got, cl) | Some (m, cl') \<Rightarrow> (got @ [m], cl'))"

fun actor_step ::
  "('ch, 'nt) runtime \<Rightarrow> sharding \<Rightarrow> iteration \<Rightarrow> actor \<Rightarrow> ('ch, 'nt, 'z) world_scheme
     \<Rightarrow> actor \<times> ('ch, 'nt, 'z) world_scheme" where
  "actor_step rt sh iter (Caller t) w = map_prod Caller id (thread_step iter t w)"
| "actor_step rt sh iter (Caster c) w = map_prod Caster id (cast_step rt sh iter c w)"
| "actor_step rt sh iter (Sender ref s) w = map_prod (Sender ref) id (at_cell ref (sender_step rt s) w)"
| "actor_step rt sh iter (Receiver ref got) w = map_prod (Receiver ref) id (at_cell ref (receive rt got) w)"

fun actor_done :: "actor \<Rightarrow> bool" where
  "actor_done (Caller t) = is_finished t"
| "actor_done (Caster c) = cast_done c"
| "actor_done (Sender _ s) = sender_done s"
| "actor_done (Receiver _ _) = False"

text \<open>Calls that have not begun.\<close>

fun thread_call :: "thread \<Rightarrow> bool" where
  "thread_call (RegConnection _) = True"
| "thread_call (CreateOnly _) = True"
| "thread_call (DeleteTake _) = True"
| "thread_call (JoinCheck _ _) = True"
| "thread_call (LeaveMember _ _) = True"
| "thread_call (UnregTake _) = True"
| "thread_call _ = False"

fun actor_call :: "actor \<Rightarrow> bool" where
  "actor_call (Caller t) = thread_call t"
| "actor_call (Caster (Lookup _ _)) = True"
| "actor_call (Caster _) = False"
| "actor_call (Sender _ s) = sender_call s"
| "actor_call (Receiver _ got) = (got = [])"

section \<open>Whom a broadcast may reach, and whom it must\<close>

text \<open>
  Of the connections that were there when the calls began, and of those the calls add: nobody else can
  be reached, and those no call takes away are.
\<close>

definition joiners :: "actor list \<Rightarrow> string \<Rightarrow> string set" where
  "joiners calls rid = {cid. Caller (JoinCheck cid rid) \<in> set calls}"

definition known_conns :: "actor list \<Rightarrow> ('ch, 'nt, 'z) world_scheme \<Rightarrow> connection set" where
  "known_conns calls w = ran (connections w) \<union> {c. Caller (RegConnection c) \<in> set calls}"

fun may_reach :: "actor list \<Rightarrow> ('ch, 'nt, 'z) world_scheme \<Rightarrow> target \<Rightarrow> string set" where
  "may_reach calls w Everyone = conn_id ` known_conns calls w"
| "may_reach calls w (InRoom rid ex) = {cid \<in> members_of w rid \<union> joiners calls rid. ex \<noteq> Some cid}"

definition staying :: "actor list \<Rightarrow> ('ch, 'nt, 'z) world_scheme \<Rightarrow> string set" where
  "staying calls w = {cid \<in> dom (connections w). Caller (UnregTake cid) \<notin> set calls}"

definition staying_in :: "actor list \<Rightarrow> ('ch, 'nt, 'z) world_scheme \<Rightarrow> string \<Rightarrow> string set" where
  "staying_in calls w rid =
     (if Caller (DeleteTake rid) \<in> set calls then {}
      else {cid \<in> staying calls w \<inter> members_of w rid. Caller (LeaveMember cid rid) \<notin> set calls})"

fun must_reach :: "actor list \<Rightarrow> ('ch, 'nt, 'z) world_scheme \<Rightarrow> target \<Rightarrow> string set" where
  "must_reach calls w Everyone = staying calls w"
| "must_reach calls w (InRoom rid ex) = {cid \<in> staying_in calls w rid. ex \<noteq> Some cid}"

section \<open>The calls of the room manager\<close>

text \<open>The call that a thread is in; what is irrelevant below has none.\<close>

fun call_of :: "thread \<Rightarrow> thread option" where
  "call_of (JoinCreate cid rid) = Some (JoinCheck cid rid)"
| "call_of (JoinMember cid rid _) = Some (JoinCheck cid rid)"
| "call_of (UnregLeave cid _ _) = Some (UnregTake cid)"
| "call_of (UnregRemove cid _ _) = Some (UnregTake cid)"
| "call_of (UnregConnection cid) = Some (UnregTake cid)"
| "call_of t = (if thread_call t then Some t else None)"

lemma call_of_next [simp]:
  "call_of (unreg_next cid rids) = Some (UnregTake cid)" "call_of (delete_next rid mids) = None"
  by (cases rids; simp) (cases mids; simp)

lemma call_of_step:
  assumes "thread_step iter t w = (t', w')"
  shows "call_of t' = None \<or> call_of t' = call_of t"
  using assms by (cases t) (auto simp: case_prod_unfold Let_def split: option.splits if_splits)

definition caller_ok :: "actor list \<Rightarrow> thread \<Rightarrow> ('ch, 'nt, 'z) world_scheme \<Rightarrow> bool" where
  "caller_ok calls t w \<longleftrightarrow> ref_ok w t \<and> (\<forall>t0. call_of t = Some t0 \<longrightarrow> Caller t0 \<in> set calls)"

text \<open>What holds of the room manager at every moment.\<close>

definition scene ::
  "actor list \<Rightarrow> ('ch, 'nt, 'z) world_scheme \<Rightarrow> ('ch, 'nt, 'z) world_scheme \<Rightarrow> bool" where
  "scene calls w0 w \<longleftrightarrow>
     heap_ok w \<and> finite (dom (connections w)) \<and>
     (\<forall>cid c. connections w cid = Some c \<longrightarrow> conn_id c = cid \<and> c \<in> known_conns calls w0) \<and>
     (\<forall>rid. finite (members_of w rid) \<and> members_of w rid \<subseteq> members_of w0 rid \<union> joiners calls rid) \<and>
     staying calls w0 \<subseteq> dom (connections w) \<and>
     (\<forall>rid. staying_in calls w0 rid \<noteq> {} \<longrightarrow>
        rooms w rid = rooms w0 rid \<and> staying_in calls w0 rid \<subseteq> members_of w rid)"

text \<open>What a broadcast that holds a room may rely on from the others.\<close>

definition grows :: "actor list \<Rightarrow> ('ch, 'nt, 'z) world_scheme \<Rightarrow> ('ch, 'nt, 'z) world_scheme \<Rightarrow> bool" where
  "grows calls w w' \<longleftrightarrow> heap_growing w w' \<and>
     (\<forall>ref < next_room w. members (room_heap w' ref)
        \<subseteq> members (room_heap w ref) \<union> joiners calls (room_id (room_heap w ref)) \<and>
        (finite (members (room_heap w ref)) \<longrightarrow> finite (members (room_heap w' ref))))"

lemma caller_grows:
  assumes "heap_ok w" "caller_ok calls t w" "thread_step iter t w = (t', w')"
  shows "heap_ok w' \<and> grows calls w w' \<and> caller_ok calls t' w'"
proof -
  have S: "heap_ok w' \<and> heap_growing w w' \<and> ref_ok w' t'"
    using thread_step_heap [OF assms(1) _ assms(3)] assms(2) by (simp add: caller_ok_def)
  moreover have "caller_ok calls t' w'"
    using call_of_step [OF assms(3)] assms(2) S by (auto simp: caller_ok_def)
  moreover have "members (room_heap w' ref) \<subseteq> members (room_heap w ref) \<union> joiners calls (room_id (room_heap w ref)) \<and>
      (finite (members (room_heap w ref)) \<longrightarrow> finite (members (room_heap w' ref)))"
    if "ref < next_room w" for ref
    using that assms(2,3)
    by (cases t) (auto simp: caller_ok_def joiners_def create_room_def leave_if_present_def room_leave_def
        room_join_def Let_def split: option.splits if_splits)
  ultimately show ?thesis by (simp add: grows_def)
qed

text \<open>A room keeps its place as long as somebody stays in it; its members join or were there.\<close>

lemma rooms_remove_kept: "members_of w rid \<noteq> {} \<Longrightarrow> rooms (remove_room_if_empty q w) rid = rooms w rid"
  by (auto simp: remove_room_if_empty_def members_of_def room_is_empty_def split: option.split)

lemma caller_stays:
  assumes "heap_ok w" "caller_ok calls t w" "thread_step iter t w = (t', w')"
    and "Caller (DeleteTake rid) \<notin> set calls" "Caller (LeaveMember cid rid) \<notin> set calls"
    and "Caller (UnregTake cid) \<notin> set calls" "cid \<in> members_of w rid"
  shows "rooms w' rid = rooms w rid \<and> cid \<in> members_of w' rid"
proof -
  have in_room: "rooms w rid \<noteq> None" using assms(7) by (auto simp: members_of_def split: option.splits)
  have created: "rooms (snd (create_room q w)) rid = rooms w rid" for q
    using in_room by (auto simp: create_room_def split: option.split)
  have call: "call_of t = Some t0 \<Longrightarrow> Caller t0 \<in> set calls" for t0
    using assms(2) by (simp add: caller_ok_def)
  show ?thesis
  proof (cases t)
    case (JoinMember c r ref)
    have "cid \<in> members_of (update_room ref (room_join c) w) rid"
      using assms(7) by (auto simp: members_of_def room_join_def split: option.splits)
    then show ?thesis using assms(3) JoinMember by auto
  next
    case (CreateOnly q)
    then have "w' = snd (create_room q w)" using assms(3) by simp
    then show ?thesis using assms(7) create_room_spec(2) [OF assms(1), of q] created by simp
  next
    case (JoinCreate c q)
    then have "w' = snd (create_room q w)" using assms(3) by (simp add: case_prod_unfold Let_def)
    then show ?thesis using assms(7) create_room_spec(2) [OF assms(1), of q] created by simp
  next
    case (LeaveMember c q)
    then have "w' = leave_if_present c q w" "Caller (LeaveMember c q) \<in> set calls" using assms(3) call [of "LeaveMember c q"] by auto
    then show ?thesis using assms(5,7) members_of_leave [OF assms(1), of c q rid] by auto
  next
    case (UnregLeave c q qs)
    then have "w' = leave_if_present c q w" "Caller (UnregTake c) \<in> set calls" using assms(3) call [of "UnregTake c"] by auto
    then show ?thesis using assms(6,7) members_of_leave [OF assms(1), of c q rid] by auto
  next
    case (LeaveRemove c q)
    then show ?thesis using assms(3,7) rooms_remove_kept [of w rid q] by auto
  next
    case (UnregRemove c q qs)
    then show ?thesis using assms(3,7) rooms_remove_kept [of w rid q] by auto
  next
    case (DeleteTake q)
    then show ?thesis using assms(3,4,7) call [of "DeleteTake q"]
      by (auto simp: members_of_def split: option.splits if_splits)
  qed (use assms(3,7) in \<open>auto split: option.splits\<close>)
qed

lemma caller_members:
  assumes "heap_ok w" "caller_ok calls t w" "thread_step iter t w = (t', w')"
  shows "members_of w' rid \<subseteq> members_of w rid \<union> joiners calls rid \<and>
    (finite (members_of w rid) \<longrightarrow> finite (members_of w' rid))"
proof (cases t)
  case (CreateOnly q)
  then show ?thesis using assms(3) create_room_spec(2) [OF assms(1), of q] by auto
next
  case (JoinCreate c q)
  then show ?thesis using assms(3) create_room_spec(2) [OF assms(1), of q] by (auto simp: case_prod_unfold Let_def)
next
  case (JoinMember c q ref)
  then have "c \<in> joiners calls q" "room_id (room_heap w ref) = q"
    using assms(2) by (simp_all add: caller_ok_def joiners_def)
  then show ?thesis using assms(1,3) JoinMember
    by (auto simp: members_of_def heap_ok_def room_join_def split: option.splits if_splits)
next
  case (DeleteTake q)
  then show ?thesis using assms(3) by (auto simp: members_of_def split: option.splits if_splits)
qed (use assms(3) in \<open>auto simp: members_of_leave [OF assms(1)] split: option.splits if_splits\<close>)

lemma caller_connections:
  assumes "thread_step iter t w = (t', w')" "caller_ok calls t w" "connections w' cid \<noteq> connections w cid"
  shows "(\<exists>c. Caller (RegConnection c) \<in> set calls \<and> connections w' = (connections w)(conn_id c \<mapsto> c)) \<or>
    Caller (UnregTake cid) \<in> set calls \<and> connections w' = (connections w)(cid := None)"
  using assms by (cases t)
    (auto simp: caller_ok_def case_prod_unfold Let_def create_room_def split: option.splits if_splits)

lemma caller_scene:
  assumes S: "scene calls w0 w" and C: "caller_ok calls t w" and step: "thread_step iter t w = (t', w')"
  shows "scene calls w0 w'"
proof -
  have heap: "heap_ok w" using S by (simp add: scene_def)
  note stays = caller_stays [OF heap C step] and mem = caller_members [OF heap C step]
  have heap': "heap_ok w'" using caller_grows [OF heap C step] by simp
  have conn: "connections w' = connections w \<or>
      (\<exists>c. Caller (RegConnection c) \<in> set calls \<and> connections w' = (connections w)(conn_id c \<mapsto> c)) \<or>
      (\<exists>cid. Caller (UnregTake cid) \<in> set calls \<and> connections w' = (connections w)(cid := None))"
    using caller_connections [OF step C] by blast
  have "conn_id c = cid \<and> c \<in> known_conns calls w0" if "connections w' cid = Some c" for cid c
  proof -
    have "Caller (RegConnection d) \<in> set calls \<Longrightarrow> d \<in> known_conns calls w0" for d by (simp add: known_conns_def)
    moreover have "connections w cid = Some c \<Longrightarrow> conn_id c = cid \<and> c \<in> known_conns calls w0"
      using S by (simp add: scene_def)
    ultimately show ?thesis using conn that by (auto split: if_splits)
  qed
  moreover have "finite (dom (connections w'))" "staying calls w0 \<subseteq> dom (connections w')"
    using S conn by (auto simp: scene_def staying_def)
  moreover have "finite (members_of w' rid) \<and> members_of w' rid \<subseteq> members_of w0 rid \<union> joiners calls rid" for rid
    using S mem [of rid] unfolding scene_def by blast
  moreover have "rooms w' rid = rooms w0 rid \<and> staying_in calls w0 rid \<subseteq> members_of w' rid"
    if "staying_in calls w0 rid \<noteq> {}" for rid
  proof -
    have old: "rooms w rid = rooms w0 rid" "staying_in calls w0 rid \<subseteq> members_of w rid"
      using S that by (simp_all add: scene_def)
    have "rooms w' rid = rooms w rid \<and> cid \<in> members_of w' rid" if "cid \<in> staying_in calls w0 rid" for cid
      using that old(2) by (intro stays) (auto simp: staying_in_def staying_def split: if_splits)
    then show ?thesis using that old by auto
  qed
  ultimately show ?thesis using heap' unfolding scene_def by blast
qed

section \<open>The course of a broadcast\<close>

abbreviation log_ids :: "(connection \<times> bool) list \<Rightarrow> string list" where
  "log_ids log \<equiv> map (conn_id \<circ> fst) log"

fun source_ok ::
  "actor list \<Rightarrow> ('ch, 'nt, 'z) world_scheme \<Rightarrow> target \<Rightarrow> source \<Rightarrow> ('ch, 'nt, 'z) world_scheme \<Rightarrow> bool" where
  "source_ok calls w0 Everyone src w = (src = AllConnections)"
| "source_ok calls w0 (InRoom rid ex) src w =
     (\<exists>ref. src = MembersOf ref ex \<and> ref < next_room w \<and> room_id (room_heap w ref) = rid \<and>
        finite (members (room_heap w ref)) \<and>
        members (room_heap w ref) \<subseteq> members_of w0 rid \<union> joiners calls rid \<and>
        (staying_in calls w0 rid \<noteq> {} \<longrightarrow> rooms w0 rid = Some ref))"

text \<open>
  What has been sent, what is being sent (\<open>cur\<close>) and what is left of the shard are different ids, none
  from a shard that is yet to come; and who must be reached is among them or in a shard to come.
\<close>

definition cast_ok ::
  "sharding \<Rightarrow> actor list \<Rightarrow> ('ch, 'nt, 'z) world_scheme \<Rightarrow> target \<Rightarrow> message
     \<Rightarrow> cast \<Rightarrow> connection list \<Rightarrow> ('ch, 'nt, 'z) world_scheme \<Rightarrow> bool" where
  "cast_ok sh calls w0 T m k cur w \<longleftrightarrow>
     cast_msg k = m \<and> source_ok calls w0 T (cast_source k) w \<and> distinct (cast_shards k) \<and>
     distinct (log_ids (cast_log k) @ map conn_id cur @ cast_ids k) \<and>
     (\<forall>cid \<in> set (log_ids (cast_log k) @ map conn_id cur @ cast_ids k).
        shard_of sh (source_map (cast_source k)) cid \<notin> set (cast_shards k)) \<and>
     (\<forall>cid \<in> set (log_ids (cast_log k) @ map conn_id cur). cid \<in> may_reach calls w0 T) \<and>
     fst ` set (cast_log k) \<union> set cur \<subseteq> known_conns calls w0 \<and>
     (\<forall>cid \<in> set (cast_ids k). \<not> source_skips (cast_source k) cid \<longrightarrow> cid \<in> may_reach calls w0 T) \<and>
     (\<forall>cid \<in> must_reach calls w0 T. shard_of sh (source_map (cast_source k)) cid \<in> set (cast_shards k) \<or>
        cid \<in> set (log_ids (cast_log k) @ map conn_id cur @ cast_ids k))"

fun caster_ok ::
  "sharding \<Rightarrow> actor list \<Rightarrow> ('ch, 'nt, 'z) world_scheme \<Rightarrow> target \<Rightarrow> message
     \<Rightarrow> caster \<Rightarrow> ('ch, 'nt, 'z) world_scheme \<Rightarrow> bool" where
  "caster_ok sh calls w0 T m (Lookup T' m') w = (T' = T \<and> m' = m)"
| "caster_ok sh calls w0 T m (Casting k) w = cast_ok sh calls w0 T m k [] w"
| "caster_ok sh calls w0 T m (Sending k c s) w =
     (cast_ok sh calls w0 T m k [c] w \<and> \<not> sender_done s)"
| "caster_ok sh calls w0 T m (CastFailed rid) w = (must_reach calls w0 T = {} \<and> (\<exists>ex. T = InRoom rid ex))"
| "caster_ok sh calls w0 T m (CastDone m' log) w =
     (m' = m \<and> distinct (log_ids log) \<and> set (log_ids log) \<subseteq> may_reach calls w0 T \<and>
      must_reach calls w0 T \<subseteq> set (log_ids log) \<and> fst ` set log \<subseteq> known_conns calls w0)"

lemma caster_ok_stable:
  assumes "caster_ok sh calls w0 T m c w" "grows calls w w'"
  shows "caster_ok sh calls w0 T m c w'"
proof -
  have "source_ok calls w0 T src w'" if "source_ok calls w0 T src w" for src
    using that assms(2) by (cases T) (force simp: grows_def heap_growing_def)+
  then show ?thesis using assms(1) by (cases c) (simp_all add: cast_ok_def)
qed

lemma cells_frame [simp]:
  "members_of (w\<lparr>cells := f\<rparr>) = members_of w" "heap_ok (w\<lparr>cells := f\<rparr>) = heap_ok w"
  "scene calls w0 (w\<lparr>cells := f\<rparr>) = scene calls w0 w" "grows calls w (w\<lparr>cells := f\<rparr>)"
proof -
  show m: "members_of (w\<lparr>cells := f\<rparr>) = members_of w" by (intro ext members_of_cong) simp_all
  show h: "heap_ok (w\<lparr>cells := f\<rparr>) = heap_ok w" by (simp add: heap_ok_def)
  show "scene calls w0 (w\<lparr>cells := f\<rparr>) = scene calls w0 w" by (simp add: scene_def m h)
  show "grows calls w (w\<lparr>cells := f\<rparr>)" by (simp add: grows_def heap_growing_def)
qed

lemma source_scene:
  assumes S: "scene calls w0 w" and src: "source_ok calls w0 T src w"
  shows "finite (source_ids src w)" and "must_reach calls w0 T \<subseteq> source_ids src w \<inter> dom (connections w)"
    and "cid \<in> source_ids src w \<Longrightarrow> \<not> source_skips src cid \<Longrightarrow> cid \<in> may_reach calls w0 T"
    and "cid \<in> must_reach calls w0 T \<Longrightarrow> \<not> source_skips src cid"
proof -
  have "finite (source_ids src w) \<and> must_reach calls w0 T \<subseteq> source_ids src w \<inter> dom (connections w) \<and>
    (\<forall>cid \<in> source_ids src w. \<not> source_skips src cid \<longrightarrow> cid \<in> may_reach calls w0 T) \<and>
    (\<forall>cid \<in> must_reach calls w0 T. \<not> source_skips src cid)"
  proof (cases T)
    case Everyone
    then have "src = AllConnections" using src by simp
    moreover have "cid \<in> conn_id ` known_conns calls w0" if "connections w cid = Some c" for cid c
      using S that unfolding scene_def by (metis image_eqI)
    ultimately show ?thesis using S Everyone by (auto simp: scene_def)
  next
    case (InRoom rid ex)
    then obtain ref where ref: "src = MembersOf ref ex" "finite (members (room_heap w ref))"
      "members (room_heap w ref) \<subseteq> members_of w0 rid \<union> joiners calls rid"
      "staying_in calls w0 rid \<noteq> {} \<longrightarrow> rooms w0 rid = Some ref"
      using src by auto
    have "staying_in calls w0 rid \<subseteq> members (room_heap w ref) \<inter> dom (connections w)"
    proof (cases "staying_in calls w0 rid = {}")
      case False
      then have "staying_in calls w0 rid \<subseteq> members_of w rid" "rooms w rid = Some ref"
        using S ref(4) by (simp_all add: scene_def)
      moreover have "staying_in calls w0 rid \<subseteq> dom (connections w)"
        using S by (auto simp: scene_def staying_in_def split: if_splits)
      ultimately show ?thesis by (simp add: members_of_def)
    qed simp
    then show ?thesis using ref(1-3) InRoom by auto
  qed
  then show "finite (source_ids src w)" "must_reach calls w0 T \<subseteq> source_ids src w \<inter> dom (connections w)"
    "cid \<in> source_ids src w \<Longrightarrow> \<not> source_skips src cid \<Longrightarrow> cid \<in> may_reach calls w0 T"
    "cid \<in> must_reach calls w0 T \<Longrightarrow> \<not> source_skips src cid" by blast+
qed

text \<open>The four kinds of steps: the start, the next shard, the next id, and an access of a send.\<close>

lemma cast_start_ok:
  assumes "source_ok calls w0 T src w" "\<forall>N cid. shard_of sh N cid < shard_count sh"
  shows "cast_ok sh calls w0 T m (cast_start sh src m) [] w"
  using assms by (simp add: cast_ok_def cast_start_def)

lemma lookup_ok:
  assumes S: "scene calls w0 w" and shards: "\<forall>N cid. shard_of sh N cid < shard_count sh"
  shows "caster_ok sh calls w0 T m (fst (cast_step rt sh iter (Lookup T m) w)) w"
proof (cases T)
  case Everyone
  then show ?thesis using cast_start_ok [OF _ shards, of calls w0 T AllConnections w m] by simp
next
  case (InRoom rid ex)
  show ?thesis
  proof (cases "rooms w rid")
    case None
    then have "staying_in calls w0 rid = {}"
      using S by (auto simp: scene_def members_of_def)
    then show ?thesis using InRoom None by simp
  next
    case (Some ref)
    have "ref < next_room w \<and> room_id (room_heap w ref) = rid" using S Some by (simp add: scene_def heap_ok_def)
    moreover have "finite (members (room_heap w ref)) \<and>
        members (room_heap w ref) \<subseteq> members_of w0 rid \<union> joiners calls rid"
      using S Some unfolding scene_def members_of_def by (metis option.simps(5))
    moreover have "staying_in calls w0 rid \<noteq> {} \<longrightarrow> rooms w0 rid = Some ref" using S Some by (auto simp: scene_def)
    ultimately show ?thesis using InRoom Some cast_start_ok [OF _ shards, of calls w0 T "MembersOf ref ex" w m] by simp
  qed
qed

lemma next_shard_ok:
  assumes S: "scene calls w0 w" and ok: "cast_ok sh calls w0 T m k [] w" and "iterates iter"
    and k: "cast_ids k = []" "cast_shards k = j # js"
  shows "cast_ok sh calls w0 T m (k\<lparr>cast_shards := js,
    cast_ids := iter {cid \<in> source_ids (cast_source k) w. shard_of sh (source_map (cast_source k)) cid = j}\<rparr>) [] w"
proof -
  let ?S = "{cid \<in> source_ids (cast_source k) w. shard_of sh (source_map (cast_source k)) cid = j}"
  have src: "source_ok calls w0 T (cast_source k) w" using ok by (simp add: cast_ok_def)
  note source = source_scene [OF S src]
  have "finite ?S" using source(1) by simp
  then have ids: "distinct (iter ?S)" "set (iter ?S) = ?S" using assms(3) by (auto simp: iterates_def)
  show ?thesis using ok k ids source(2,3) unfolding cast_ok_def by auto
qed

lemma next_id_ok:
  assumes S: "scene calls w0 w" and ok: "cast_ok sh calls w0 T m k [] w" and k: "cast_ids k = cid # ids"
  shows "source_skips (cast_source k) cid \<or> connections w cid = None \<Longrightarrow>
      cast_ok sh calls w0 T m (k\<lparr>cast_ids := ids\<rparr>) [] w"
    and "\<not> source_skips (cast_source k) cid \<Longrightarrow> connections w cid = Some c \<Longrightarrow>
      cast_ok sh calls w0 T m (k\<lparr>cast_ids := ids\<rparr>) [c] w"
proof -
  have src: "source_ok calls w0 T (cast_source k) w" using ok by (simp add: cast_ok_def)
  note source = source_scene [OF S src]
  have "cid \<notin> must_reach calls w0 T" if "source_skips (cast_source k) cid \<or> connections w cid = None"
    using that source(2,4) by auto
  then show "source_skips (cast_source k) cid \<or> connections w cid = None \<Longrightarrow>
      cast_ok sh calls w0 T m (k\<lparr>cast_ids := ids\<rparr>) [] w"
    using ok k unfolding cast_ok_def by auto
  assume "\<not> source_skips (cast_source k) cid" and c: "connections w cid = Some c"
  moreover have "conn_id c = cid" "c \<in> known_conns calls w0" using S c by (simp_all add: scene_def)
  ultimately show "cast_ok sh calls w0 T m (k\<lparr>cast_ids := ids\<rparr>) [c] w"
    using ok k unfolding cast_ok_def by auto
qed

lemma logged_ok:
  "cast_ok sh calls w0 T m k [c] w \<Longrightarrow> cast_ok sh calls w0 T m (k\<lparr>cast_log := cast_log k @ [(c, b)]\<rparr>) [] w"
  unfolding cast_ok_def by auto

lemma casting_ok:
  assumes "scene calls w0 w" "cast_ok sh calls w0 T m k [] w" "cast_step rt sh iter (Casting k) w = (c', w')" "iterates iter"
  shows "caster_ok sh calls w0 T m c' w \<and> w' = w"
proof (cases "cast_ids k")
  case Nil
  show ?thesis
  proof (cases "cast_shards k")
    case none: Nil
    then have "caster_ok sh calls w0 T m (CastDone (cast_msg k) (cast_log k)) w"
      using assms(2) Nil by (auto simp: cast_ok_def)
    then show ?thesis using assms(3) Nil none by auto
  next
    case (Cons j js)
    then show ?thesis using assms(3) Nil next_shard_ok [OF assms(1,2,4) Nil Cons] by auto
  qed
next
  case (Cons cid ids)
  note next_id = next_id_ok [OF assms(1,2) Cons]
  show ?thesis
  proof (cases "source_skips (cast_source k) cid \<or> connections w cid = None")
    case True
    then show ?thesis using next_id(1) assms(3) Cons by auto
  next
    case False
    then obtain d where "\<not> source_skips (cast_source k) cid" "connections w cid = Some d" by blast
    then show ?thesis using next_id(2) assms(3) Cons by auto
  qed
qed

lemma cast_step_ok:
  assumes "scene calls w0 w" "caster_ok sh calls w0 T m c w" "cast_step rt sh iter c w = (c', w')"
    and "iterates iter" "\<forall>N cid. shard_of sh N cid < shard_count sh"
  shows "caster_ok sh calls w0 T m c' w' \<and> (\<exists>f. w' = w\<lparr>cells := f\<rparr>)"
proof (cases c)
  case (Lookup T' m')
  then have "caster_ok sh calls w0 T m c' w \<and> w' = w"
    using lookup_ok [OF assms(1,5), of T m rt iter] assms(2,3)
    by (cases T) (auto split: option.splits)
  then show ?thesis by (auto intro: exI [of _ "cells w"])
next
  case (Casting k)
  have "caster_ok sh calls w0 T m c' w \<and> w' = w"
    using casting_ok [OF assms(1) _ _ assms(4)] assms(2,3) Casting by simp
  then show ?thesis by (auto intro: exI [of _ "cells w"])
next
  case (Sending k d s)
  obtain s' cl where step: "sender_step rt s (cells w (conn_cell d)) = (s', cl)" by fastforce
  then have w': "w' = w\<lparr>cells := (cells w)(conn_cell d := cl)\<rparr>" "c' = after_access k d s'"
    using assms(3) Sending by (auto simp: at_cell_def)
  have "caster_ok sh calls w0 T m (after_access k d s') w"
    using assms(2) Sending logged_ok by (cases s') auto
  then show ?thesis using w' caster_ok_stable [of sh calls w0 T m c' w w'] by auto
qed (use assms in \<open>auto intro: exI [of _ "cells w"]\<close>)

end
