(* ===== verification/Ws_Broadcast_Props.thy ===== *)
theory Ws_Broadcast_Props imports Ws_Broadcast begin

text \<open>
  What holds of broadcasts among everything else that goes on: whom they reach, what the queues have
  in the end, and that a broadcast on its own is what \<open>Ws_Room\<close> says.
\<close>

section \<open>All together\<close>

fun actor_ok ::
  "sharding \<Rightarrow> actor list \<Rightarrow> ('ch, 'nt, 'z) world_scheme \<Rightarrow> actor \<Rightarrow> actor
     \<Rightarrow> ('ch, 'nt, 'z) world_scheme \<Rightarrow> bool" where
  "actor_ok sh calls w0 (Caller _) (Caller t) w = caller_ok calls t w"
| "actor_ok sh calls w0 (Caster (Lookup T m)) (Caster c) w = caster_ok sh calls w0 T m c w"
| "actor_ok sh calls w0 (Sender ref _) (Sender ref' _) w = (ref' = ref)"
| "actor_ok sh calls w0 (Receiver ref _) (Receiver ref' _) w = (ref' = ref)"
| "actor_ok sh calls w0 _ _ w = False"

definition company ::
  "sharding \<Rightarrow> actor list \<Rightarrow> ('ch, 'nt, 'z) world_scheme \<Rightarrow> actor list \<Rightarrow> ('ch, 'nt, 'z) world_scheme \<Rightarrow> bool" where
  "company sh calls w0 as w \<longleftrightarrow> scene calls w0 w \<and> list_all2 (\<lambda>a0 a. actor_ok sh calls w0 a0 a w) calls as"

lemma actor_ok_stable: "actor_ok sh calls w0 a0 a w \<Longrightarrow> grows calls w w' \<Longrightarrow> actor_ok sh calls w0 a0 a w'"
proof (induction sh calls w0 a0 a w rule: actor_ok.induct)
  case (1 sh calls w0 t0 t w)
  then show ?case using ref_ok_growing by (auto simp: caller_ok_def grows_def)
qed (auto intro: caster_ok_stable)

lemma at_cell_eq: "at_cell ref f w = (fst (f (cells w ref)), w\<lparr>cells := (cells w)(ref := snd (f (cells w ref)))\<rparr>)"
  by (simp add: at_cell_def case_prod_unfold Let_def)

lemma actor_step_ok:
  assumes S: "scene calls w0 w" and a: "actor_ok sh calls w0 a0 a w" and step: "actor_step rt sh iter a w = (a', w')"
    and iter: "iterates iter" "\<forall>N cid. shard_of sh N cid < shard_count sh"
  shows "scene calls w0 w' \<and> grows calls w w' \<and> actor_ok sh calls w0 a0 a' w'"
proof (cases a)
  case (Caller t)
  then obtain t0 where a0: "a0 = Caller t0" using a by (cases a0 rule: actor.exhaust) auto
  obtain t' where t': "thread_step iter t w = (t', w')" "a' = Caller t'"
    using step Caller by (cases "thread_step iter t w") auto
  have C: "caller_ok calls t w" using a by (simp add: a0 Caller)
  have "heap_ok w" using S by (simp add: scene_def)
  from caller_grows [OF this C t'(1)] caller_scene [OF S C t'(1)] show ?thesis by (simp add: a0 t'(2))
next
  case (Caster c)
  then obtain T m where a0: "a0 = Caster (Lookup T m)"
    using a by (cases "(sh, calls, w0, a0, a, w)" rule: actor_ok.cases) auto
  obtain c' where c': "cast_step rt sh iter c w = (c', w')" "a' = Caster c'"
    using step Caster by (cases "cast_step rt sh iter c w") auto
  have "caster_ok sh calls w0 T m c w" using a by (simp add: a0 Caster)
  from cast_step_ok [OF S this c'(1) iter] show ?thesis using S by (auto simp: a0 c'(2))
qed (use assms in \<open>cases a0 rule: actor.exhaust; auto simp: at_cell_eq\<close>)+

lemma company_start:
  assumes "manager_ok w0" "list_all actor_call calls"
  shows "company sh calls w0 calls w0"
proof -
  note ok = manager_okD [OF assms(1)]
  have "scene calls w0 w0"
    using assms(1) ok members_registered(2) [OF assms(1)]
    by (auto simp: scene_def manager_ok_def staying_def staying_in_def known_conns_def intro: ranI)
  moreover have "actor_ok sh calls w0 a a w0" if "a \<in> set calls" for a
  proof -
    have "actor_call a" using assms(2) that by (simp add: list_all_iff)
    then show ?thesis using that by (cases a rule: actor_call.cases) (auto simp: caller_ok_def elim!: thread_call.elims)
  qed
  ultimately show ?thesis by (simp add: company_def list_all2_same)
qed

lemma company_step:
  assumes "company sh calls w0 as w" "interleave (actor_step rt sh iter) actor_done (as, w) (as', w')"
    and "iterates iter" "\<forall>N cid. shard_of sh N cid < shard_count sh"
  shows "company sh calls w0 as' w'"
proof -
  from assms(2) obtain i a where i: "i < length as" "actor_step rt sh iter (as ! i) w = (a, w')" "as' = as[i := a]"
    by (auto elim: interleaveE)
  have S: "scene calls w0 w" and all: "list_all2 (\<lambda>a0 a. actor_ok sh calls w0 a0 a w) calls as"
    using assms(1) by (simp_all add: company_def)
  have "actor_ok sh calls w0 (calls ! i) (as ! i) w" using all i(1) by (simp add: list_all2_conv_all_nth)
  from actor_step_ok [OF S this i(2) assms(3,4)]
  have step: "scene calls w0 w'" "grows calls w w'" "actor_ok sh calls w0 (calls ! i) a w'" by simp_all
  have "actor_ok sh calls w0 (calls ! j) (as' ! j) w'" if "j < length calls" for j
    using that all i step actor_ok_stable [OF _ step(2)]
    by (cases "j = i") (simp_all add: list_all2_conv_all_nth)
  then show ?thesis using step(1) all i(3) by (simp add: company_def list_all2_conv_all_nth)
qed

section \<open>The messages of a queue\<close>

text \<open>What an actor has put into the queue of a cell, and taken out of it.\<close>

definition logged_at :: "nat \<Rightarrow> message \<Rightarrow> (connection \<times> bool) list \<Rightarrow> message list" where
  "logged_at ref m log = map (\<lambda>_. m) (filter (\<lambda>(c, b). b \<and> conn_cell c = ref) log)"

fun accepted_at :: "nat \<Rightarrow> actor \<Rightarrow> message list" where
  "accepted_at ref (Caster (Casting k)) = logged_at ref (cast_msg k) (cast_log k)"
| "accepted_at ref (Caster (Sending k c s)) = logged_at ref (cast_msg k) (cast_log k)"
| "accepted_at ref (Caster (CastDone m log)) = logged_at ref m log"
| "accepted_at ref (Sender ref' s) = (if ref' = ref then accepted_of s else [])"
| "accepted_at ref _ = []"

fun received_at :: "nat \<Rightarrow> actor \<Rightarrow> message list" where
  "received_at ref (Receiver ref' got) = (if ref' = ref then got else [])"
| "received_at ref _ = []"

lemma mset_concat_update:
  assumes "i < length as"
  shows "mset (concat (map f (as[i := a]))) + mset (f (as ! i)) = mset (concat (map f as)) + mset (f a)"
  using assms by (induction as arbitrary: i) (auto split: nat.split simp: nth_Cons')

lemma balance:
  fixes q :: "'a multiset"
  assumes "q + R = q0 + A" "q' + r' + a = q + r + a'" "R' + r = R + r'" "A' + a = A + a'"
  shows "q' + R' = q0 + A'"
proof (rule multiset_eqI)
  fix x
  have "count q x + count R x = count q0 x + count A x" "count R' x + count r x = count R x + count r' x"
    "count A' x + count a x = count A x + count a' x" "count q' x + count r' x + count a x = count q x + count r x + count a' x"
    using assms by (metis count_union)+
  then show "count (q' + R') x = count (q0 + A') x" by simp
qed

text \<open>The message that a send is about: no access changes it.\<close>

fun sends :: "message \<Rightarrow> sender \<Rightarrow> bool" where
  "sends m (SendCheck m') = (m' = m)"
| "sends m (SendTry m') = (m' = m)"
| "sends m EvictStore = True"
| "sends m EvictNotify = True"
| "sends m (SenderDone r) = (r = None \<or> r = Some m)"
| "sends m _ = False"

lemma sends_step: "sends m s \<Longrightarrow> sender_step rt s cl = (s', cl') \<Longrightarrow> sends m s'"
  by (cases s) (auto split: prod.splits try_send_result.splits)

fun actor_sends :: "actor \<Rightarrow> bool" where
  "actor_sends (Caster (Sending k c s)) = (sends (cast_msg k) s \<and> \<not> sender_done s)"
| "actor_sends _ = True"

lemma actor_sends_step:
  assumes "actor_sends a" "actor_step rt sh iter a w = (a', w')"
  shows "actor_sends a'"
proof (cases "\<exists>k c s. a = Caster (Sending k c s)")
  case True
  then obtain k c s where a: "a = Caster (Sending k c s)" by blast
  obtain s' cl where s': "sender_step rt s (cells w (conn_cell c)) = (s', cl)" by fastforce
  have "sends (cast_msg k) s'" using sends_step [OF _ s'] assms(1) a by auto
  then show ?thesis using assms(2) a s' by (cases s') (auto simp: at_cell_eq)
next
  case False
  then show ?thesis
  proof (cases a)
    case (Caster c)
    then show ?thesis using assms(2) False
      by (cases "(rt, sh, iter, c, w)" rule: cast_step.cases) (auto split: option.splits list.splits if_splits)
  qed (use assms(2) in \<open>auto simp: map_prod_def split: prod.splits\<close>)
qed

context tokio_runtime begin

lemma sender_channel:
  assumes "sender_step rt t cl = (u, cl')" "\<not> sender_done t"
  shows "queued (c_tx cl') = queued (c_tx cl) @ accepted_of u \<and> capacity (c_tx cl') = capacity (c_tx cl) \<and>
    rx_alive (c_tx cl') = rx_alive (c_tx cl) \<and>
    (length (queued (c_tx cl)) \<le> capacity (c_tx cl) \<longrightarrow> length (queued (c_tx cl')) \<le> capacity (c_tx cl))"
proof (cases t)
  case (SendTry m)
  show ?thesis by (cases rule: try_send_cases [of "c_tx cl" m]) (use assms SendTry in auto)
next
  case CloseTry
  show ?thesis by (cases rule: try_send_cases [of "c_tx cl" close_msg]) (use assms CloseTry in auto)
qed (use assms in auto)

lemma receive_channel:
  assumes "receive rt got cl = (got', cl')"
  shows "got' @ queued (c_tx cl') = got @ queued (c_tx cl) \<and> capacity (c_tx cl') = capacity (c_tx cl) \<and>
    rx_alive (c_tx cl') = rx_alive (c_tx cl) \<and> c_state cl' = c_state cl \<and>
    length (queued (c_tx cl')) \<le> length (queued (c_tx cl))"
  by (cases rule: recv_cases [of "c_tx cl"]) (use assms in \<open>auto simp: cell_recv_def\<close>)

definition balanced :: "('ch, 'nt, 'z) world_scheme \<Rightarrow> actor list \<Rightarrow> ('ch, 'nt, 'z) world_scheme \<Rightarrow> bool" where
  "balanced w0 as w \<longleftrightarrow> list_all actor_sends as \<and>
     (\<forall>ref. capacity (c_tx (cells w ref)) = capacity (c_tx (cells w0 ref)) \<and>
        rx_alive (c_tx (cells w ref)) = rx_alive (c_tx (cells w0 ref)) \<and>
        (length (queued (c_tx (cells w0 ref))) \<le> capacity (c_tx (cells w0 ref)) \<longrightarrow>
           length (queued (c_tx (cells w ref))) \<le> capacity (c_tx (cells w0 ref))) \<and>
        mset (queued (c_tx (cells w ref))) + mset (concat (map (received_at ref) as)) =
          mset (queued (c_tx (cells w0 ref))) + mset (concat (map (accepted_at ref) as)))"

text \<open>One access: what it adds to its queue it has sent, what it takes it has received.\<close>

lemma thread_step_cells: "thread_step iter t w = (t', w') \<Longrightarrow> cells w' = cells w"
  by (cases t) (auto simp: create_room_def Let_def update_index_def split: option.splits)

lemma actor_channel:
  assumes "actor_step rt sh iter a w = (a', w')" "\<not> actor_done a" "actor_sends a"
  shows "capacity (c_tx (cells w' ref)) = capacity (c_tx (cells w ref)) \<and>
    rx_alive (c_tx (cells w' ref)) = rx_alive (c_tx (cells w ref)) \<and>
    (length (queued (c_tx (cells w ref))) \<le> capacity (c_tx (cells w ref)) \<longrightarrow>
       length (queued (c_tx (cells w' ref))) \<le> capacity (c_tx (cells w ref))) \<and>
    mset (queued (c_tx (cells w' ref))) + mset (received_at ref a') + mset (accepted_at ref a) =
      mset (queued (c_tx (cells w ref))) + mset (received_at ref a) + mset (accepted_at ref a')"
proof (cases a)
  case (Caller t)
  then obtain t' where t': "thread_step iter t w = (t', w')" "a' = Caller t'"
    using assms(1) by (cases "thread_step iter t w") auto
  show ?thesis by (simp add: Caller t'(2) thread_step_cells [OF t'(1)])
next
  case (Sender r s)
  obtain s' cl where s': "sender_step rt s (cells w r) = (s', cl)" by fastforce
  have "\<not> sender_done s" using assms(2) Sender by simp
  from sender_channel [OF s' this] not_done_accepts_nothing [OF this] show ?thesis
    using assms(1) Sender s' by (cases "r = ref") (auto simp: at_cell_eq)
next
  case (Receiver r got)
  obtain got' cl where g: "receive rt got (cells w r) = (got', cl)" by fastforce
  from receive_channel [OF g] have c: "mset got' + mset (queued (c_tx cl)) = mset got + mset (queued (c_tx (cells w r)))"
    by (metis mset_append)
  have "a' = Receiver r got'" "w' = w\<lparr>cells := (cells w)(r := cl)\<rparr>" using assms(1) Receiver g by (auto simp: at_cell_eq)
  then show ?thesis using c receive_channel [OF g] Receiver by (cases "r = ref") (auto simp: ac_simps)
next
  case (Caster c)
  show ?thesis
  proof (cases "\<exists>k d s. c = Sending k d s")
    case True
    then obtain k d s where c: "c = Sending k d s" by blast
    obtain s' cl where s': "sender_step rt s (cells w (conn_cell d)) = (s', cl)" by fastforce
    have s: "\<not> sender_done s" "sends (cast_msg k) s'"
      using assms(3) sends_step [OF _ s'] Caster c by auto
    have "a' = Caster (after_access k d s')" "w' = w\<lparr>cells := (cells w)(conn_cell d := cl)\<rparr>"
      using assms(1) Caster c s' by (auto simp: at_cell_eq)
    then show ?thesis using sender_channel [OF s' s(1)] s(2) Caster c
      by (cases s'; cases "conn_cell d = ref") (auto simp: logged_at_def)
  next
    case False
    then show ?thesis using assms(1,2) Caster
      by (cases "(rt, sh, iter, c, w)" rule: cast_step.cases)
        (auto simp: cast_start_def logged_at_def split: option.splits list.splits if_splits)
  qed
qed

lemma balanced_step:
  assumes "balanced w0 as w" "interleave (actor_step rt sh iter) actor_done (as, w) (as', w')"
  shows "balanced w0 as' w'"
proof -
  from assms(2) obtain i a where i: "i < length as" "\<not> actor_done (as ! i)"
    "actor_step rt sh iter (as ! i) w = (a, w')" "as' = as[i := a]"
    by (auto elim: interleaveE)
  have s: "actor_sends (as ! i)" using assms(1) i(1) by (simp add: balanced_def list_all_length)
  have sends: "list_all actor_sends as'"
    using assms(1) i(1,4) actor_sends_step [OF s i(3)] by (auto simp: balanced_def list_all_length nth_list_update)
  have "mset (queued (c_tx (cells w' ref))) + mset (concat (map (received_at ref) as')) =
          mset (queued (c_tx (cells w0 ref))) + mset (concat (map (accepted_at ref) as'))" for ref
  proof -
    have "mset (queued (c_tx (cells w ref))) + mset (concat (map (received_at ref) as)) =
          mset (queued (c_tx (cells w0 ref))) + mset (concat (map (accepted_at ref) as))"
      using assms(1) by (simp add: balanced_def)
    moreover have "mset (queued (c_tx (cells w' ref))) + mset (received_at ref a) + mset (accepted_at ref (as ! i)) =
        mset (queued (c_tx (cells w ref))) + mset (received_at ref (as ! i)) + mset (accepted_at ref a)"
      using actor_channel [OF i(3,2) s, of ref] by blast
    ultimately show ?thesis
      unfolding i(4) by (rule balance) (rule mset_concat_update [OF i(1)])+
  qed
  then show ?thesis using assms(1) actor_channel [OF i(3,2) s] sends by (simp add: balanced_def)
qed

end

section \<open>Room for everybody\<close>

text \<open>
  Actors that have met no closed and no full connection at the cell \<open>ref\<close>, where every broadcast puts
  at most one message.
\<close>

definition log_good :: "nat \<Rightarrow> (connection \<times> bool) list \<Rightarrow> bool" where
  "log_good ref log \<longleftrightarrow> (\<forall>(c, b) \<in> set log. conn_cell c = ref \<longrightarrow> b)"

fun is_sending :: "sender \<Rightarrow> bool" where
  "is_sending (SendCheck _) = True"
| "is_sending (SendTry _) = True"
| "is_sending _ = False"

fun at_ease :: "nat \<Rightarrow> actor \<Rightarrow> bool" where
  "at_ease ref (Caster (Casting k)) = log_good ref (cast_log k)"
| "at_ease ref (Caster (Sending k c s)) = (log_good ref (cast_log k) \<and> (conn_cell c = ref \<longrightarrow> is_sending s))"
| "at_ease ref (Caster (CastDone m log)) = log_good ref log"
| "at_ease ref (Sender ref' s) = (ref' = ref \<longrightarrow> is_sending s \<or> (\<exists>m. s = SenderDone (Some m)))"
| "at_ease ref _ = True"

definition roomy ::
  "('ch \<Rightarrow> message list) \<Rightarrow> ('ch \<Rightarrow> nat) \<Rightarrow> ('ch \<Rightarrow> bool) \<Rightarrow> actor list
     \<Rightarrow> ('ch, 'nt, 'z) world_scheme \<Rightarrow> nat \<Rightarrow> bool" where
  "roomy queued capacity rx_alive calls w ref \<longleftrightarrow>
     c_state (cells w ref) = Open \<and> rx_alive (c_tx (cells w ref)) \<and>
     length (queued (c_tx (cells w ref))) + length calls \<le> capacity (c_tx (cells w ref)) \<and>
     Sender ref CloseStore \<notin> set calls"

definition relaxed :: "nat \<Rightarrow> actor list \<Rightarrow> ('ch, 'nt, 'z) world_scheme \<Rightarrow> bool" where
  "relaxed ref as w \<longleftrightarrow> c_state (cells w ref) = Open \<and> list_all (at_ease ref) as"

fun sends_at :: "nat \<Rightarrow> actor \<Rightarrow> bool" where
  "sends_at ref (Caster (Sending k c s)) = (conn_cell c = ref)"
| "sends_at ref (Sender ref' s) = (ref' = ref \<and> \<not> sender_done s)"
| "sends_at ref _ = False"

lemma log_once:
  assumes "distinct (log_ids log)" "fst ` set log \<subseteq> K" "inj_on conn_cell K"
  shows "length (logged_at ref m log) \<le> 1"
proof -
  let ?good = "filter (\<lambda>(c, b). b \<and> conn_cell c = ref) log"
  have d: "distinct (log_ids ?good)" using assms(1) by (rule distinct_map_filter)
  have same: "fst x = fst y" if "x \<in> set ?good" "y \<in> set ?good" for x y
    using that assms(2) inj_onD [OF assms(3), of "fst x" "fst y"] by force
  show ?thesis
  proof (cases ?good rule: remdups_adj.cases)
    case (3 x y zs)
    then have "fst x = fst y" by (intro same) simp_all
    then show ?thesis using d 3 by simp
  qed (simp_all add: logged_at_def)
qed

lemma accepted_once:
  assumes "actor_ok sh calls w0 a0 a w" and inj: "inj_on conn_cell (known_conns calls w0)"
  shows "length (accepted_at ref a) \<le> 1" and "sends_at ref a \<Longrightarrow> accepted_at ref a = []"
proof -
  have both: "length (accepted_at ref a) \<le> 1 \<and> (sends_at ref a \<longrightarrow> accepted_at ref a = [])"
  proof (cases "(sh, calls, w0, a0, a, w)" rule: actor_ok.cases)
    case (2 sh' calls' w0' T m c w')
    then have c: "caster_ok sh calls w0 T m c w" "a = Caster c" using assms(1) by simp_all
    show ?thesis
    proof (cases c)
      case (Casting k)
      then show ?thesis using c log_once [OF _ _ inj] by (simp add: cast_ok_def)
    next
      case (CastDone m' log)
      then show ?thesis using c log_once [OF _ _ inj] by simp
    next
      case (Sending k d s)
      have "d \<in> known_conns calls w0" "fst ` set (cast_log k) \<subseteq> known_conns calls w0"
        "conn_id d \<notin> set (log_ids (cast_log k))" "distinct (log_ids (cast_log k))"
        using c Sending by (auto simp: cast_ok_def)
      moreover from this have "(e, b) \<in> set (cast_log k) \<Longrightarrow> conn_cell e \<noteq> conn_cell d" for e b
        using inj by (force dest: inj_onD)
      ultimately show ?thesis
        using c Sending log_once [OF _ _ inj] by (auto simp: logged_at_def filter_empty_conv)
    qed (simp_all add: c)
  next
    case (3 sh' calls' w0' r s0 r' s w')
    then show ?thesis by (cases s rule: accepted_of.cases) auto
  qed (use assms(1) in auto)
  then show "length (accepted_at ref a) \<le> 1" "sends_at ref a \<Longrightarrow> accepted_at ref a = []" by simp_all
qed

lemma sum_below:
  "list_all (\<lambda>a. f a \<le> (1 :: nat)) as \<Longrightarrow> i < length as \<Longrightarrow> f (as ! i) = 0 \<Longrightarrow> sum_list (map f as) < length as"
proof (induction as arbitrary: i)
  case (Cons a as)
  have "sum_list (map f as) \<le> length as" using Cons.prems(1) by (induction as) auto
  then show ?case using Cons.prems Cons.IH [of "i - 1"] by (cases i) force+
qed simp

context tokio_runtime begin

lemma room_left:
  assumes "company sh calls w0 as w" "balanced w0 as w" "roomy queued capacity rx_alive calls w0 ref"
    and "inj_on conn_cell (known_conns calls w0)" "i < length as" "sends_at ref (as ! i)"
  shows "rx_alive (c_tx (cells w ref)) \<and> length (queued (c_tx (cells w ref))) < capacity (c_tx (cells w ref))"
proof -
  have oks: "list_all2 (\<lambda>a0 a. actor_ok sh calls w0 a0 a w) calls as" using assms(1) by (simp add: company_def)
  then have "list_all (\<lambda>a. length (accepted_at ref a) \<le> 1) as"
    using accepted_once(1) [OF _ assms(4)] by (auto simp: list_all_length list_all2_conv_all_nth)
  moreover have "length (accepted_at ref (as ! i)) = 0"
    using oks assms(5,6) accepted_once(2) [OF _ assms(4)] by (auto simp: list_all2_conv_all_nth)
  ultimately have "sum_list (map (length \<circ> accepted_at ref) as) < length as"
    using assms(5) by (intro sum_below) simp_all
  then have "length (concat (map (accepted_at ref) as)) < length calls"
    using oks by (simp add: length_concat list_all2_lengthD)
  moreover have "size (mset (queued (c_tx (cells w ref)))) \<le>
      size (mset (queued (c_tx (cells w0 ref))) + mset (concat (map (accepted_at ref) as)))"
    using assms(2) unfolding balanced_def by (metis le_add1 size_union)
  ultimately show ?thesis using assms(2,3) by (simp add: balanced_def roomy_def)
qed

lemma sending_step:
  assumes "is_sending s" "c_state cl = Open" "rx_alive (c_tx cl)" "length (queued (c_tx cl)) < capacity (c_tx cl)"
    and "sender_step rt s cl = (s', cl')"
  shows "c_state cl' = Open \<and> (is_sending s' \<or> (\<exists>m. s' = SenderDone (Some m)))"
proof (cases s)
  case (SendTry m)
  then show ?thesis using try_send_room [OF assms(3,4), of m] assms(2,5) by auto
qed (use assms in \<open>auto simp: cell_is_open_def\<close>)

lemma ease_step:
  assumes a: "at_ease ref a" "actor_step rt sh iter a w = (a', w')" "\<not> actor_done a" and o: "c_state (cells w ref) = Open"
    and room: "sends_at ref a \<Longrightarrow>
      rx_alive (c_tx (cells w ref)) \<and> length (queued (c_tx (cells w ref))) < capacity (c_tx (cells w ref))"
  shows "c_state (cells w' ref) = Open \<and> at_ease ref a'"
proof (cases a)
  case (Caller t)
  then obtain t' where "thread_step iter t w = (t', w')" "a' = Caller t'"
    using a(2) by (cases "thread_step iter t w") auto
  then show ?thesis using o thread_step_cells by fastforce
next
  case (Sender r s)
  obtain s' cl where s': "sender_step rt s (cells w r) = (s', cl)" by fastforce
  have "r = ref \<Longrightarrow> c_state cl = Open \<and> (is_sending s' \<or> (\<exists>m. s' = SenderDone (Some m)))"
    using sending_step [OF _ _ _ _ s'] a(1,3) o room Sender by auto
  then show ?thesis using a(2) o Sender s' by (cases "r = ref") (auto simp: at_cell_eq)
next
  case (Receiver r got)
  obtain got' cl where g: "receive rt got (cells w r) = (got', cl)" by fastforce
  then show ?thesis using a(2) o Receiver receive_channel [OF g] by (cases "r = ref") (auto simp: at_cell_eq)
next
  case (Caster c)
  show ?thesis
  proof (cases "\<exists>k d s. c = Sending k d s")
    case True
    then obtain k d s where c: "c = Sending k d s" by blast
    obtain s' cl where s': "sender_step rt s (cells w (conn_cell d)) = (s', cl)" by fastforce
    have "conn_cell d = ref \<Longrightarrow> c_state cl = Open \<and> (is_sending s' \<or> (\<exists>m. s' = SenderDone (Some m)))"
      using sending_step [OF _ _ _ _ s'] a(1) o room Caster c by auto
    moreover have "a' = Caster (after_access k d s')" "w' = w\<lparr>cells := (cells w)(conn_cell d := cl)\<rparr>"
      using a(2) Caster c s' by (auto simp: at_cell_eq)
    ultimately show ?thesis using a(1) o Caster c
      by (cases s'; cases "conn_cell d = ref") (auto simp: log_good_def)
  next
    case False
    then show ?thesis using a o Caster
      by (cases "(rt, sh, iter, c, w)" rule: cast_step.cases)
        (auto simp: cast_start_def log_good_def split: option.splits list.splits if_splits)
  qed
qed

lemma relaxed_step:
  assumes "company sh calls w0 as w" "balanced w0 as w" "roomy queued capacity rx_alive calls w0 ref" "relaxed ref as w"
    and "inj_on conn_cell (known_conns calls w0)" "interleave (actor_step rt sh iter) actor_done (as, w) (as', w')"
  shows "relaxed ref as' w'"
proof -
  from assms(6) obtain i a where i: "i < length as" "\<not> actor_done (as ! i)"
    "actor_step rt sh iter (as ! i) w = (a, w')" "as' = as[i := a]"
    by (auto elim: interleaveE)
  have "at_ease ref (as ! i)" "c_state (cells w ref) = Open" using assms(4) i(1) by (simp_all add: relaxed_def list_all_length)
  from ease_step [OF this(1) i(3,2) this(2) room_left [OF assms(1-3,5) i(1)]] show ?thesis
    using assms(4) i(1,4) by (auto simp: relaxed_def list_all_length nth_list_update)
qed

end

section \<open>A broadcast comes to its end\<close>

fun sender_fuel :: "sender \<Rightarrow> nat" where
  "sender_fuel (SendCheck _) = 4"
| "sender_fuel (SendTry _) = 3"
| "sender_fuel EvictStore = 2"
| "sender_fuel EvictNotify = 1"
| "sender_fuel CloseStore = 4"
| "sender_fuel CloseTry = 3"
| "sender_fuel CloseNotify = 1"
| "sender_fuel (SenderDone _) = 0"

fun cast_shards_left :: "sharding \<Rightarrow> caster \<Rightarrow> nat" where
  "cast_shards_left sh (Lookup _ _) = Suc (shard_count sh)"
| "cast_shards_left sh (Casting k) = length (cast_shards k)"
| "cast_shards_left sh (Sending k _ _) = length (cast_shards k)"
| "cast_shards_left sh _ = 0"

fun cast_fuel :: "caster \<Rightarrow> nat" where
  "cast_fuel (Casting k) = 6 * length (cast_ids k) + 1"
| "cast_fuel (Sending k _ s) = 6 * length (cast_ids k) + 2 + sender_fuel s"
| "cast_fuel _ = 0"

lemma sender_step_decreases:
  "\<not> sender_done s \<Longrightarrow> sender_step rt s cl = (s', cl') \<Longrightarrow> sender_fuel s' < sender_fuel s"
  by (cases s) (auto split: prod.splits try_send_result.splits)

lemma after_access_left [simp]: "cast_shards_left sh (after_access k c s) = length (cast_shards k)"
  by (cases s) simp_all

lemma cast_step_decreases:
  assumes "\<not> cast_done c" "cast_step rt sh iter c w = (c', w')" and ok: "\<And>k d s. c = Sending k d s \<Longrightarrow> \<not> sender_done s"
  shows "cast_shards_left sh c' < cast_shards_left sh c \<or>
    cast_shards_left sh c' = cast_shards_left sh c \<and> cast_fuel c' < cast_fuel c"
proof (cases c)
  case (Lookup T m)
  then show ?thesis using assms(2) by (cases T) (auto simp: cast_start_def split: option.splits)
next
  case (Casting k)
  then show ?thesis using assms(2) by (auto split: list.splits option.splits if_splits)
next
  case (Sending k d s)
  obtain s' cl where s': "sender_step rt s (cells w (conn_cell d)) = (s', cl)" by fastforce
  have "sender_fuel s' < sender_fuel s" using sender_step_decreases [OF ok [OF Sending] s'] .
  moreover have "c' = after_access k d s'" using assms(2) Sending s' by (simp add: at_cell_eq)
  ultimately show ?thesis using Sending by (cases s') auto
qed (use assms in auto)

text \<open>The turns of a broadcast, whatever the others do to the world in between.\<close>

definition cast_turns :: "('ch, 'nt) runtime \<Rightarrow> sharding \<Rightarrow> iteration \<Rightarrow> (caster \<times> caster) set" where
  "cast_turns rt sh iter = {(c', c). \<not> cast_done c \<and> (\<forall>k d s. c = Sending k d s \<longrightarrow> \<not> sender_done s) \<and>
     (\<exists>w w' :: ('ch, 'nt) world. cast_step rt sh iter c w = (c', w'))}"

lemma wf_cast_turns: "wf (cast_turns rt sh iter)"
  by (rule wf_subset [of "measures [cast_shards_left sh, cast_fuel]"])
    (auto simp: cast_turns_def dest!: cast_step_decreases)

section \<open>A broadcast on its own\<close>

text \<open>The order in which iterating shard by shard yields the keys.\<close>

definition by_shards :: "sharding \<Rightarrow> map_name \<Rightarrow> iteration \<Rightarrow> iteration" where
  "by_shards sh N iter S = concat (map (\<lambda>j. iter {x \<in> S. shard_of sh N x = j}) [0..<shard_count sh])"

lemma iterates_by_shards:
  assumes "iterates iter" "\<forall>x. shard_of sh N x < shard_count sh"
  shows "iterates (by_shards sh N iter)"
  unfolding iterates_def
proof (intro allI impI)
  fix S :: "string set" assume "finite S"
  then have shard: "distinct (iter {x \<in> S. shard_of sh N x = j}) \<and> set (iter {x \<in> S. shard_of sh N x = j}) = {x \<in> S. shard_of sh N x = j}"
    for j using assms(1) by (simp add: iterates_def)
  have "set (by_shards sh N iter S) = S" using assms(2) shard by (auto simp: by_shards_def)
  moreover have "distinct (concat (map (\<lambda>j. iter {x \<in> S. shard_of sh N x = j}) js))" if "distinct js" for js
    using that shard by (induction js) auto
  ultimately show "distinct (by_shards sh N iter S) \<and> set (by_shards sh N iter S) = S"
    by (simp add: by_shards_def)
qed

definition cast_alone ::
  "('ch, 'nt) runtime \<Rightarrow> sharding \<Rightarrow> iteration \<Rightarrow> caster \<times> ('ch, 'nt, 'z) world_scheme
     \<Rightarrow> caster \<times> ('ch, 'nt, 'z) world_scheme \<Rightarrow> bool" where
  "cast_alone rt sh iter x y \<longleftrightarrow> (\<exists>n. ((\<lambda>(c, w). cast_step rt sh iter c w) ^^ n) x = y)"

lemma cast_alone_refl: "cast_alone rt sh iter x x"
  unfolding cast_alone_def by (rule exI [of _ 0]) simp

lemma cast_alone_step: "cast_alone rt sh iter (cast_step rt sh iter c w) y \<Longrightarrow> cast_alone rt sh iter (c, w) y"
  unfolding cast_alone_def by (elim exE, rule exI [of _ "Suc n" for n]) (simp add: funpow_swap1)

lemma cast_alone_trans: "cast_alone rt sh iter x y \<Longrightarrow> cast_alone rt sh iter y z \<Longrightarrow> cast_alone rt sh iter x z"
  unfolding cast_alone_def by (metis comp_apply funpow_add)

lemma send_alone:
  fixes w :: "('ch, 'nt, 'z) world_scheme"
  assumes "connection_send rt m c (cells w) = (r :: (unit, unit, unit, unit) ws_result, cls)"
  shows "cast_alone rt sh iter (Sending k c (SendCheck m), w)
    (Casting (k\<lparr>cast_log := cast_log k @ [(c, is_ok r)]\<rparr>), w\<lparr>cells := cls\<rparr>)"
proof -
  let ?cl = "cells w (conn_cell c)"
  have same: "w\<lparr>cells := (cells w)(conn_cell c := ?cl)\<rparr> = w" by simp
  show ?thesis
  proof (cases "cell_is_open ?cl")
    case False
    then have "r = Inl ConnectionClosed" "cls = cells w" using assms by (auto simp: connection_send_def cell_send_def)
    then show ?thesis using False by (intro cast_alone_step) (simp add: at_cell_def cast_alone_refl)
  next
    case True
    obtain a ch where a: "rt_try_send rt m (c_tx ?cl) = (a, ch)" by fastforce
    show ?thesis
    proof (cases a)
      case Sent
      then show ?thesis using True a assms
        by (intro cast_alone_step, simp add: at_cell_def)
          (intro cast_alone_step, auto simp: at_cell_def connection_send_def cell_send_def cast_alone_refl)
    next
      case QueueClosed
      then show ?thesis using True a assms
        by (intro cast_alone_step, simp add: at_cell_def)
          (intro cast_alone_step, auto simp: at_cell_def connection_send_def cell_send_def cast_alone_refl)
    next
      case QueueFull
      show ?thesis using True a assms QueueFull
        by (intro cast_alone_step, simp add: at_cell_def, intro cast_alone_step, simp add: at_cell_def,
            intro cast_alone_step, simp add: at_cell_def, intro cast_alone_step)
          (auto simp: at_cell_def connection_send_def cell_send_def cell_evict_def cast_alone_refl)
    qed
  qed
qed

lemma cast_update_swap:
  "k\<lparr>cast_ids := ids, cast_log := log\<rparr> = k\<lparr>cast_log := log, cast_ids := ids\<rparr>"
  "k\<lparr>cast_ids := ids, cast_shards := js\<rparr> = k\<lparr>cast_shards := js, cast_ids := ids\<rparr>"
  "k\<lparr>cast_shards := js, cast_log := log\<rparr> = k\<lparr>cast_log := log, cast_shards := js\<rparr>"
  by (cases k; simp)+

lemma ids_alone:
  "\<exists>log. cast_alone rt sh iter (Casting (k\<lparr>cast_ids := ids\<rparr>), w)
      (Casting (k\<lparr>cast_ids := [], cast_log := log\<rparr>),
       snd (fan_out rt (cast_msg k) (source_skips (cast_source k)) ids (sent_count (cast_log k), w))) \<and>
    sent_count log = fst (fan_out rt (cast_msg k) (source_skips (cast_source k)) ids (sent_count (cast_log k), w))"
proof (induction ids arbitrary: k w)
  case Nil
  show ?case by (rule exI [of _ "cast_log k"]) (simp add: fan_out_def cast_alone_refl)
next
  case (Cons cid ids)
  show ?case
  proof (cases "source_skips (cast_source k) cid \<or> connections w cid = None")
    case True
    then have "cast_step rt sh iter (Casting (k\<lparr>cast_ids := cid # ids\<rparr>)) w = (Casting (k\<lparr>cast_ids := ids\<rparr>), w)"
      "fan_out rt (cast_msg k) (source_skips (cast_source k)) (cid # ids) (sent_count (cast_log k), w) =
        fan_out rt (cast_msg k) (source_skips (cast_source k)) ids (sent_count (cast_log k), w)"
      by (auto simp: fan_out_def send_to_member_def)
    then show ?thesis using Cons [of k w] by (metis cast_alone_step)
  next
    case False
    then obtain c where c: "\<not> source_skips (cast_source k) cid" "connections w cid = Some c" by blast
    obtain r cls where send: "connection_send rt (cast_msg k) c (cells w) = (r :: (unit, unit, unit, unit) ws_result, cls)"
      by fastforce
    let ?k = "k\<lparr>cast_log := cast_log k @ [(c, is_ok r)]\<rparr>" and ?w = "w\<lparr>cells := cls\<rparr>"
    have "cast_step rt sh iter (Casting (k\<lparr>cast_ids := cid # ids\<rparr>)) w =
        (Sending (k\<lparr>cast_ids := ids\<rparr>) c (SendCheck (cast_msg k)), w)" using c by simp
    then have "cast_alone rt sh iter (Casting (k\<lparr>cast_ids := cid # ids\<rparr>), w) (Casting (?k\<lparr>cast_ids := ids\<rparr>), ?w)"
      using send_alone [OF send, where k = "k\<lparr>cast_ids := ids\<rparr>" and sh = sh and iter = iter]
      by (intro cast_alone_step) (simp add: cast_update_swap)
    moreover have "fan_out rt (cast_msg k) (source_skips (cast_source k)) (cid # ids) (sent_count (cast_log k), w) =
        fan_out rt (cast_msg ?k) (source_skips (cast_source ?k)) ids (sent_count (cast_log ?k), ?w)"
      using c send by (simp add: fan_out_def send_to_member_def send_counted_def sent_count_def)
    ultimately show ?thesis using Cons [of ?k ?w] by (auto intro: cast_alone_trans)
  qed
qed

lemma shards_alone:
  "\<exists>log. cast_alone rt sh iter (Casting (k\<lparr>cast_ids := [], cast_shards := js\<rparr>), w)
      (CastDone (cast_msg k) log,
       snd (fan_out rt (cast_msg k) (source_skips (cast_source k))
         (concat (map (\<lambda>j. iter {x \<in> source_ids (cast_source k) w. shard_of sh (source_map (cast_source k)) x = j}) js)) (sent_count (cast_log k), w))) \<and>
    sent_count log = fst (fan_out rt (cast_msg k) (source_skips (cast_source k))
         (concat (map (\<lambda>j. iter {x \<in> source_ids (cast_source k) w. shard_of sh (source_map (cast_source k)) x = j}) js)) (sent_count (cast_log k), w))"
proof (induction js arbitrary: k w)
  case Nil
  show ?case by (rule exI [of _ "cast_log k"], intro conjI cast_alone_step) (simp_all add: fan_out_def cast_alone_refl)
next
  case (Cons j js)
  let ?src = "cast_source k" and ?m = "cast_msg k"
  let ?ids = "iter {x \<in> source_ids ?src w. shard_of sh (source_map ?src) x = j}"
  let ?s = "fan_out rt ?m (source_skips ?src) ?ids (sent_count (cast_log k), w)"
  have same: "source_ids ?src (snd ?s) = source_ids ?src w" by (cases ?src) simp_all
  obtain log where log: "cast_alone rt sh iter (Casting (k\<lparr>cast_shards := js, cast_ids := ?ids\<rparr>), w)
      (Casting (k\<lparr>cast_shards := js, cast_ids := [], cast_log := log\<rparr>), snd ?s)" "sent_count log = fst ?s"
    using ids_alone [where k = "k\<lparr>cast_shards := js\<rparr>" and ids = ?ids and w = w and rt = rt and sh = sh and iter = iter] by auto
  have "cast_alone rt sh iter (Casting (k\<lparr>cast_ids := [], cast_shards := j # js\<rparr>), w)
      (Casting (k\<lparr>cast_log := log, cast_ids := [], cast_shards := js\<rparr>), snd ?s)"
    using log(1) by (intro cast_alone_step) (simp add: cast_update_swap)
  moreover have "fan_out rt ?m (source_skips ?src)
      (concat (map (\<lambda>j. iter {x \<in> source_ids ?src w. shard_of sh (source_map ?src) x = j}) (j # js))) (sent_count (cast_log k), w) =
    fan_out rt ?m (source_skips ?src)
      (concat (map (\<lambda>j. iter {x \<in> source_ids ?src (snd ?s). shard_of sh (source_map ?src) x = j}) js)) (sent_count log, snd ?s)"
    unfolding same log(2) by (simp add: fan_out_def)
  ultimately show ?case
    using Cons [of "k\<lparr>cast_log := log\<rparr>" "snd ?s"] by (auto intro: cast_alone_trans)
qed

lemma start_alone:
  "\<exists>log. cast_alone rt sh iter (Casting (cast_start sh src m), w)
      (CastDone m log, snd (fan_out rt m (source_skips src) (by_shards sh (source_map src) iter (source_ids src w)) (0, w))) \<and>
    sent_count log = fst (fan_out rt m (source_skips src) (by_shards sh (source_map src) iter (source_ids src w)) (0, w))"
  using shards_alone [where k = "cast_start sh src m" and js = "[0..<shard_count sh]" and w = w and rt = rt and iter = iter]
  by (simp add: cast_start_def by_shards_def sent_count_def)

lemma skips_eq:
  "source_skips (MembersOf ref None) = (\<lambda>_. False)" "source_skips (MembersOf ref (Some x)) = (\<lambda>cid. cid = x)"
  "source_skips AllConnections = (\<lambda>_. False)"
  by auto

lemma room_alone:
  assumes "rooms w rid = Some ref"
  shows "\<exists>log. cast_alone rt sh iter (Lookup (InRoom rid ex) m, w)
      (CastDone m log, snd (fan_out rt m (source_skips (MembersOf ref ex)) (by_shards sh (MembersMap ref) iter (members (room_heap w ref))) (0, w))) \<and>
    sent_count log =
      fst (fan_out rt m (source_skips (MembersOf ref ex)) (by_shards sh (MembersMap ref) iter (members (room_heap w ref))) (0, w))"
proof -
  have "cast_step rt sh iter (Lookup (InRoom rid ex) m) w = (Casting (cast_start sh (MembersOf ref ex) m), w)"
    using assms by simp
  then show ?thesis
    using start_alone [where src = "MembersOf ref ex" and w = w and rt = rt and sh = sh and iter = iter and m = m]
    by (metis cast_alone_step source_ids.simps(2) source_map.simps(2))
qed

lemma no_room_alone:
  "rooms w rid = None \<Longrightarrow> cast_alone rt sh iter (Lookup (InRoom rid ex) m, w) (CastFailed rid, w)"
  by (intro cast_alone_step) (simp add: cast_alone_refl)

text \<open>It does what the function does that models it as a whole, for that order.\<close>

lemma broadcasts_are_casts:
  fixes w :: "('ch, 'nt, 'z) world_scheme"
  shows "(case broadcast_to_room rt (by_shards sh (MembersMap (the (rooms w rid))) iter) rid m w :: (unit, unit, unit, nat) ws_result \<times> _ of
       (Inl e, w') \<Rightarrow> e = RoomNotFound rid \<and>
         cast_alone rt sh iter (Lookup (InRoom rid None) m, w) (CastFailed rid, w')
     | (Inr n, w') \<Rightarrow> \<exists>log. cast_alone rt sh iter (Lookup (InRoom rid None) m, w) (CastDone m log, w') \<and>
         sent_count log = n) \<and>
    (case broadcast_to_room_except rt (by_shards sh (MembersMap (the (rooms w rid))) iter) rid m x w :: (unit, unit, unit, nat) ws_result \<times> _ of
       (Inl e, w') \<Rightarrow> e = RoomNotFound rid \<and>
         cast_alone rt sh iter (Lookup (InRoom rid (Some x)) m, w) (CastFailed rid, w')
     | (Inr n, w') \<Rightarrow> \<exists>log. cast_alone rt sh iter (Lookup (InRoom rid (Some x)) m, w) (CastDone m log, w') \<and>
         sent_count log = n) \<and>
    (case broadcast_all rt (by_shards sh ConnectionsMap iter) m w of
       (n, w') \<Rightarrow> \<exists>log. cast_alone rt sh iter (Lookup Everyone m, w) (CastDone m log, w') \<and> sent_count log = n)"
proof (intro conjI)
  show "case broadcast_to_room rt (by_shards sh (MembersMap (the (rooms w rid))) iter) rid m w :: (unit, unit, unit, nat) ws_result \<times> _ of
       (Inl e, w') \<Rightarrow> e = RoomNotFound rid \<and>
         cast_alone rt sh iter (Lookup (InRoom rid None) m, w) (CastFailed rid, w')
     | (Inr n, w') \<Rightarrow> \<exists>log. cast_alone rt sh iter (Lookup (InRoom rid None) m, w) (CastDone m log, w') \<and>
         sent_count log = n"
    using room_alone [of w rid _ rt sh iter None m] no_room_alone [of w rid rt sh iter None m]
    by (cases "rooms w rid") (simp_all add: broadcast_to_room_fan_out Let_def skips_eq)
  show "case broadcast_to_room_except rt (by_shards sh (MembersMap (the (rooms w rid))) iter) rid m x w :: (unit, unit, unit, nat) ws_result \<times> _ of
       (Inl e, w') \<Rightarrow> e = RoomNotFound rid \<and>
         cast_alone rt sh iter (Lookup (InRoom rid (Some x)) m, w) (CastFailed rid, w')
     | (Inr n, w') \<Rightarrow> \<exists>log. cast_alone rt sh iter (Lookup (InRoom rid (Some x)) m, w) (CastDone m log, w') \<and>
         sent_count log = n"
    using room_alone [of w rid _ rt sh iter "Some x" m] no_room_alone [of w rid rt sh iter "Some x" m]
    by (cases "rooms w rid") (simp_all add: broadcast_to_room_except_fan_out Let_def skips_eq)
  have "\<exists>log. cast_alone rt sh iter (Lookup Everyone m, w)
      (CastDone m log, snd (fan_out rt m (\<lambda>_. False) (by_shards sh ConnectionsMap iter (dom (connections w))) (0, w))) \<and>
    sent_count log = fst (fan_out rt m (\<lambda>_. False) (by_shards sh ConnectionsMap iter (dom (connections w))) (0, w))"
    using start_alone [where src = AllConnections and w = w and rt = rt and sh = sh and iter = iter and m = m]
    unfolding skips_eq source_ids.simps source_map.simps by (metis cast_alone_step cast_step.simps(1))
  then show "case broadcast_all rt (by_shards sh ConnectionsMap iter) m w of
       (n, w') \<Rightarrow> \<exists>log. cast_alone rt sh iter (Lookup Everyone m, w) (CastDone m log, w') \<and> sent_count log = n"
    by (simp add: broadcast_all_fan_out case_prod_unfold)
qed

text \<open>In the interleaving semantics a single broadcast makes these steps, and ends in one way only.\<close>

lemma cast_done_stays: "cast_done c \<Longrightarrow> cast_step rt sh iter c w = (c, w)"
  by (cases c) simp_all

lemma cast_alone_ends_once:
  assumes "cast_alone rt sh iter x (c1, w1)" "cast_done c1" "cast_alone rt sh iter x (c2, w2)" "cast_done c2"
  shows "c1 = c2 \<and> w1 = w2"
proof -
  let ?f = "\<lambda>(c, w). cast_step rt sh iter c w"
  have stay: "(?f ^^ n) (c, w) = (c, w)" if "cast_done c" for n c w
    using that by (induction n) (simp_all add: cast_done_stays)
  obtain m n where "(?f ^^ m) x = (c1, w1)" "(?f ^^ n) x = (c2, w2)"
    using assms(1,3) unfolding cast_alone_def by blast
  moreover from this have "(?f ^^ (n + m)) x = (c1, w1)" "(?f ^^ (m + n)) x = (c2, w2)"
    by (simp_all only: funpow_add comp_apply stay [OF assms(2)] stay [OF assms(4)])
  ultimately show ?thesis by (simp add: add.commute)
qed

lemma lone_cast:
  assumes "interleavings (cast_step rt sh iter) cast_done ([c], w) (cs, w')"
  shows "\<exists>c'. cs = [c'] \<and> cast_alone rt sh iter (c, w) (c', w')"
proof (rule interleavings_invariant [OF assms, where I = "\<lambda>cs w'. \<exists>c'. cs = [c'] \<and> cast_alone rt sh iter (c, w) (c', w')"])
  show "\<exists>c'. [c] = [c'] \<and> cast_alone rt sh iter (c, w) (c', w)" by (simp add: cast_alone_refl)
  fix cs1 w1 cs2 w2
  assume I: "\<exists>c'. cs1 = [c'] \<and> cast_alone rt sh iter (c, w) (c', w1)"
    and "interleave (cast_step rt sh iter) cast_done (cs1, w1) (cs2, w2)"
  then obtain c1 c2 where "cs1 = [c1]" "cast_step rt sh iter c1 w1 = (c2, w2)" "cs2 = [c2]"
    by (auto elim!: interleaveE)
  moreover from this(2) have "cast_alone rt sh iter (c1, w1) (c2, w2)"
    by (intro cast_alone_step) (simp add: cast_alone_refl)
  ultimately show "\<exists>c'. cs2 = [c'] \<and> cast_alone rt sh iter (c, w) (c', w2)"
    using I by (auto intro: cast_alone_trans)
qed

lemma cast_alone_run:
  assumes "cast_alone rt sh iter (c, w) (c', w')"
  shows "interleavings (cast_step rt sh iter) cast_done ([c], w) ([c'], w')"
proof -
  obtain n where "((\<lambda>(c, w). cast_step rt sh iter c w) ^^ n) (c, w) = (c', w')"
    using assms unfolding cast_alone_def by blast
  then show ?thesis
  proof (induction n arbitrary: c w)
    case 0
    then show ?case by (simp add: interleavings_def)
  next
    case (Suc n)
    obtain c1 w1 where step: "cast_step rt sh iter c w = (c1, w1)" by fastforce
    then have run: "interleavings (cast_step rt sh iter) cast_done ([c1], w1) ([c'], w')"
      using Suc by (simp add: funpow_swap1)
    show ?case
    proof (cases "cast_done c")
      case True
      then show ?thesis using run step cast_done_stays [OF True, of rt sh iter w] by simp
    next
      case False
      then have "interleave (cast_step rt sh iter) cast_done ([c], w) ([c][0 := c1], w1)"
        using step by (intro turn) simp_all
      then show ?thesis using run by (simp add: interleavings_def converse_rtranclp_into_rtranclp)
    qed
  qed
qed

text \<open>Whom a broadcast is addressed to, and that its room exists.\<close>

fun addressed :: "target \<Rightarrow> ('ch, 'nt, 'z) world_scheme \<Rightarrow> string set" where
  "addressed Everyone w = dom (connections w)"
| "addressed (InRoom rid ex) w = {cid \<in> members_of w rid. ex \<noteq> Some cid}"

fun target_exists :: "target \<Rightarrow> ('ch, 'nt, 'z) world_scheme \<Rightarrow> bool" where
  "target_exists Everyone w = True"
| "target_exists (InRoom rid _) w = (rid \<in> dom (rooms w))"

lemma fan_out_world:
  assumes "manager_ok w" and "distinct ids" and "audience w skip (set ids) = A"
  shows "fan_out rt m skip ids (0, w) = (card {cid \<in> A. delivers rt m w cid},
    w\<lparr>cells := (\<lambda>i. if i \<in> cell_of w ` A then after_send rt m (cells w i) else cells w i)\<rparr>)"
proof -
  have "inj_on (cell_of w) (dom (connections w))"
    using assms(1) by (simp add: manager_ok_def cell_of_def [abs_def])
  note spec = fan_out_spec [OF assms(2) this, of rt m skip 0, unfolded assms(3)]
  have "snd (fan_out rt m skip ids (0, w)) = w\<lparr>cells := cells (snd (fan_out rt m skip ids (0, w)))\<rparr>"
    by (intro world.equality) (simp_all add: fan_out_more)
  with spec show ?thesis by (simp add: prod_eq_iff)
qed

lemma broadcast_alone:
  assumes ok: "manager_ok w" and it: "iterates iter" and sh: "\<forall>N cid. shard_of sh N cid < shard_count sh"
    and tgt: "target_exists tgt w"
  shows "\<exists>log. cast_alone rt sh iter (Lookup tgt m, w) (CastDone m log,
      w\<lparr>cells := (\<lambda>i. if i \<in> cell_of w ` addressed tgt w then after_send rt m (cells w i) else cells w i)\<rparr>) \<and>
    sent_count log = card {cid \<in> addressed tgt w. delivers rt m w cid}"
proof (cases tgt)
  case Everyone
  let ?ids = "by_shards sh ConnectionsMap iter (dom (connections w))"
  have "distinct ?ids \<and> set ?ids = dom (connections w)"
    using iterates_by_shards [OF it, of sh ConnectionsMap] sh manager_okD(4) [OF ok] by (simp add: iterates_def)
  then have "fan_out rt m (source_skips AllConnections) ?ids (0, w) = (card {cid \<in> addressed tgt w. delivers rt m w cid},
      w\<lparr>cells := (\<lambda>i. if i \<in> cell_of w ` addressed tgt w then after_send rt m (cells w i) else cells w i)\<rparr>)"
    by (intro fan_out_world ok) (auto simp: audience_def Everyone)
  moreover obtain log where
    "cast_alone rt sh iter (Casting (cast_start sh AllConnections m), w)
       (CastDone m log, snd (fan_out rt m (source_skips AllConnections) ?ids (0, w)))"
    "sent_count log = fst (fan_out rt m (source_skips AllConnections) ?ids (0, w))"
    using start_alone [where src = AllConnections and w = w and rt = rt and sh = sh and iter = iter and m = m]
    unfolding source_ids.simps source_map.simps by blast
  ultimately show ?thesis unfolding Everyone by (intro exI [of _ log] conjI cast_alone_step) simp_all
next
  case (InRoom rid ex)
  then obtain ref where ref: "rooms w rid = Some ref" using tgt by auto
  let ?ids = "by_shards sh (MembersMap ref) iter (members (room_heap w ref))"
  have mem: "members (room_heap w ref) = members_of w rid" by (simp add: members_of_def ref)
  have "distinct ?ids \<and> set ?ids = members_of w rid"
    using iterates_by_shards [OF it, of sh "MembersMap ref"] sh members_registered(2) [OF ok, of rid]
    by (simp add: iterates_def mem)
  then have "fan_out rt m (source_skips (MembersOf ref ex)) ?ids (0, w) =
     (card {cid \<in> addressed tgt w. delivers rt m w cid},
      w\<lparr>cells := (\<lambda>i. if i \<in> cell_of w ` addressed tgt w then after_send rt m (cells w i) else cells w i)\<rparr>)"
    using members_registered(1) [OF ok, of rid]
    by (intro fan_out_world ok) (auto simp: audience_def InRoom)
  with room_alone [OF ref, of rt sh iter ex m] show ?thesis unfolding InRoom by simp
qed

section \<open>Properties\<close>

text \<open>
  C33. Shard by shard and access by access, each of the three broadcasts, when the room manager is in its
  invariant and nothing interrupts, comes
  to its end with one send to each connection it is addressed to (all of them, or the members of the
  room but for the excepted one), each to the effect of a \<open>Connection::send\<close>, and no access to any
  other; it reports as many as those sends that succeeded.  If the room does not exist it fails and
  changes nothing.
\<close>

theorem uninterrupted_broadcast:
  assumes "manager_ok w" and "iterates iter" and "\<forall>N cid. shard_of sh N cid < shard_count sh"
  shows "(\<exists>cs w'. interleavings (cast_step rt sh iter) cast_done ([Lookup tgt m], w) (cs, w') \<and> list_all cast_done cs) \<and>
    (\<forall>cs w'. interleavings (cast_step rt sh iter) cast_done ([Lookup tgt m], w) (cs, w') \<and> list_all cast_done cs \<longrightarrow>
       (if target_exists tgt w then
          (\<exists>log. cs = [CastDone m log] \<and> sent_count log = card {cid \<in> addressed tgt w. delivers rt m w cid}) \<and>
          w' = w\<lparr>cells := (\<lambda>i. if i \<in> cell_of w ` addressed tgt w then after_send rt m (cells w i) else cells w i)\<rparr>
        else (\<exists>rid ex. tgt = InRoom rid ex \<and> cs = [CastFailed rid]) \<and> w' = w))"
proof (rule conjI)
  let ?w1 = "w\<lparr>cells := (\<lambda>i. if i \<in> cell_of w ` addressed tgt w then after_send rt m (cells w i) else cells w i)\<rparr>"
  let ?right = "\<lambda>cs w'. if target_exists tgt w then
      (\<exists>log. cs = [CastDone m log] \<and> sent_count log = card {cid \<in> addressed tgt w. delivers rt m w cid}) \<and> w' = ?w1
    else (\<exists>rid ex. tgt = InRoom rid ex \<and> cs = [CastFailed rid]) \<and> w' = w"
  obtain c w2 where c: "cast_alone rt sh iter (Lookup tgt m, w) (c, w2)" "cast_done c" "?right [c] w2"
  proof (cases "target_exists tgt w")
    case True
    then obtain log where "cast_alone rt sh iter (Lookup tgt m, w) (CastDone m log, ?w1)"
      "sent_count log = card {cid \<in> addressed tgt w. delivers rt m w cid}"
      using broadcast_alone [OF assms True, of rt m] by blast
    with True show ?thesis by (intro that) auto
  next
    case False
    then obtain rid ex where tgt: "tgt = InRoom rid ex" "rooms w rid = None" by (cases tgt) auto
    show ?thesis
      by (rule that [OF no_room_alone [OF tgt(2), where ex = ex, folded tgt(1)]]) (use False tgt(1) in auto)
  qed
  show "\<exists>cs w'. interleavings (cast_step rt sh iter) cast_done ([Lookup tgt m], w) (cs, w') \<and> list_all cast_done cs"
    using cast_alone_run [OF c(1)] c(2) by (intro exI [of _ "[c]"] exI [of _ w2]) simp
  show "\<forall>cs w'. interleavings (cast_step rt sh iter) cast_done ([Lookup tgt m], w) (cs, w') \<and> list_all cast_done cs \<longrightarrow>
      ?right cs w'"
  proof (intro allI impI)
    fix cs w' assume run: "interleavings (cast_step rt sh iter) cast_done ([Lookup tgt m], w) (cs, w') \<and> list_all cast_done cs"
    then obtain c' where c': "cs = [c']" "cast_alone rt sh iter (Lookup tgt m, w) (c', w')" "cast_done c'"
      using lone_cast by fastforce
    then have "c' = c" "w' = w2" using cast_alone_ends_once [OF _ _ c(1,2)] by blast+
    with c(3) c'(1) show "?right cs w'" by (simp only:)
  qed
qed

text \<open>
  Two members; one leaves after the broadcast has found the room, somebody else sends to the other,
  and its writer is at work.
\<close>

definition one_shard :: sharding where
  "one_shard = \<lparr>shard_of = (\<lambda>_ _. 0), shard_count = 1, hand_over = False\<rparr>"

definition roomy_world :: "(fifo, bool) world" where
  "roomy_world = sample_world\<lparr>cells := \<lambda>_. cell_new fifo_runtime (fifo_new 8)\<rparr>"

definition sample_actors :: "actor list" where
  "sample_actors =
     [Caster (Lookup (InRoom ''r'' None) (ping_msg [])), Caller (LeaveMember ''b'' ''r''),
      Sender 0 (SendCheck (text_msg ''hi'')), Receiver 0 []]"

lemma roomy_world_ok: "manager_ok roomy_world"
  using sample_world_ok by (subst manager_ok_frame(1) [of _ sample_world]) (simp_all add: roomy_world_def)

lemma roomy_world_room:
  "rooms roomy_world ''r'' = Some 0" "members (room_heap roomy_world 0) = {''a'', ''b''}"
  "connections roomy_world ''a'' = Some (sample_handle ''a'' 0)"
  "dom (connections roomy_world) = {''a'', ''b''}" "members_of roomy_world ''r'' = {''a'', ''b''}"
proof -
  note evals = sample_world_def sample_manager_ops_def join_room_def register_connection_def create_room_def
    sample_handle_def update_index_def world_new_def roomy_world_def
  show r: "rooms roomy_world ''r'' = Some 0" "connections roomy_world ''a'' = Some (sample_handle ''a'' 0)"
    by (simp_all add: evals)
  show "members_of roomy_world ''r'' = {''a'', ''b''}" using sample_world_views(1) by (simp add: roomy_world_def)
  then show "members (room_heap roomy_world 0) = {''a'', ''b''}" by (simp add: members_of_def r)
  show "dom (connections roomy_world) = {''a'', ''b''}" using sample_world_views(4) by (simp add: roomy_world_def)
qed

theorem uninterrupted_broadcast_witness:
  "\<exists>log w'. interleavings (cast_step fifo_runtime one_shard by_id) cast_done
       ([Lookup (InRoom ''r'' (Some ''b'')) (ping_msg [])], roomy_world) ([CastDone (ping_msg []) log], w') \<and>
     sent_count log = 1 \<and> f_buf (c_tx (cells w' 0)) = [ping_msg []] \<and> f_buf (c_tx (cells w' 1)) = []"
proof -
  have sh: "\<forall>N cid. shard_of one_shard N cid < shard_count one_shard" by (simp add: one_shard_def)
  have adr: "addressed (InRoom ''r'' (Some ''b'')) roomy_world = {''a''}" by (auto simp: roomy_world_room)
  have room: "target_exists (InRoom ''r'' (Some ''b'')) roomy_world" using roomy_world_room(1) by auto
  have cell: "cell_of roomy_world ''a'' = 0" by (simp add: cell_of_def roomy_world_room sample_handle_def)
  have fresh: "cells roomy_world i = cell_new fifo_runtime (fifo_new 8)" for i by (simp add: roomy_world_def)
  have "delivers fifo_runtime (ping_msg []) roomy_world ''a''"
    by (simp add: delivers_def fresh cell_send_ok_iff cell_new_def fifo_defs)
  then have "{cid \<in> {''a''}. delivers fifo_runtime (ping_msg []) roomy_world cid} = {''a''}" by auto
  moreover have "f_buf (c_tx (after_send fifo_runtime (ping_msg []) (cells roomy_world 0))) = [ping_msg []]"
    "f_buf (c_tx (cells roomy_world 1)) = []"
    by (simp_all add: fresh after_send_def cell_send_def cell_new_def fifo_defs cell_is_open_def)
  ultimately have one: "card {cid \<in> {''a''}. delivers fifo_runtime (ping_msg []) roomy_world cid} = 1"
    "f_buf (c_tx (after_send fifo_runtime (ping_msg []) (cells roomy_world 0))) = [ping_msg []]"
    "f_buf (c_tx (cells roomy_world 1)) = []" by simp_all
  note both = uninterrupted_broadcast [OF roomy_world_ok iterates_by_id sh,
      of fifo_runtime "InRoom ''r'' (Some ''b'')" "ping_msg []", unfolded adr if_P [OF room] one(1)]
  obtain cs w' where run: "interleavings (cast_step fifo_runtime one_shard by_id) cast_done
       ([Lookup (InRoom ''r'' (Some ''b'')) (ping_msg [])], roomy_world) (cs, w') \<and> list_all cast_done cs"
    using both by blast
  note result = both [THEN conjunct2, rule_format, OF run]
  from result obtain log where log: "cs = [CastDone (ping_msg []) log]" "sent_count log = 1" by blast
  from result have "cells w' = (\<lambda>i. if i \<in> cell_of roomy_world ` {''a''}
      then after_send fifo_runtime (ping_msg []) (cells roomy_world i) else cells roomy_world i)" by simp
  then have "cells w' 0 = after_send fifo_runtime (ping_msg []) (cells roomy_world 0)" "cells w' 1 = cells roomy_world 1"
    by (simp_all add: cell)
  with one(2,3) log run show ?thesis by (intro exI [of _ log] exI [of _ w']) simp
qed

lemma sample_run:
  obtains w where
    "interleavings (actor_step fifo_runtime one_shard by_id) actor_done (sample_actors, roomy_world)
      ([Caster (CastDone (ping_msg []) [(sample_handle ''a'' 0, True)]), Caller (LeaveIndex ''b'' ''r''),
        Sender 0 (SenderDone (Some (text_msg ''hi''))), Receiver 0 [text_msg ''hi'', ping_msg []]], w)"
proof -
  let ?run = "run_schedule (actor_step fifo_runtime one_shard by_id) actor_done
      [0, 1, 2, 0, 0, 2, 0, 3, 0, 3, 0, 3] (sample_actors, roomy_world)"
  have "cells roomy_world = (\<lambda>_. cell_new fifo_runtime (fifo_new 8))" by (simp add: roomy_world_def)
  then have fst: "fst ?run = [Caster (CastDone (ping_msg []) [(sample_handle ''a'' 0, True)]), Caller (LeaveIndex ''b'' ''r''),
        Sender 0 (SenderDone (Some (text_msg ''hi''))), Receiver 0 [text_msg ''hi'', ping_msg []]]"
    by (simp add: sample_actors_def one_shard_def roomy_world_room cast_start_def at_cell_eq leave_if_present_def
        room_leave_def cell_new_def fifo_defs cell_is_open_def sample_handle_def cell_recv_def insert_Diff_if by_id_def)
  have "interleavings (actor_step fifo_runtime one_shard by_id) actor_done (sample_actors, roomy_world) (fst ?run, snd ?run)"
    unfolding prod.collapse by (rule run_schedule_interleaving)
  then show ?thesis unfolding fst by (rule that)
qed

lemma company_run:
  assumes "iterates iter" "\<forall>N cid. shard_of sh N cid < shard_count sh" "manager_ok w0" "list_all actor_call calls"
    and "interleavings (actor_step rt sh iter) actor_done (calls, w0) (as, w)"
  shows "company sh calls w0 as w"
  by (rule interleavings_invariant [where I = "company sh calls w0", OF assms(5) company_start [OF assms(3,4)]])
    (rule company_step [OF _ _ assms(1,2)])

context tokio_runtime begin

lemma balanced_start: "list_all actor_call calls \<Longrightarrow> balanced w0 calls w0"
proof (induction calls)
  case (Cons a calls)
  moreover have "accepted_at ref a = [] \<and> received_at ref a = [] \<and> actor_sends a" if "actor_call a" for ref a
    using that by (cases a rule: actor_call.cases) (auto elim: sender_call.elims)
  ultimately show ?case by (simp add: balanced_def)
qed (simp add: balanced_def)

lemma balanced_run:
  assumes "list_all actor_call calls" "interleavings (actor_step rt sh iter) actor_done (calls, w0) (as, w)"
  shows "balanced w0 as w"
  by (rule interleavings_invariant [where I = "balanced w0", OF assms(2) balanced_start [OF assms(1)]])
    (rule balanced_step)

lemma relaxed_start: "list_all actor_call calls \<Longrightarrow> roomy queued capacity rx_alive calls w0 ref \<Longrightarrow> relaxed ref calls w0"
proof -
  assume calls: "list_all actor_call calls" and room: "roomy queued capacity rx_alive calls w0 ref"
  have "at_ease ref a" if "a \<in> set calls" for a
  proof -
    have "actor_call a" "a \<noteq> Sender ref CloseStore" using calls room that by (auto simp: list_all_iff roomy_def)
    then show ?thesis by (cases a rule: actor_call.cases) (auto elim!: sender_call.elims)
  qed
  then show ?thesis using room by (simp add: relaxed_def roomy_def list_all_iff)
qed

lemma relaxed_run:
  assumes "iterates iter" "\<forall>N cid. shard_of sh N cid < shard_count sh" "manager_ok w0" "list_all actor_call calls"
    and run: "interleavings (actor_step rt sh iter) actor_done (calls, w0) (as, w)"
    and "roomy queued capacity rx_alive calls w0 ref" "inj_on conn_cell (known_conns calls w0)"
  shows "relaxed ref as w"
proof -
  have "company sh calls w0 as w \<and> balanced w0 as w \<and> relaxed ref as w"
  proof (rule interleavings_invariant [where I = "\<lambda>as w. company sh calls w0 as w \<and> balanced w0 as w \<and> relaxed ref as w", OF run])
    show "company sh calls w0 calls w0 \<and> balanced w0 calls w0 \<and> relaxed ref calls w0"
      using company_start [OF assms(3,4)] balanced_start [OF assms(4)] relaxed_start [OF assms(4,6)] by blast
  next
    fix as w as' w'
    assume I: "company sh calls w0 as w \<and> balanced w0 as w \<and> relaxed ref as w"
      and step: "interleave (actor_step rt sh iter) actor_done (as, w) (as', w')"
    then show "company sh calls w0 as' w' \<and> balanced w0 as' w' \<and> relaxed ref as' w'"
      using company_step [OF _ step assms(1,2)] balanced_step [OF _ step] relaxed_step [OF _ _ assms(6) _ assms(7) step]
      by blast
  qed
  then show ?thesis by simp
qed

end

text \<open>
  C16. A broadcast reaches whom it should, whatever goes on at the same time: registrations,
  unregistrations, joins, leaves, deletions, other broadcasts, sends, closes and writers.  It sends to
  nobody twice, to nobody who was neither there when the calls began nor added by one of them, and to
  everybody whom no call takes away; it finds no room only if there is nobody in it who stays; each of
  its sends succeeds if the connection is open, with room for one message of each actor; and it
  returns after finitely many turns of its own.
\<close>

theorem concurrent_broadcast:
  fixes w0 :: "('ch, 'nt) world"
  assumes "tokio_runtime rt queued capacity rx_alive" and "iterates iter" and "\<forall>N cid. shard_of sh N cid < shard_count sh"
    and "manager_ok w0" and "list_all actor_call calls"
    and "interleavings (actor_step rt sh iter) actor_done (calls, w0) (as, w)"
    and "i < length calls" and "calls ! i = Caster (Lookup T m)"
  shows "(\<forall>m' log. as ! i = Caster (CastDone m' log) \<longrightarrow>
       m' = m \<and> distinct (log_ids log) \<and>
       must_reach calls w0 T \<subseteq> set (log_ids log) \<and> set (log_ids log) \<subseteq> may_reach calls w0 T \<and>
       fst ` set log \<subseteq> known_conns calls w0 \<and>
       (inj_on conn_cell (known_conns calls w0) \<longrightarrow>
          (\<forall>(c, b) \<in> set log. roomy queued capacity rx_alive calls w0 (conn_cell c) \<longrightarrow> b))) \<and>
    (\<forall>rid. as ! i = Caster (CastFailed rid) \<longrightarrow> must_reach calls w0 T = {}) \<and>
    wf (cast_turns rt sh iter)"
proof -
  have "company sh calls w0 as w" by (rule company_run [OF assms(2-6)])
  then have ok: "actor_ok sh calls w0 (Caster (Lookup T m)) (as ! i) w"
    using assms(7,8) by (metis company_def list_all2_nthD)
  have "i < length as" using \<open>company sh calls w0 as w\<close> assms(7) by (metis company_def list_all2_lengthD)
  have good: "b" if "as ! i = Caster (CastDone m' log)" "inj_on conn_cell (known_conns calls w0)" "(c, b) \<in> set log"
      "roomy queued capacity rx_alive calls w0 (conn_cell c)" for m' log c b
  proof -
    have "relaxed (conn_cell c) as w"
      by (rule tokio_runtime.relaxed_run [OF assms(1-6) that(4,2)])
    then have "at_ease (conn_cell c) (as ! i)" using \<open>i < length as\<close> by (simp add: relaxed_def list_all_length)
    then show ?thesis using that(1,3) by (auto simp: log_good_def)
  qed
  have reach: "m' = m \<and> distinct (log_ids log) \<and>
      must_reach calls w0 T \<subseteq> set (log_ids log) \<and> set (log_ids log) \<subseteq> may_reach calls w0 T \<and>
      fst ` set log \<subseteq> known_conns calls w0"
    if "as ! i = Caster (CastDone m' log)" for m' log
    using ok that by simp
  have failed: "must_reach calls w0 T = {}" if "as ! i = Caster (CastFailed rid)" for rid
    using ok that by simp
  have "\<forall>(c, b) \<in> set log. roomy queued capacity rx_alive calls w0 (conn_cell c) \<longrightarrow> b"
    if "as ! i = Caster (CastDone m' log)" "inj_on conn_cell (known_conns calls w0)" for m' log
    using good [OF that] by blast
  with reach failed wf_cast_turns show ?thesis by (intro conjI allI impI) simp_all
qed

theorem concurrent_broadcast_witness:
  "\<exists>as w log. interleavings (actor_step fifo_runtime one_shard by_id) actor_done (sample_actors, roomy_world) (as, w) \<and>
     as ! 0 = Caster (CastDone (ping_msg []) log) \<and> ''a'' \<in> set (log_ids log) \<and> set (log_ids log) \<subseteq> {''a'', ''b''} \<and>
     (\<forall>(c, b) \<in> set log. b)"
proof -
  obtain w where run: "interleavings (actor_step fifo_runtime one_shard by_id) actor_done (sample_actors, roomy_world)
      ([Caster (CastDone (ping_msg []) [(sample_handle ''a'' 0, True)]), Caller (LeaveIndex ''b'' ''r''),
        Sender 0 (SenderDone (Some (text_msg ''hi''))), Receiver 0 [text_msg ''hi'', ping_msg []]], w)"
    by (rule sample_run)
  have calls: "list_all actor_call sample_actors" "0 < length sample_actors"
    "sample_actors ! 0 = Caster (Lookup (InRoom ''r'' None) (ping_msg []))"
    by (simp_all add: sample_actors_def)
  have shards: "\<forall>N cid. shard_of one_shard N cid < shard_count one_shard" by (simp add: one_shard_def)
  have own: "inj_on conn_cell (known_conns sample_actors roomy_world)"
  proof -
    have "inj_on (\<lambda>cid. conn_cell (the (connections roomy_world cid))) (dom (connections roomy_world))"
      using roomy_world_ok by (simp add: manager_ok_def)
    moreover have "known_conns sample_actors roomy_world = ran (connections roomy_world)"
      by (simp add: known_conns_def sample_actors_def)
    ultimately show ?thesis by (auto simp: inj_on_def ran_def dom_def) (metis option.sel)
  qed
  have must: "''a'' \<in> must_reach sample_actors roomy_world (InRoom ''r'' None)"
    using roomy_world_room(4,5) by (auto simp: staying_in_def staying_def sample_actors_def)
  have may: "may_reach sample_actors roomy_world (InRoom ''r'' None) = {''a'', ''b''}"
    using roomy_world_room(5) by (auto simp: joiners_def sample_actors_def)
  have room: "roomy f_buf f_cap f_alive sample_actors roomy_world ref" for ref
    by (simp add: roomy_def roomy_world_def cell_new_def fifo_defs sample_actors_def)
  let ?as = "[Caster (CastDone (ping_msg []) [(sample_handle ''a'' 0, True)]), Caller (LeaveIndex ''b'' ''r''),
        Sender 0 (SenderDone (Some (text_msg ''hi''))), Receiver 0 [text_msg ''hi'', ping_msg []]]"
  let ?log = "[(sample_handle ''a'' 0, True)]"
  have ended: "?as ! 0 = Caster (CastDone (ping_msg []) ?log)" by simp
  note reached = concurrent_broadcast [OF fifo.tokio_runtime_axioms iterates_by_id shards roomy_world_ok calls(1) run
      calls(2,3), THEN conjunct1, rule_format, OF ended]
  have "''a'' \<in> set (log_ids ?log)" using reached must by blast
  moreover have "set (log_ids ?log) \<subseteq> {''a'', ''b''}" using reached unfolding may by blast
  moreover have "\<forall>(c, b) \<in> set ?log. b" using reached own room by blast
  ultimately show ?thesis using run ended by (intro exI conjI)
qed

text \<open>
  C23. No message is lost or made up: in every interleaving of broadcasts, sends, closes and writers
  with the operations of the room manager, what has come out of a queue and what is still in it is
  together what was in it and what the calls were told they had sent; and no queue exceeds its
  capacity.
\<close>

theorem messages_accounted:
  assumes "tokio_runtime rt queued capacity rx_alive" and "list_all actor_call calls"
    and "interleavings (actor_step rt sh iter) actor_done (calls, w0) (as, w)"
    and "length (queued (c_tx (cells w0 ref))) \<le> capacity (c_tx (cells w0 ref))"
  shows "mset (concat (map (received_at ref) as)) + mset (queued (c_tx (cells w ref))) =
      mset (queued (c_tx (cells w0 ref))) + mset (concat (map (accepted_at ref) as)) \<and>
    length (queued (c_tx (cells w ref))) \<le> capacity (c_tx (cells w ref))"
  using tokio_runtime.balanced_run [OF assms(1-3)] assms(4)
  by (simp add: tokio_runtime.balanced_def [OF assms(1)] add.commute)

theorem messages_accounted_witness:
  "\<exists>as w. interleavings (actor_step fifo_runtime one_shard by_id) actor_done (sample_actors, roomy_world) (as, w) \<and>
     mset (concat (map (received_at 0) as)) + mset (f_buf (c_tx (cells w 0))) = {#text_msg ''hi'', ping_msg []#} \<and>
     length (f_buf (c_tx (cells w 0))) \<le> f_cap (c_tx (cells w 0))"
proof -
  obtain w where run: "interleavings (actor_step fifo_runtime one_shard by_id) actor_done (sample_actors, roomy_world)
      ([Caster (CastDone (ping_msg []) [(sample_handle ''a'' 0, True)]), Caller (LeaveIndex ''b'' ''r''),
        Sender 0 (SenderDone (Some (text_msg ''hi''))), Receiver 0 [text_msg ''hi'', ping_msg []]], w)"
    by (rule sample_run)
  have "list_all actor_call sample_actors" by (simp add: sample_actors_def)
  from messages_accounted [OF fifo.tokio_runtime_axioms this run, of 0] run show ?thesis
    by (intro exI conjI) (auto simp: roomy_world_def cell_new_def fifo_defs logged_at_def sample_handle_def)
qed

end
