(* ===== verification/Ws_Lives.thy ===== *)
theory Ws_Lives imports Ws_Races begin

text \<open>
  The lives of connections in the room manager, interleaved access by access.  The task of a
  connection registers it, runs its callbacks one after the other and unregisters it
  (\<open>handle_connection\<close> in \<open>server.rs\<close>), so a handler that joins and leaves rooms only for the
  connection a callback is about makes its calls in that order, however the tasks of different
  connections are interleaved.  Then nothing is left behind, without any assumption on timing.
\<close>

section \<open>Lives\<close>

datatype room_op = JoinOp string | LeaveOp string

fun op_thread :: "string \<Rightarrow> room_op \<Rightarrow> thread" where
  "op_thread cid (JoinOp rid) = JoinCheck cid rid"
| "op_thread cid (LeaveOp rid) = LeaveMember cid rid"

definition life :: "connection \<Rightarrow> room_op list \<Rightarrow> thread list" where
  "life c ops = RegConnection c # map (op_thread (conn_id c)) ops @ [UnregTake (conn_id c)]"

text \<open>A task makes the next access of its current call, and goes on to the next call when it returned.\<close>

fun life_step ::
  "iteration \<Rightarrow> thread list \<Rightarrow> ('ch, 'nt, 'z) world_scheme \<Rightarrow> thread list \<times> ('ch, 'nt, 'z) world_scheme" where
  "life_step iter [] w = ([], w)"
| "life_step iter (t # ts) w =
     (let (t', w') = thread_step iter t w in (if is_finished t' then ts else t' # ts, w'))"

section \<open>Lives come to their end\<close>

fun calls_left :: "thread list \<Rightarrow> nat" where
  "calls_left ts = sum_list (map (\<lambda>t. 1 + takes_index t) ts)"

fun call_fuel :: "thread list \<Rightarrow> nat" where
  "call_fuel [] = 0"
| "call_fuel (t # ts) = thread_fuel t"

lemma life_step_decreases:
  assumes "ts \<noteq> []" "life_step iter ts w = (ts', w')"
  shows "calls_left ts' < calls_left ts \<or> calls_left ts' = calls_left ts \<and> call_fuel ts' < call_fuel ts"
proof -
  obtain t us where ts: "ts = t # us" using assms(1) by (cases ts) auto
  obtain t' where t': "thread_step iter t w = (t', w')" "ts' = (if is_finished t' then us else t' # us)"
    using assms(2) by (auto simp: ts Let_def split: prod.splits)
  show ?thesis
  proof (cases "is_finished t'")
    case False
    moreover from this have "\<not> is_finished t" using t'(1) by (cases t) auto
    ultimately show ?thesis using thread_step_decreases [OF _ t'(1)] t'(2) by (auto simp: ts)
  qed (use t'(2) in \<open>simp add: ts\<close>)
qed

lemma lives_end:
  "\<exists>sched. list_all (\<lambda>l. l = []) (fst (run_schedule (life_step iter) (\<lambda>l. l = []) sched (ls, w))) \<and>
     length (fst (run_schedule (life_step iter) (\<lambda>l. l = []) sched (ls, w))) = length ls"
  by (rule run_schedule_ends [where ?m1.0 = calls_left and ?m2.0 = call_fuel]) (rule life_step_decreases)

section \<open>Connections do not interfere\<close>

fun thread_of :: "string \<Rightarrow> thread \<Rightarrow> bool" where
  "thread_of cid (RegConnection c) = (conn_id c = cid)"
| "thread_of cid (RegIndex d) = (d = cid)"
| "thread_of cid (JoinCheck d _) = (d = cid)"
| "thread_of cid (JoinCreate d _) = (d = cid)"
| "thread_of cid (JoinMember d _ _) = (d = cid)"
| "thread_of cid (JoinIndex d _) = (d = cid)"
| "thread_of cid (LeaveMember d _) = (d = cid)"
| "thread_of cid (LeaveIndex d _) = (d = cid)"
| "thread_of cid (LeaveRemove d _) = (d = cid)"
| "thread_of cid (UnregTake d) = (d = cid)"
| "thread_of cid (UnregLeave d _ _) = (d = cid)"
| "thread_of cid (UnregRemove d _ _) = (d = cid)"
| "thread_of cid (UnregConnection d) = (d = cid)"
| "thread_of cid _ = False"

text \<open>An access of a call for one connection changes nothing about the others.\<close>

definition same_but :: "string \<Rightarrow> ('ch, 'nt, 'z) world_scheme \<Rightarrow> ('ch, 'nt, 'z) world_scheme \<Rightarrow> bool" where
  "same_but cid w w' \<longleftrightarrow>
     (\<forall>d. d \<noteq> cid \<longrightarrow> connections w' d = connections w d \<and>
        connection_rooms w' d = connection_rooms w d \<and>
        (\<forall>rid. d \<in> members_of w' rid \<longleftrightarrow> d \<in> members_of w rid))"

lemma update_index_other [simp]: "d \<noteq> cid \<Longrightarrow> connection_rooms (update_index cid f w) d = connection_rooms w d"
  by (simp add: update_index_def split: option.split)

lemma update_index_indexed [simp]:
  "(\<exists>S. connection_rooms (update_index cid f w) d = Some S) = (\<exists>S. connection_rooms w d = Some S)"
  "(connection_rooms (update_index cid f w) d = None) = (connection_rooms w d = None)"
  by (auto simp: update_index_def split: option.split)

lemma members_of_orphan_update:
  assumes "heap_ok w" "ref < next_room w" "room_id (room_heap w ref) = rid"
  shows "members_of (update_room ref (room_join cid) w) q =
    (if q = rid \<and> rooms w rid = Some ref then insert cid (members_of w rid) else members_of w q)"
proof (cases "rooms w rid = Some ref")
  case True
  then show ?thesis using members_of_update_room [OF assms(1) True]
    by (simp add: room_join_def members_of_def)
next
  case False
  have "rooms w q \<noteq> Some ref" using False assms unfolding heap_ok_def by metis
  then show ?thesis using False by (cases "rooms w q") (auto simp: members_of_def)
qed

lemma thread_step_same_but:
  assumes "heap_ok w" "ref_ok w t" "thread_of cid t" "thread_step iter t w = (t', w')"
  shows "same_but cid w w'"
proof (cases t)
  case (JoinMember d rid ref)
  then show ?thesis using assms
    by (auto simp: same_but_def members_of_orphan_update split: if_splits)
next
  case (JoinCreate d rid)
  then show ?thesis using assms create_room_spec(2) [OF assms(1)]
    by (auto simp: same_but_def case_prod_unfold Let_def)
qed (use assms in \<open>auto simp: same_but_def members_of_leave split: option.splits if_splits\<close>)

section \<open>The invariant of one life\<close>

text \<open>The rooms that a call still has to put into the index, or to leave.\<close>

fun owes :: "thread \<Rightarrow> string set" where
  "owes (JoinIndex _ rid) = {rid}"
| "owes (UnregLeave _ rid rids) = insert rid (set rids)"
| "owes (UnregRemove _ rid rids) = set rids"
| "owes _ = {}"

text \<open>At which points of its calls a connection is registered, and in the index.\<close>

fun stage :: "thread \<Rightarrow> bool \<times> bool" where
  "stage (RegConnection _) = (False, False)"
| "stage (RegIndex _) = (True, False)"
| "stage (UnregLeave _ _ _) = (True, False)"
| "stage (UnregRemove _ _ _) = (True, False)"
| "stage (UnregConnection _) = (True, False)"
| "stage _ = (True, True)"

fun unregisters :: "thread \<Rightarrow> bool" where
  "unregisters (UnregTake _) = True"
| "unregisters (UnregLeave _ _ _) = True"
| "unregisters (UnregRemove _ _ _) = True"
| "unregisters (UnregConnection _) = True"
| "unregisters _ = False"

fun has_left :: "('ch, 'nt, 'z) world_scheme \<Rightarrow> thread \<Rightarrow> bool" where
  "has_left w (LeaveIndex cid rid) = (cid \<notin> members_of w rid)"
| "has_left w _ = True"

definition upcoming :: "string \<Rightarrow> thread list \<Rightarrow> bool" where
  "upcoming cid ts \<longleftrightarrow> (\<exists>ops. ts = map (op_thread cid) ops @ [UnregTake cid])"

text \<open>What holds of the connection and of the rest of its task.\<close>

definition known :: "string \<Rightarrow> bool \<times> bool \<Rightarrow> string set \<Rightarrow> ('ch, 'nt, 'z) world_scheme \<Rightarrow> bool" where
  "known cid st debts w \<longleftrightarrow>
     (connections w cid \<noteq> None \<longleftrightarrow> fst st) \<and> (connection_rooms w cid \<noteq> None \<longleftrightarrow> snd st) \<and>
     finite (rooms_of w cid) \<and> (\<forall>rid. cid \<in> members_of w rid \<longrightarrow> rid \<in> rooms_of w cid \<union> debts)"

fun life_ok :: "string \<Rightarrow> ('ch, 'nt, 'z) world_scheme \<Rightarrow> thread list \<Rightarrow> bool" where
  "life_ok cid w [] = known cid (False, False) {} w"
| "life_ok cid w (t # ts) =
     (thread_of cid t \<and> known cid (stage t) (owes t) w \<and> has_left w t \<and> ref_ok w t \<and>
      (if unregisters t then ts = [] else upcoming cid ts))"

lemma upcoming_cases:
  assumes "upcoming cid ts"
  obtains "ts = [UnregTake cid]"
  | rid us where "ts = JoinCheck cid rid # us" "upcoming cid us"
  | rid us where "ts = LeaveMember cid rid # us" "upcoming cid us"
proof -
  obtain ops where ops: "ts = map (op_thread cid) ops @ [UnregTake cid]"
    using assms unfolding upcoming_def by blast
  show ?thesis
  proof (cases ops)
    case Nil
    then show ?thesis using ops that(1) by simp
  next
    case (Cons x xs)
    then show ?thesis using ops that(2,3) by (cases x) (auto simp: upcoming_def)
  qed
qed

lemma life_ok_upcoming:
  "upcoming cid ts \<Longrightarrow> known cid (True, True) {} w \<Longrightarrow> life_ok cid w ts"
  by (erule upcoming_cases) simp_all

lemma life_ok_same_but:
  assumes "life_ok cid w ts" "same_but d w w'" "d \<noteq> cid" "heap_growing w w'"
  shows "life_ok cid w' ts"
proof -
  have same: "connections w' cid = connections w cid" "connection_rooms w' cid = connection_rooms w cid"
    "cid \<in> members_of w' rid \<longleftrightarrow> cid \<in> members_of w rid" for rid
    using assms(2,3) by (auto simp: same_but_def)
  then have r: "rooms_of w' cid = rooms_of w cid" by (simp add: rooms_of_def)
  have k: "known cid st debts w' = known cid st debts w" for st debts by (simp add: known_def same r)
  show ?thesis
  proof (cases ts)
    case Nil
    then show ?thesis using assms(1) by (simp add: k)
  next
    case (Cons t us)
    have "has_left w' t" if "has_left w t" "thread_of cid t" using that by (cases t) (auto simp: same)
    then show ?thesis using assms(1,4) Cons by (auto simp: k ref_ok_growing)
  qed
qed

text \<open>One access keeps the invariant of the life it belongs to.\<close>

lemma unreg_next_life [simp]:
  "thread_of cid (unreg_next d rids) = (d = cid)" "stage (unreg_next cid rids) = (True, False)"
  "owes (unreg_next cid rids) = set rids" "has_left w (unreg_next cid rids)" "unregisters (unreg_next cid rids)"
  "\<not> is_finished (unreg_next cid rids)"
  by (cases rids; simp)+

lemma life_step_ok:
  assumes "heap_ok w" "iterates iter" "life_ok cid w ts" "life_step iter ts w = (ts', w')"
  shows "life_ok cid w' ts'"
proof (cases ts)
  case Nil
  then show ?thesis using assms by simp
next
  case (Cons t us)
  have L: "thread_of cid t" "known cid (stage t) (owes t) w" "has_left w t" "ref_ok w t"
    "if unregisters t then us = [] else upcoming cid us"
    using assms(3) Cons by simp_all
  obtain t' where t': "thread_step iter t w = (t', w')" "ts' = (if is_finished t' then us else t' # us)"
    using assms(4) by (auto simp: Cons Let_def split: prod.splits)
  note ref = conjunct2 [OF conjunct2 [OF thread_step_heap [OF assms(1) L(4) t'(1)]]]
  show ?thesis
  proof (cases t)
    case (JoinMember d rid ref)
    then show ?thesis using L t' assms(1) by (auto simp: known_def members_of_orphan_update)
  next
    case (JoinCreate d rid)
    then show ?thesis using L t' ref create_room_spec(2) [OF assms(1)]
      by (auto simp: known_def case_prod_unfold Let_def)
  next
    case (JoinIndex d rid)
    then have "known cid (True, True) {} w'" using L t' by (auto simp: known_def rooms_of_update_index domIff)
    then show ?thesis using JoinIndex L t' by (auto intro: life_ok_upcoming)
  next
    case (RegIndex d)
    then have "known cid (True, True) {} w'" using L t' by (auto simp: known_def rooms_of_def)
    then show ?thesis using RegIndex L t' by (auto intro: life_ok_upcoming)
  next
    case (LeaveIndex d rid)
    then show ?thesis using L t' by (auto simp: known_def rooms_of_update_index domIff)
  next
    case (UnregTake d)
    then show ?thesis using L t' assms(2) ref by (auto simp: known_def rooms_of_def iterates_def)
  next
    case (UnregLeave d rid rids)
    then show ?thesis using L t' assms(1) by (auto simp: known_def members_of_leave split: if_splits)
  qed (use L t' ref assms(1) in \<open>auto simp: known_def members_of_leave intro!: life_ok_upcoming split: if_splits\<close>)
qed

section \<open>No room is forgotten\<close>

text \<open>An empty room of the manager has a call under way that fills it, or takes it out.\<close>

fun minds :: "('ch, 'nt, 'z) world_scheme \<Rightarrow> string \<Rightarrow> thread list \<Rightarrow> bool" where
  "minds w rid (JoinMember _ r ref # _) = (r = rid \<and> rooms w rid = Some ref)"
| "minds w rid (LeaveIndex _ r # _) = (r = rid)"
| "minds w rid (LeaveRemove _ r # _) = (r = rid)"
| "minds w rid (UnregRemove _ r _ # _) = (r = rid)"
| "minds w rid _ = False"

definition minded :: "('ch, 'nt, 'z) world_scheme \<Rightarrow> thread list list \<Rightarrow> bool" where
  "minded w ls \<longleftrightarrow>
     (\<forall>rid \<in> dom (rooms w). members_of w rid \<noteq> {} \<or> (\<exists>l \<in> set ls. minds w rid l))"

lemma minds_same_room: "minds w rid l \<Longrightarrow> rooms w' rid = rooms w rid \<Longrightarrow> minds w' rid l"
  by (cases "(w, rid, l)" rule: minds.cases) auto

text \<open>
  What an access does to a room of the manager: it is an old room at the old address, or the thread
  minds it; and when the room became empty, or the thread minded it, it is not empty now, gone or
  minded by the thread.
\<close>

lemma life_step_rooms:
  assumes "heap_ok w" "life_ok cid w ts" "life_step iter ts w = (ts', w')" "rid \<in> dom (rooms w')"
  shows "(rooms w' rid = rooms w rid \<or> minds w' rid ts') \<and>
    (members_of w rid \<noteq> {} \<or> minds w rid ts \<longrightarrow> members_of w' rid \<noteq> {} \<or> minds w' rid ts')"
proof (cases ts)
  case Nil
  then show ?thesis using assms by simp
next
  case (Cons t us)
  have L: "thread_of cid t" "ref_ok w t" using assms(2) Cons by simp_all
  obtain t' where t': "thread_step iter t w = (t', w')" "ts' = (if is_finished t' then us else t' # us)"
    using assms(3) by (auto simp: Cons Let_def split: prod.splits)
  have remove: "rooms (remove_room_if_empty q w) rid = rooms w rid \<and> (rid = q \<longrightarrow> members_of w rid \<noteq> {})"
    if "rid \<in> dom (rooms (remove_room_if_empty q w))" for q
    using that by (auto simp: remove_room_if_empty_def members_of_def room_is_empty_def
        split: option.splits if_splits)
  show ?thesis
  proof (cases t)
    case (JoinMember d r ref)
    then show ?thesis using L t' assms(1) Cons by (auto simp: members_of_orphan_update split: if_splits)
  next
    case (JoinCreate d r)
    have "rooms (snd (create_room r w)) rid = rooms w rid \<or> rid = r"
      by (auto simp: create_room_def split: option.split)
    then show ?thesis using JoinCreate L t' create_room_spec(2,3) [OF assms(1)] Cons
      by (auto simp: case_prod_unfold Let_def)
  next
    case (LeaveRemove d r)
    then show ?thesis using t' remove [of r] assms(4) Cons by auto
  next
    case (UnregRemove d r rids)
    then show ?thesis using t' remove [of r] assms(4) Cons by auto
  next
    case (UnregTake d)
    then show ?thesis using t' Cons by (auto split: option.splits)
  qed (use L t' assms(1) Cons in \<open>auto simp: members_of_leave split: if_splits\<close>)
qed

lemma life_step_minded:
  assumes "heap_ok w" "life_ok cid w (ls ! i)" "life_step iter (ls ! i) w = (l', w')"
    and "i < length ls" "minded w ls"
  shows "minded w' (ls[i := l'])"
  unfolding minded_def
proof
  fix rid assume rid: "rid \<in> dom (rooms w')"
  note step = life_step_rooms [OF assms(1-3) rid]
  have l': "l' \<in> set (ls[i := l'])" using assms(4) by (simp add: set_update_memI)
  show "members_of w' rid \<noteq> {} \<or> (\<exists>l \<in> set (ls[i := l']). minds w' rid l)"
  proof (cases "rooms w' rid = rooms w rid \<and> \<not> minds w' rid l' \<and> members_of w' rid = {}")
    case True
    then have "members_of w rid = {}" "\<not> minds w rid (ls ! i)" "rid \<in> dom (rooms w)"
      using step rid by auto
    then obtain j where j: "j < length ls" "minds w rid (ls ! j)" "j \<noteq> i"
      using assms(5) unfolding minded_def by (metis in_set_conv_nth)
    then have "minds w' rid (ls[i := l'] ! j)" using True minds_same_room [of w rid "ls ! j" w'] by simp
    then show ?thesis using j(1) by (metis length_list_update nth_mem)
  next
    case False
    then show ?thesis using step l' by blast
  qed
qed

section \<open>Any number of lives\<close>

text \<open>
  \<open>w0\<close> is the state before; the connections that are not among the \<open>cids\<close> keep their
  registration, index and rooms.
\<close>

definition living ::
  "('ch, 'nt, 'z) world_scheme \<Rightarrow> string list \<Rightarrow> thread list list \<Rightarrow> ('ch, 'nt, 'z) world_scheme \<Rightarrow> bool" where
  "living w0 cids ls w \<longleftrightarrow>
     heap_ok w \<and> length ls = length cids \<and> (\<forall>i < length cids. life_ok (cids ! i) w (ls ! i)) \<and>
     minded w ls \<and>
     (\<forall>d. d \<notin> set cids \<longrightarrow> connections w d = connections w0 d \<and>
        connection_rooms w d = connection_rooms w0 d \<and>
        (\<forall>rid. d \<in> members_of w rid \<longleftrightarrow> d \<in> members_of w0 rid))"

lemma life_step_frame:
  assumes "heap_ok w" "life_ok cid w ts" "life_step iter ts w = (ts', w')"
  shows "heap_ok w' \<and> heap_growing w w' \<and> same_but cid w w'"
proof (cases ts)
  case Nil
  then show ?thesis using assms by (simp add: heap_growing_def same_but_def)
next
  case (Cons t us)
  then obtain t' where "thread_step iter t w = (t', w')" using assms(3) by (auto simp: Let_def split: prod.splits)
  then show ?thesis
    using assms(1,2) Cons thread_step_heap [of w t iter t' w'] thread_step_same_but [of w t cid iter t' w'] by simp
qed

lemma living_step:
  assumes L: "living w0 cids ls w" and "distinct cids" "iterates iter"
    and "interleave (life_step iter) (\<lambda>l. l = []) (ls, w) (ls', w')"
  shows "living w0 cids ls' w'"
proof -
  note L = L [unfolded living_def]
  from assms(4) obtain i l where i: "i < length ls" and step: "life_step iter (ls ! i) w = (l, w')"
    and ls': "ls' = ls[i := l]" by (auto elim: interleaveE)
  have life: "life_ok (cids ! i) w (ls ! i)" and heap: "heap_ok w" using L i by auto
  note frame = life_step_frame [OF heap life step]
  have "life_ok (cids ! j) w' (ls' ! j)" if "j < length cids" for j
  proof (cases "j = i")
    case True
    then show ?thesis using life_step_ok [OF heap assms(3) life step] i by (simp add: ls')
  next
    case False
    then have "cids ! i \<noteq> cids ! j" using assms(2) that i L by (simp add: nth_eq_iff_index_eq)
    then show ?thesis using False life_ok_same_but [of "cids ! j" w "ls ! j" "cids ! i" w'] L that frame
      by (simp add: ls')
  qed
  moreover have "minded w' ls'"
    unfolding ls' using heap life step i by (rule life_step_minded) (use L in simp)
  moreover have "cids ! i \<in> set cids" using i L by simp
  then have "connections w' d = connections w0 d \<and> connection_rooms w' d = connection_rooms w0 d \<and>
      (\<forall>rid. d \<in> members_of w' rid \<longleftrightarrow> d \<in> members_of w0 rid)" if "d \<notin> set cids" for d
    using frame L that unfolding same_but_def by metis
  ultimately show ?thesis using L frame by (simp add: living_def ls')
qed

lemma living_start:
  assumes "manager_ok w0" "inhabited (registry_of w0)"
    and "\<And>c ops. (c, ops) \<in> set cs \<Longrightarrow> conn_id c \<notin> dom (connections w0)"
  shows "living w0 (map (conn_id \<circ> fst) cs) (map (\<lambda>(c, ops). life c ops) cs) w0"
proof -
  note ok = manager_okD [OF assms(1)]
  have "life_ok (conn_id c) w0 (life c ops)" if "(c, ops) \<in> set cs" for c ops
  proof -
    have c: "conn_id c \<notin> dom (connections w0)" using that by (rule assms(3))
    moreover from c have "connection_rooms w0 (conn_id c) = None" using ok(2) by blast
    moreover have "conn_id c \<notin> members_of w0 rid" for rid
      using members_registered(1) [OF assms(1), of rid] c by blast
    ultimately show ?thesis by (auto simp: life_def known_def upcoming_def rooms_of_def domIff)
  qed
  moreover have "minded w0 ls" for ls
    using assms(2) by (auto simp: minded_def inhabited_def registry_of_def)
  ultimately show ?thesis using ok(1) nth_mem [of _ cs]
    by (auto simp: living_def split: prod.split) (metis nth_mem prod.collapse)+
qed

lemma living_registered:
  assumes "living w0 cids ls w" "manager_ok w0"
  shows "members_of w rid \<subseteq> dom (connections w)"
proof
  fix d assume d: "d \<in> members_of w rid"
  show "d \<in> dom (connections w)"
  proof (cases "d \<in> set cids")
    case False
    then show ?thesis using assms(1) d members_registered(1) [OF assms(2), of rid]
      by (auto simp: living_def domIff)
  next
    case True
    then obtain i where i: "i < length cids" "cids ! i = d" by (auto simp: in_set_conv_nth)
    then have life: "life_ok d w (ls ! i)" using assms(1) by (auto simp: living_def)
    have "connections w d \<noteq> None"
    proof (cases "ls ! i")
      case Nil
      then show ?thesis using life d by (auto simp: known_def rooms_of_def)
    next
      case (Cons t ts)
      then show ?thesis using life d by (cases t) (auto simp: known_def rooms_of_def)
    qed
    then show ?thesis by blast
  qed
qed

lemma living_ended:
  assumes L: "living w0 cids ls w" and "list_all (\<lambda>l. l = []) ls" "manager_ok w0" "inhabited (registry_of w0)"
    and fresh: "set cids \<inter> dom (connections w0) = {}"
  shows "connections w = connections w0" "connection_rooms w = connection_rooms w0"
    "members_of w = members_of w0" "dom (rooms w) = dom (rooms w0)"
proof -
  note L = L [unfolded living_def]
  note ok = manager_okD [OF assms(3)]
  have gone: "connections w d = None" "connection_rooms w d = None" "d \<notin> members_of w rid"
    if d: "d \<in> set cids" for d rid
  proof -
    obtain i where i: "i < length cids" "cids ! i = d" using d by (auto simp: in_set_conv_nth)
    moreover from this have "ls ! i = []" using assms(2) L by (simp add: list_all_length)
    ultimately have "known d (False, False) {} w" using L by auto
    then show "connections w d = None" "connection_rooms w d = None" "d \<notin> members_of w rid"
      by (auto simp: known_def rooms_of_def)
  qed
  have before: "connections w0 d = None" "connection_rooms w0 d = None" "d \<notin> members_of w0 rid"
    if "d \<in> set cids" for d rid
  proof -
    have "d \<notin> dom (connections w0)" using that fresh by blast
    then show "connections w0 d = None" "connection_rooms w0 d = None" "d \<notin> members_of w0 rid"
      using ok(2) members_registered(1) [OF assms(3), of rid] by (blast, blast, blast)
  qed
  show "connections w = connections w0" "connection_rooms w = connection_rooms w0"
    using L gone before by (metis ext)+
  show mem: "members_of w = members_of w0"
    using L gone before by (intro ext set_eqI) metis
  have "minds w rid l = False" if "l \<in> set ls" for rid l
    using that assms(2) by (auto simp: list_all_iff)
  then have "rid \<in> dom (rooms w) \<Longrightarrow> members_of w rid \<noteq> {}" for rid
    using L unfolding minded_def by blast
  moreover have "rid \<in> dom (rooms w0) \<Longrightarrow> members_of w0 rid \<noteq> {}" for rid
    using assms(4) by (auto simp: inhabited_def registry_of_def)
  moreover have "members_of v rid \<noteq> {} \<Longrightarrow> rid \<in> dom (rooms v)" for v :: "('ch, 'nt, 'z) world_scheme" and rid
    by (auto simp: members_of_def split: option.splits)
  ultimately show "dom (rooms w) = dom (rooms w0)" using mem by (metis subsetI subset_antisym)
qed

section \<open>Properties\<close>

text \<open>
  C7. Connections whose handlers join and leave rooms only for themselves leave no trace in the room
  manager: however the accesses of any number of them are interleaved, at every moment only
  registered connections are members of rooms, and when all of them have been unregistered the
  registrations, rooms and memberships are what they were before, and the invariant holds.
\<close>

theorem lives_leave_no_trace:
  assumes "manager_ok w0" and "inhabited (registry_of w0)" and "iterates iter"
    and "distinct (map (conn_id \<circ> fst) cs)"
    and "\<And>c ops. (c, ops) \<in> set cs \<Longrightarrow> conn_id c \<notin> dom (connections w0)"
    and "interleavings (life_step iter) (\<lambda>l. l = []) (map (\<lambda>(c, ops). life c ops) cs, w0) (ls, w)"
  shows "(\<forall>rid. members_of w rid \<subseteq> dom (connections w)) \<and>
    (list_all (\<lambda>l. l = []) ls \<longrightarrow> manager_ok w \<and> registry_of w = registry_of w0)"
proof (intro conjI impI allI)
  let ?cids = "map (conn_id \<circ> fst) cs"
  have L: "living w0 ?cids ls w"
    using assms(6) living_start [OF assms(1,2,5)] living_step [OF _ assms(4,3)] by (rule interleavings_invariant)
  show "members_of w rid \<subseteq> dom (connections w)" for rid using living_registered [OF L assms(1)] .
  assume ended: "list_all (\<lambda>l. l = []) ls"
  have fresh: "set ?cids \<inter> dom (connections w0) = {}" using assms(5) by force
  note same = living_ended [OF L ended assms(1,2) fresh]
  have "rooms_of w = rooms_of w0" by (simp add: rooms_of_def fun_eq_iff same)
  moreover have "heap_ok w" using L by (simp add: living_def)
  ultimately show "manager_ok w"
    using assms(1) same manager_okD [OF assms(1)] by (intro manager_ok_same_connections [OF assms(1)]) auto
  show "registry_of w = registry_of w0" by (simp add: registry_of_def same)
qed

text \<open>Two connections that meet in a room of a running server, and go.\<close>

definition two_lives :: "(connection \<times> room_op list) list" where
  "two_lives =
     [(sample_handle ''c'' 2, [JoinOp ''q'', JoinOp ''new'', LeaveOp ''q'']), (sample_handle ''d'' 3, [JoinOp ''new''])]"

definition two_lives_state :: "nat list \<Rightarrow> thread list list \<times> (fifo, bool) world" where
  "two_lives_state sched =
     run_schedule (life_step by_id) (\<lambda>l. l = []) sched (map (\<lambda>(c, ops). life c ops) two_lives, sample_world)"

theorem lives_leave_no_trace_witness:
  "\<exists>sched. fst (two_lives_state sched) = [[], []] \<and>
     registry_of (snd (two_lives_state sched)) = registry_of sample_world"
proof -
  let ?fin = "\<lambda>l :: thread list. l = []"
  have run: "interleavings (life_step by_id) ?fin (map (\<lambda>(c, ops). life c ops) two_lives, sample_world)
      (fst (two_lives_state sched), snd (two_lives_state sched))" for sched
    unfolding two_lives_state_def prod.collapse by (rule run_schedule_interleaving)
  obtain sched where ended: "list_all ?fin (fst (two_lives_state sched))"
    and len: "length (fst (two_lives_state sched)) = 2"
    using lives_end [of by_id "map (\<lambda>(c, ops). life c ops) two_lives" sample_world]
    by (auto simp: two_lives_state_def two_lives_def)
  have "inhabited (registry_of sample_world)" by (auto simp: inhabited_def sample_world_registry)
  moreover have "distinct (map (conn_id \<circ> fst) two_lives)" by (simp add: two_lives_def sample_handle_def)
  moreover have "conn_id c \<notin> dom (connections sample_world)" if "(c, ops) \<in> set two_lives" for c ops
    using that by (auto simp: two_lives_def sample_handle_def sample_world_views(4) simp del: domIff)
  ultimately have "registry_of (snd (two_lives_state sched)) = registry_of sample_world"
    using lives_leave_no_trace [OF sample_world_ok _ iterates_by_id _ _ run] ended by blast
  moreover have "fst (two_lives_state sched) = [[], []]"
    using ended len by (auto simp: list_all_iff length_Suc_conv numeral_2_eq_2)
  ultimately show ?thesis by blast
qed

end
