(* ===== verification/Ws_Handler.thy ===== *)
theory Ws_Handler imports Ws_Registry begin

text \<open>
  \<open>handler.rs\<close>: the callbacks of an application, with the default bodies of the trait and the
  logging handler.  A callback is a function on the state it can reach (rooms, connections and
  whatever the application keeps); it returns or panics, and what other tasks do while it
  awaits is part of its effect.
\<close>

datatype ('a, 'w) call = Panics 'w | Returns 'a 'w

record ('t, 'i, 's, 'w) handler =
  on_connect :: "string \<Rightarrow> principal \<Rightarrow> 'w \<Rightarrow> (unit, 'w) call"
  on_message :: "string \<Rightarrow> principal \<Rightarrow> message \<Rightarrow> 'w \<Rightarrow> (unit, 'w) call"
  on_disconnect :: "string \<Rightarrow> principal \<Rightarrow> 'w \<Rightarrow> (unit, 'w) call"
  on_error :: "string \<Rightarrow> ('t, 'i, 's) ws_error \<Rightarrow> 'w \<Rightarrow> (unit, 'w) call"
  on_ping :: "string \<Rightarrow> bytes \<Rightarrow> 'w \<Rightarrow> (bytes, 'w) call"
  on_pong :: "string \<Rightarrow> bytes \<Rightarrow> 'w \<Rightarrow> (unit, 'w) call"

section \<open>Default bodies\<close>

text \<open>The events given to \<open>tracing\<close>; \<open>emit\<close> is the subscriber.\<close>

datatype ('t, 'i, 's) log_event =
    ClientConnected string string
  | ReceivedMessage string message_type nat
  | ClientDisconnected string
  | ErrorOccurred string "('t, 'i, 's) ws_error"

definition default_on_connect :: "string \<Rightarrow> principal \<Rightarrow> 'w \<Rightarrow> (unit, 'w) call" where
  "default_on_connect cid p w = Returns () w"

definition default_on_disconnect :: "string \<Rightarrow> principal \<Rightarrow> 'w \<Rightarrow> (unit, 'w) call" where
  "default_on_disconnect cid p w = Returns () w"

definition default_on_error ::
  "(('t, 'i, 's) log_event \<Rightarrow> 'w \<Rightarrow> 'w) \<Rightarrow> string \<Rightarrow> ('t, 'i, 's) ws_error \<Rightarrow> 'w \<Rightarrow> (unit, 'w) call" where
  "default_on_error emit cid e w = Returns () (emit (ErrorOccurred cid e) w)"

definition default_on_ping :: "string \<Rightarrow> bytes \<Rightarrow> 'w \<Rightarrow> (bytes, 'w) call" where
  "default_on_ping cid data w = Returns data w"

definition default_on_pong :: "string \<Rightarrow> bytes \<Rightarrow> 'w \<Rightarrow> (unit, 'w) call" where
  "default_on_pong cid data w = Returns () w"

section \<open>The logging handler\<close>

definition logging_handler ::
  "(('t, 'i, 's) log_event \<Rightarrow> 'w \<Rightarrow> 'w) \<Rightarrow> ('t, 'i, 's, 'w) handler" where
  "logging_handler emit =
     \<lparr>on_connect = (\<lambda>cid p w. Returns ()
        (emit (ClientConnected cid
           (case subject p of None \<Rightarrow> ''<anonymous>'' | Some s \<Rightarrow> s)) w)),
      on_message = (\<lambda>cid p m w. Returns ()
        (emit (ReceivedMessage cid (message_type m) (length (payload m))) w)),
      on_disconnect = (\<lambda>cid p w. Returns () (emit (ClientDisconnected cid) w)),
      on_error = default_on_error emit,
      on_ping = default_on_ping,
      on_pong = default_on_pong\<rparr>"

section \<open>Callbacks that keep an invariant\<close>

definition call_state :: "('a, 'w) call \<Rightarrow> 'w" where
  "call_state r = (case r of Panics w \<Rightarrow> w | Returns _ w \<Rightarrow> w)"

lemma call_state_simps [simp]: "call_state (Panics w) = w" "call_state (Returns x w) = w"
  by (simp_all add: call_state_def)

text \<open>
  The contract between the session loop and its handler: every callback keeps \<open>I\<close>, and so does
  a change of the queues.
\<close>

locale handler_contract =
  fixes h :: "('t, 'i, 's, ('ch, 'nt, 'z) world_scheme) handler"
    and I :: "('ch, 'nt, 'z) world_scheme \<Rightarrow> bool"
  assumes connect_keeps: "I w \<Longrightarrow> I (call_state (on_connect h cid p w))"
    and message_keeps: "I w \<Longrightarrow> I (call_state (on_message h cid p m w))"
    and disconnect_keeps: "I w \<Longrightarrow> I (call_state (on_disconnect h cid p w))"
    and error_keeps: "I w \<Longrightarrow> I (call_state (on_error h cid e w))"
    and ping_keeps: "I w \<Longrightarrow> I (call_state (on_ping h cid d w))"
    and pong_keeps: "I w \<Longrightarrow> I (call_state (on_pong h cid d w))"
    and cells_keeps: "I w \<Longrightarrow> I (w\<lparr>cells := cls\<rparr>)"

lemma manager_ok_cells [simp]: "manager_ok (w\<lparr>cells := cls\<rparr>) = manager_ok w"
  by (rule manager_ok_frame) simp_all

text \<open>The logging handler, with a subscriber that does not touch the manager, keeps its invariant.\<close>

lemma logging_handler_contract:
  assumes "\<And>e w. I w \<Longrightarrow> I (emit e w)" and "\<And>w cls. I w \<Longrightarrow> I (w\<lparr>cells := cls\<rparr>)"
  shows "handler_contract (logging_handler emit) I"
  using assms
  by unfold_locales
    (simp_all add: logging_handler_def default_on_error_def default_on_ping_def default_on_pong_def)

interpretation logging: handler_contract "logging_handler (\<lambda>_ w. w)" manager_ok
  by (rule logging_handler_contract) simp_all

section \<open>Recording callbacks\<close>

text \<open>A world that keeps the callbacks made so far, and a handler wrapped to record them.\<close>

datatype ('t, 'i, 's) callback =
    Connected string principal
  | GotMessage string principal message
  | Disconnected string principal
  | GotError string "('t, 'i, 's) ws_error"
  | GotPing string bytes
  | GotPong string bytes

record ('ch, 'nt, 'e) traced = "('ch, 'nt) world" +
  trace :: "'e list"

definition note_call :: "'e \<Rightarrow> ('ch, 'nt, 'e, 'z) traced_scheme \<Rightarrow> ('ch, 'nt, 'e, 'z) traced_scheme" where
  "note_call e w = w\<lparr>trace := trace w @ [e]\<rparr>"

definition recording ::
  "('t, 'i, 's, ('ch, 'nt, ('t, 'i, 's) callback, 'z) traced_scheme) handler
     \<Rightarrow> ('t, 'i, 's, ('ch, 'nt, ('t, 'i, 's) callback, 'z) traced_scheme) handler" where
  "recording h =
     \<lparr>on_connect = (\<lambda>cid p w. on_connect h cid p (note_call (Connected cid p) w)),
      on_message = (\<lambda>cid p m w. on_message h cid p m (note_call (GotMessage cid p m) w)),
      on_disconnect = (\<lambda>cid p w. on_disconnect h cid p (note_call (Disconnected cid p) w)),
      on_error = (\<lambda>cid e w. on_error h cid e (note_call (GotError cid e) w)),
      on_ping = (\<lambda>cid d w. on_ping h cid d (note_call (GotPing cid d) w)),
      on_pong = (\<lambda>cid d w. on_pong h cid d (note_call (GotPong cid d) w))\<rparr>"

lemma trace_note_call [simp]: "trace (note_call e w) = trace w @ [e]"
  by (simp add: note_call_def)

end
