(* ===== verification/Ws_Config.thy ===== *)
theory Ws_Config imports Ws_Room begin

text \<open>
  The first part of \<open>server.rs\<close>: the configuration, its validation, the builder, and the
  construction of a server with the warnings it logs.

  Parameters: \<open>Semaphore::MAX_PERMITS\<close>, the parser of socket addresses, tungstenite's
  \<open>WebSocketConfig\<close> (the record \<open>ws_config_api\<close>) and tokio's \<open>Semaphore\<close> (the record
  \<open>semaphore\<close>).  A constructor that may panic returns an option, with \<^const>\<open>None\<close> for the panic,
  and a function that may panic returns an \<open>outcome\<close>.
\<close>

datatype 'a outcome = Panicked | Returned 'a

record 'wc ws_config_api =
  wc_default :: 'wc
  wc_max_message_size :: "usize option \<Rightarrow> 'wc \<Rightarrow> 'wc"
  wc_max_frame_size :: "usize option \<Rightarrow> 'wc \<Rightarrow> 'wc"
  wc_write_buffer_size :: "usize \<Rightarrow> 'wc \<Rightarrow> 'wc"
  wc_max_write_buffer_size :: "usize \<Rightarrow> 'wc \<Rightarrow> 'wc"

record 'sem semaphore =
  sem_new :: "usize \<Rightarrow> 'sem option"
  sem_try_acquire :: "'sem \<Rightarrow> 'sem option"
  sem_release :: "'sem \<Rightarrow> 'sem"

section \<open>The configuration\<close>

record server_config =
  bind_addr :: socket_addr
  max_message_size :: usize
  max_frame_size :: usize
  max_write_buffer_size :: usize
  outbound_queue_capacity :: usize
  max_connections :: usize
  handshake_timeout :: duration
  close_timeout :: duration
  heartbeat_interval :: duration
  connection_timeout :: duration
  config_origin_policy :: origin_policy

definition seconds :: "nat \<Rightarrow> duration" where
  "seconds n = n * 10 ^ 9"

definition write_buffer_size :: usize where
  "write_buffer_size = 128 * 1024"

definition server_config_default :: server_config where
  "server_config_default =
     \<lparr>bind_addr = V4 (127, 0, 0, 1) 9001,
      max_message_size = 64 * 1024,
      max_frame_size = 64 * 1024,
      max_write_buffer_size = 4 * 1024 * 1024,
      outbound_queue_capacity = 1024,
      max_connections = 10000,
      handshake_timeout = seconds 10,
      close_timeout = seconds 5,
      heartbeat_interval = seconds 30,
      connection_timeout = seconds 60,
      config_origin_policy = origin_policy_default\<rparr>"

definition invalid_config :: "string \<Rightarrow> ('t, 'i, 's, unit) ws_result" where
  "invalid_config m = Inl (Server (''Invalid config: '' @ m))"

definition validate :: "usize \<Rightarrow> server_config \<Rightarrow> ('t, 'i, 's, unit) ws_result" where
  "validate max_permits cfg =
     (if max_message_size cfg = 0 \<or> max_frame_size cfg = 0
      then invalid_config ''max_message_size and max_frame_size must be non-zero''
      else if max_write_buffer_size cfg \<le> write_buffer_size
      then invalid_config ''max_write_buffer_size must be larger than 128 KiB''
      else if outbound_queue_capacity cfg = 0
      then invalid_config ''outbound_queue_capacity must be non-zero''
      else if max_connections cfg = 0 \<or> max_permits < max_connections cfg
      then invalid_config ''max_connections is out of range''
      else Inr ())"

definition server_ws_config :: "'wc ws_config_api \<Rightarrow> server_config \<Rightarrow> 'wc" where
  "server_ws_config api cfg =
     wc_max_write_buffer_size api (max_write_buffer_size cfg)
       (wc_write_buffer_size api write_buffer_size
          (wc_max_frame_size api (Some (max_frame_size cfg))
             (wc_max_message_size api (Some (max_message_size cfg))
                (wc_default api))))"

section \<open>The builder\<close>

record 'req server_builder =
  sb_config :: server_config
  sb_authorizer :: "'req authorizer option"
  sb_anonymous :: bool

definition builder_new :: "'req server_builder" where
  "builder_new = \<lparr>sb_config = server_config_default, sb_authorizer = None, sb_anonymous = False\<rparr>"

text \<open>The fields its \<open>Debug\<close> prints: of the authorizer only whether there is one.\<close>

text \<open>\<open>WebSocketServer::builder\<close>.\<close>

definition server_new_builder :: "'req server_builder" where
  "server_new_builder = builder_new"

definition builder_debug :: "'req server_builder \<Rightarrow> server_config \<times> string option \<times> bool" where
  "builder_debug b = (sb_config b, map_option (\<lambda>_. ''..'') (sb_authorizer b), sb_anonymous b)"

definition builder_bind_addr :: "socket_addr \<Rightarrow> 'req server_builder \<Rightarrow> 'req server_builder" where
  "builder_bind_addr addr b = b\<lparr>sb_config := (sb_config b)\<lparr>bind_addr := addr\<rparr>\<rparr>"

text \<open>\<open>parse\<close> is \<open>str::parse\<close> for socket addresses, with the \<open>Display\<close> text of its error.\<close>

definition builder_bind ::
  "(string \<Rightarrow> string + socket_addr) \<Rightarrow> string \<Rightarrow> 'req server_builder
     \<Rightarrow> ('t, 'i, 's, 'req server_builder) ws_result" where
  "builder_bind parse addr b =
     and_then (map_err (\<lambda>e. Server (''Invalid address: '' @ e)) (parse addr))
       (\<lambda>a. Inr (b\<lparr>sb_config := (sb_config b)\<lparr>bind_addr := a\<rparr>\<rparr>))"

definition builder_max_message_size :: "usize \<Rightarrow> 'req server_builder \<Rightarrow> 'req server_builder" where
  "builder_max_message_size n b = b\<lparr>sb_config := (sb_config b)\<lparr>max_message_size := n\<rparr>\<rparr>"

definition builder_max_frame_size :: "usize \<Rightarrow> 'req server_builder \<Rightarrow> 'req server_builder" where
  "builder_max_frame_size n b = b\<lparr>sb_config := (sb_config b)\<lparr>max_frame_size := n\<rparr>\<rparr>"

definition builder_max_write_buffer_size :: "usize \<Rightarrow> 'req server_builder \<Rightarrow> 'req server_builder" where
  "builder_max_write_buffer_size n b = b\<lparr>sb_config := (sb_config b)\<lparr>max_write_buffer_size := n\<rparr>\<rparr>"

definition builder_outbound_queue_capacity :: "usize \<Rightarrow> 'req server_builder \<Rightarrow> 'req server_builder" where
  "builder_outbound_queue_capacity n b = b\<lparr>sb_config := (sb_config b)\<lparr>outbound_queue_capacity := n\<rparr>\<rparr>"

definition builder_max_connections :: "usize \<Rightarrow> 'req server_builder \<Rightarrow> 'req server_builder" where
  "builder_max_connections n b = b\<lparr>sb_config := (sb_config b)\<lparr>max_connections := n\<rparr>\<rparr>"

definition builder_handshake_timeout :: "duration \<Rightarrow> 'req server_builder \<Rightarrow> 'req server_builder" where
  "builder_handshake_timeout d b = b\<lparr>sb_config := (sb_config b)\<lparr>handshake_timeout := d\<rparr>\<rparr>"

definition builder_close_timeout :: "duration \<Rightarrow> 'req server_builder \<Rightarrow> 'req server_builder" where
  "builder_close_timeout d b = b\<lparr>sb_config := (sb_config b)\<lparr>close_timeout := d\<rparr>\<rparr>"

definition builder_heartbeat_interval :: "duration \<Rightarrow> 'req server_builder \<Rightarrow> 'req server_builder" where
  "builder_heartbeat_interval d b = b\<lparr>sb_config := (sb_config b)\<lparr>heartbeat_interval := d\<rparr>\<rparr>"

definition builder_connection_timeout :: "duration \<Rightarrow> 'req server_builder \<Rightarrow> 'req server_builder" where
  "builder_connection_timeout d b = b\<lparr>sb_config := (sb_config b)\<lparr>connection_timeout := d\<rparr>\<rparr>"

definition builder_origin_policy :: "origin_policy \<Rightarrow> 'req server_builder \<Rightarrow> 'req server_builder" where
  "builder_origin_policy p b = b\<lparr>sb_config := (sb_config b)\<lparr>config_origin_policy := p\<rparr>\<rparr>"

definition builder_allowed_origins :: "string list \<Rightarrow> 'req server_builder \<Rightarrow> 'req server_builder" where
  "builder_allowed_origins origins b = builder_origin_policy (AllowList origins) b"

definition builder_authorizer :: "'req authorizer \<Rightarrow> 'req server_builder \<Rightarrow> 'req server_builder" where
  "builder_authorizer a b = b\<lparr>sb_authorizer := Some a, sb_anonymous := False\<rparr>"

definition builder_allow_anonymous :: "'req server_builder \<Rightarrow> 'req server_builder" where
  "builder_allow_anonymous b = b\<lparr>sb_authorizer := Some AllowAnonymous, sb_anonymous := True\<rparr>"

section \<open>The server\<close>

datatype warning = UnauthenticatedWarning | AnyOriginWarning

record ('ch, 'nt, 'req, 'h, 'sem) server =
  sv_config :: server_config
  sv_handler :: 'h
  sv_authorizer :: "'req authorizer"
  sv_manager :: "('ch, 'nt) world"
  sv_slots :: 'sem

definition server_room_manager :: "('ch, 'nt, 'req, 'h, 'sem) server \<Rightarrow> ('ch, 'nt) world" where
  "server_room_manager sv = sv_manager sv"

definition from_parts ::
  "usize \<Rightarrow> 'sem semaphore \<Rightarrow> ('ch, 'nt) cells \<Rightarrow> server_config \<Rightarrow> 'h \<Rightarrow> 'req authorizer \<Rightarrow> bool
     \<Rightarrow> ('t, 'i, 's, ('ch, 'nt, 'req, 'h, 'sem) server) ws_result outcome \<times> warning list" where
  "from_parts max_permits sem cls cfg h a anonymous =
     (case validate max_permits cfg of
        Inl e \<Rightarrow> (Returned (Inl e), [])
      | Inr _ \<Rightarrow>
          (let warnings =
             (if anonymous then [UnauthenticatedWarning] else []) @
             (if config_origin_policy cfg = Any then [AnyOriginWarning] else [])
           in case sem_new sem (max_connections cfg) of
                None \<Rightarrow> (Panicked, warnings)
              | Some slots \<Rightarrow>
                  (Returned (Inr \<lparr>sv_config = cfg, sv_handler = h, sv_authorizer = a,
                     sv_manager = world_new cls, sv_slots = slots\<rparr>), warnings)))"

definition server_new ::
  "usize \<Rightarrow> 'sem semaphore \<Rightarrow> ('ch, 'nt) cells \<Rightarrow> server_config \<Rightarrow> 'h \<Rightarrow> 'req authorizer
     \<Rightarrow> ('t, 'i, 's, ('ch, 'nt, 'req, 'h, 'sem) server) ws_result outcome \<times> warning list" where
  "server_new max_permits sem cls cfg h a =
     from_parts max_permits sem cls cfg h a (case a of AllowAnonymous \<Rightarrow> True | Custom _ \<Rightarrow> False)"

definition build ::
  "usize \<Rightarrow> 'sem semaphore \<Rightarrow> ('ch, 'nt) cells \<Rightarrow> 'req server_builder \<Rightarrow> 'h
     \<Rightarrow> ('t, 'i, 's, ('ch, 'nt, 'req, 'h, 'sem) server) ws_result outcome \<times> warning list" where
  "build max_permits sem cls b h =
     (case ok_or (sb_authorizer b)
        (Server (''no handshake authorizer configured: call .authorizer(..) or, for '' @
                 ''unauthenticated servers, .allow_anonymous()'')) of
        Inl e \<Rightarrow> (Returned (Inl e), [])
      | Inr a \<Rightarrow> from_parts max_permits sem cls (sb_config b) h a (sb_anonymous b))"

section \<open>The contract of the semaphore\<close>

text \<open>
  Up to \<open>max_permits\<close> permits can be created; \<open>try_acquire\<close> takes one when there is one, and
  dropping a permit gives it back.
\<close>

locale counting_semaphore =
  fixes sem :: "'sem semaphore" and max_permits :: usize and available :: "'sem \<Rightarrow> nat"
  assumes new_ok: "n \<le> max_permits \<Longrightarrow> \<exists>s. sem_new sem n = Some s \<and> available s = unat n"
    and acquire_none: "available s = 0 \<Longrightarrow> sem_try_acquire sem s = None"
    and acquire_some: "available s = Suc k \<Longrightarrow> \<exists>s'. sem_try_acquire sem s = Some s' \<and> available s' = k"
    and release: "available (sem_release sem s) = Suc (available s)"
begin

lemma try_acquire_cases:
  obtains (refused) "available s = 0" "sem_try_acquire sem s = None"
  | (acquired) s' where "sem_try_acquire sem s = Some s'" "available s = Suc (available s')"
proof (cases "available s")
  case 0
  with acquire_none show ?thesis by (intro refused)
next
  case (Suc k)
  with acquire_some [OF Suc] show ?thesis by (auto intro: acquired)
qed

end

text \<open>A counter of permits.\<close>

definition counter :: "usize \<Rightarrow> nat semaphore" where
  "counter max_permits =
     \<lparr>sem_new = (\<lambda>n. if n \<le> max_permits then Some (unat n) else None),
      sem_try_acquire = (\<lambda>k. if k = 0 then None else Some (k - 1)),
      sem_release = Suc\<rparr>"

interpretation counter: counting_semaphore "counter mp" mp id for mp
  by unfold_locales (simp_all add: counter_def)

section \<open>Validation\<close>

lemma validate_Inr_iff:
  "validate mp cfg = Inr u \<longleftrightarrow>
     max_message_size cfg \<noteq> 0 \<and> max_frame_size cfg \<noteq> 0 \<and>
     write_buffer_size < max_write_buffer_size cfg \<and> outbound_queue_capacity cfg \<noteq> 0 \<and>
     max_connections cfg \<noteq> 0 \<and> max_connections cfg \<le> mp"
  by (auto simp: validate_def invalid_config_def)

lemma validate_Inl: "validate mp cfg = Inl e \<Longrightarrow> \<exists>m. e = Server (''Invalid config: '' @ m)"
  by (auto simp: validate_def invalid_config_def split: if_splits)

lemmas builder_setters = builder_bind_addr_def builder_max_message_size_def builder_max_frame_size_def
  builder_max_write_buffer_size_def builder_outbound_queue_capacity_def builder_max_connections_def
  builder_handshake_timeout_def builder_close_timeout_def builder_heartbeat_interval_def
  builder_connection_timeout_def builder_origin_policy_def builder_allowed_origins_def
  builder_authorizer_def builder_allow_anonymous_def

section \<open>Properties\<close>

text \<open>
  C30. \<open>build\<close> needs a decision about authentication and a valid configuration: without an
  authorizer, or with a configuration that fails validation, it is a \<open>Server\<close> error; otherwise
  it returns a server with that configuration, handler and authorizer, an empty room manager
  and one free slot per allowed connection, at least one.  It never panics.
\<close>

theorem build_outcomes:
  assumes "counting_semaphore sem max_permits available"
  shows "case fst (build max_permits sem cls b h
      :: ('t, 'i, 's, ('ch, 'nt, 'req, 'h, 'sem) server) ws_result outcome \<times> _) of
      Panicked \<Rightarrow> False
    | Returned (Inl e) \<Rightarrow> (\<exists>m. e = Server m) \<and>
        (sb_authorizer b = None \<or> \<not> is_ok (validate max_permits (sb_config b) :: ('t, 'i, 's, unit) ws_result))
    | Returned (Inr sv) \<Rightarrow>
        sv_config sv = sb_config b \<and> sv_handler sv = h \<and> sb_authorizer b = Some (sv_authorizer sv) \<and>
        sv_manager sv = world_new cls \<and> 0 < available (sv_slots sv) \<and>
        available (sv_slots sv) = unat (max_connections (sv_config sv)) \<and>
        is_ok (validate max_permits (sv_config sv) :: ('t, 'i, 's, unit) ws_result)"
proof (cases "sb_authorizer b")
  case None
  then show ?thesis by (simp add: build_def)
next
  case (Some a)
  show ?thesis
  proof (cases "validate max_permits (sb_config b) :: ('t, 'i, 's, unit) ws_result")
    case (Inl e)
    then show ?thesis using Some validate_Inl [OF Inl] by (auto simp: build_def from_parts_def)
  next
    case (Inr u)
    then have "max_connections (sb_config b) \<le> max_permits" "max_connections (sb_config b) \<noteq> 0"
      by (simp_all add: validate_Inr_iff)
    moreover obtain s where "sem_new sem (max_connections (sb_config b)) = Some s"
      "available s = unat (max_connections (sb_config b))"
      using counting_semaphore.new_ok [OF assms calculation(1)] by blast
    ultimately show ?thesis
      using Some Inr by (simp add: build_def from_parts_def Let_def unat_gt_0)
  qed
qed

definition sample_permits :: usize where
  "sample_permits = 1000000"

lemma sample_permits_ge: "10000 \<le> sample_permits"
  by (simp add: sample_permits_def)

lemma sample_http_origin: "origin_headers sample_http r = r"
  by (simp add: sample_http_def)

lemma default_valid: "validate sample_permits server_config_default = Inr ()"
  by (simp add: validate_Inr_iff server_config_default_def write_buffer_size_def sample_permits_def
      word_less_nat_alt word_le_nat_alt)

theorem build_outcomes_witness:
  "case fst (build sample_permits (counter sample_permits) sample_cells
      (builder_allow_anonymous (builder_new :: unit server_builder)) ()
      :: (unit, unit, unit, (fifo, bool, unit, unit, nat) server) ws_result outcome \<times> _) of
     Returned (Inr sv) \<Rightarrow> sv_slots sv = 10000 | _ \<Rightarrow> False"
proof -
  let ?b = "builder_allow_anonymous (builder_new :: unit server_builder)"
  let ?r = "build sample_permits (counter sample_permits) sample_cells ?b ()
      :: (unit, unit, unit, (fifo, bool, unit, unit, nat) server) ws_result outcome \<times> _"
  have b: "sb_authorizer ?b = Some AllowAnonymous" "sb_config ?b = server_config_default"
    by (simp_all add: builder_allow_anonymous_def builder_new_def)
  have c: "max_connections server_config_default = 10000" by (simp add: server_config_default_def)
  show ?thesis
    using build_outcomes [OF counter.counting_semaphore_axioms, where b = ?b and cls = sample_cells
        and max_permits = sample_permits and h = "()" and ?'t = unit and ?'i = unit and ?'s = unit]
    by (auto simp: b c default_valid split: outcome.splits sum.splits)
qed

text \<open>
  The defaults are safe: the default configuration is valid, binds loopback and refuses every
  request that carries an Origin header, and a builder without a decision about authentication
  builds no server.
\<close>

theorem default_config_secure:
  assumes "10000 \<le> max_permits"
  shows "validate max_permits server_config_default = (Inr () :: ('t, 'i, 's, unit) ws_result) \<and>
    (\<exists>port. bind_addr server_config_default = V4 (127, 0, 0, 1) port) \<and>
    (origin_headers api req \<noteq> [] \<longrightarrow>
       \<not> is_ok (admit api (config_origin_policy server_config_default) auth req)) \<and>
    (\<exists>m. fst (build max_permits sem cls builder_new h
        :: ('t, 'i, 's, ('ch, 'nt, 'req, 'h, 'sem) server) ws_result outcome \<times> _) = Returned (Inl (Server m)))"
proof (intro conjI impI)
  show "validate max_permits server_config_default = (Inr () :: ('t, 'i, 's, unit) ws_result)"
    using assms by (simp add: validate_Inr_iff server_config_default_def write_buffer_size_def
      word_less_nat_alt)
  show "\<exists>port. bind_addr server_config_default = V4 (127, 0, 0, 1) port"
    by (simp add: server_config_default_def)
  assume "origin_headers api req \<noteq> []"
  then have "\<not> is_ok (origin_check api (AllowList []) req)"
    using origin_check_Inr_iff [of api "AllowList []" req] by (auto simp: is_ok_iff)
  then show "\<not> is_ok (admit api (config_origin_policy server_config_default) auth req)"
    by (auto simp: is_ok_iff admit_Inr_iff server_config_default_def origin_policy_default_def)
next
  show "\<exists>m. fst (build max_permits sem cls builder_new h
      :: ('t, 'i, 's, ('ch, 'nt, 'req, 'h, 'sem) server) ws_result outcome \<times> _) = Returned (Inl (Server m))"
    by (simp add: build_def builder_new_def)
qed

theorem default_config_secure_witness:
  "validate sample_permits server_config_default = (Inr () :: (unit, unit, unit, unit) ws_result) \<and>
   \<not> is_ok (admit sample_http (config_origin_policy server_config_default) AllowAnonymous [''https://a''])"
  using default_config_secure [OF sample_permits_ge, of sample_http "[''https://a'']" AllowAnonymous
      "counter sample_permits" sample_cells "()", where ?'t = unit and ?'i = unit and ?'s = unit]
    sample_http_origin [of "[''https://a'']"]
  by (metis list.distinct(1))

text \<open>
  The warnings of a server that starts: an unauthenticated server is announced when it is made
  by \<open>new\<close> with \<open>AllowAnonymous\<close> or by \<open>allow_anonymous\<close> on the builder, but not when the same
  authorizer is given to the builder's \<open>authorizer\<close>; accepting any origin is always announced.
\<close>

theorem startup_warnings:
  assumes "validate max_permits cfg = (Inr () :: ('t, 'i, 's, unit) ws_result)"
    and "validate max_permits (sb_config b) = (Inr () :: ('t, 'i, 's, unit) ws_result)"
  defines "warned \<equiv> \<lambda>(p :: ('t, 'i, 's, ('ch, 'nt, 'req, 'h, 'sem) server) ws_result outcome \<times> warning list).
    set (snd p)"
  shows "(UnauthenticatedWarning \<in> warned (server_new max_permits sem cls cfg h a) \<longleftrightarrow> a = AllowAnonymous) \<and>
    UnauthenticatedWarning \<in> warned (build max_permits sem cls (builder_allow_anonymous b) h) \<and>
    UnauthenticatedWarning \<notin> warned (build max_permits sem cls (builder_authorizer AllowAnonymous b) h) \<and>
    (AnyOriginWarning \<in> warned (server_new max_permits sem cls cfg h a) \<longleftrightarrow> config_origin_policy cfg = Any)"
proof -
  have fp: "warned (from_parts max_permits sem cls c h a anon) =
      (if anon then {UnauthenticatedWarning} else {}) \<union>
      (if config_origin_policy c = Any then {AnyOriginWarning} else {})"
    if "validate max_permits c = (Inr () :: ('t, 'i, 's, unit) ws_result)" for c anon and a :: "'req authorizer"
    using that by (auto simp: warned_def from_parts_def Let_def split: option.split)
  show ?thesis
    using fp [OF assms(1)] fp [OF assms(2)]
    by (auto simp: server_new_def build_def builder_allow_anonymous_def builder_authorizer_def
        split: authorizer.split)
qed

theorem startup_warnings_witness:
  "UnauthenticatedWarning \<notin> set (snd (build sample_permits (counter sample_permits) sample_cells
     (builder_authorizer AllowAnonymous (builder_new :: unit server_builder)) ()
     :: (unit, unit, unit, (fifo, bool, unit, unit, nat) server) ws_result outcome \<times> _))"
proof -
  have "sb_config (builder_new :: unit server_builder) = server_config_default"
    by (simp add: builder_new_def)
  then show ?thesis
    using startup_warnings [of sample_permits server_config_default "builder_new :: unit server_builder"
        "counter sample_permits" sample_cells "()" AllowAnonymous,
        where ?'t = unit and ?'i = unit and ?'s = unit]
    by (simp add: default_valid)
qed

end
