(* ===== verification/Ws_Handshake.thy ===== *)
theory Ws_Handshake imports Ws_Config begin

text \<open>
  The upgrade handshake of \<open>server.rs\<close>.  \<open>accept_hdr_async_with_config\<close> of tokio-tungstenite,
  under \<open>tokio::time::timeout\<close>, is the parameter \<open>accept\<close>: it gets the stream, the callback and
  the WebSocket configuration, threads the slot the callback writes to, and ends with the
  timeout, an error or a stream.  What the server relies on is the locale \<open>upgrade\<close>: the callback
  is given the request at most once, and there is a stream only if it was given and accepted.
\<close>

record http_response =
  hr_status :: status_code
  hr_body :: "string option"

datatype ('ws, 't) accepted = TimedOut | AcceptFailed 't | Upgraded 'ws

type_synonym slot = "principal option"

type_synonym ('req, 'resp) header_callback =
  "'req \<Rightarrow> 'resp \<Rightarrow> slot \<Rightarrow> (http_response + 'resp) \<times> slot"

type_synonym ('st, 'req, 'resp, 'wc, 'ws, 't) acceptor =
  "'st \<Rightarrow> ('req, 'resp) header_callback \<Rightarrow> 'wc \<Rightarrow> slot \<Rightarrow> ('ws, 't) accepted \<times> slot"

definition response_new :: "string option \<Rightarrow> http_response" where
  "response_new body = \<lparr>hr_status = 200, hr_body = body\<rparr>"

definition rejection_response :: "handshake_rejection \<Rightarrow> http_response" where
  "rejection_response r = (response_new (Some (rj_reason r)))\<lparr>hr_status := rj_status r\<rparr>"

definition handshake_callback ::
  "('req, 'hv) http_api \<Rightarrow> origin_policy \<Rightarrow> 'req authorizer \<Rightarrow> ('req, 'resp) header_callback" where
  "handshake_callback api policy auth request response slot =
     (case admit api policy auth request of
        Inr p \<Rightarrow> (Inr response, Some p)
      | Inl rejection \<Rightarrow> (Inl (rejection_response rejection), slot))"

text \<open>\<open>is_http e\<close> is the pattern \<open>tungstenite::Error::Http(_)\<close>.\<close>

definition handshake ::
  "('req, 'hv) http_api \<Rightarrow> ('st, 'req, 'resp, 'wc, 'ws, 't) acceptor \<Rightarrow> ('t \<Rightarrow> bool)
     \<Rightarrow> 'wc ws_config_api \<Rightarrow> 'st \<Rightarrow> 'req authorizer \<Rightarrow> server_config
     \<Rightarrow> ('t, 'i, 's, ('ws \<times> principal) option) ws_result" where
  "handshake api accept is_http wca stream auth cfg =
     (case accept stream (handshake_callback api (config_origin_policy cfg) auth)
        (server_ws_config wca cfg) None of
        (TimedOut, _) \<Rightarrow> Inr None
      | (AcceptFailed e, _) \<Rightarrow> if is_http e then Inr None else Inl (Protocol e)
      | (Upgraded ws, slot) \<Rightarrow>
          and_then (ok_or slot (Server ''handshake completed without authorization''))
            (\<lambda>p. Inr (Some (ws, p))))"

section \<open>The contract of the upgrade\<close>

locale upgrade =
  fixes accept :: "('st, 'req, 'resp, 'wc, 'ws, 't) acceptor"
    and request_of :: "'st \<Rightarrow> 'req" and response_of :: "'st \<Rightarrow> 'resp"
  assumes upgraded_only_if_accepted:
      "accept st cb wc s = (Upgraded ws, s') \<Longrightarrow>
         \<exists>r. cb (request_of st) (response_of st) s = (Inr r, s')"
begin

lemma handshake_admitted:
  assumes "handshake api accept is_http wca st auth cfg = Inr (Some (ws, p))"
  shows "admit api (config_origin_policy cfg) auth (request_of st) = Inr p"
  using assms
  by (auto simp: handshake_def handshake_callback_def and_then_Inr_iff ok_or_def
      dest!: upgraded_only_if_accepted split: prod.splits accepted.splits if_splits sum.splits option.splits)

lemma handshake_authorized:
  assumes "accept st (handshake_callback api policy auth) wc None = (Upgraded ws, s)"
  shows "\<exists>p. s = Some p \<and> admit api policy auth (request_of st) = Inr p"
  using upgraded_only_if_accepted [OF assms]
  by (auto simp: handshake_callback_def split: sum.splits)

lemma handshake_no_server_error:
  "handshake api accept is_http wca st auth cfg \<noteq> Inl (Server m)"
  by (auto simp: handshake_def and_then_def ok_or_def dest!: handshake_authorized
      split: prod.splits accepted.splits sum.splits option.splits)

end

section \<open>A plain upgrade\<close>

text \<open>
  A stream that carries its request, with or without an end in time; the callback's refusal is
  the HTTP error.
\<close>

definition plain_accept :: "('req option, 'req, unit, 'wc, 'req, http_response option) acceptor" where
  "plain_accept st cb wc s =
     (case st of
        None \<Rightarrow> (TimedOut, s)
      | Some req \<Rightarrow>
          (case cb req () s of
             (Inl resp, s') \<Rightarrow> (AcceptFailed (Some resp), s')
           | (Inr _, s') \<Rightarrow> (Upgraded req, s')))"

interpretation plain: upgrade plain_accept "\<lambda>st. the st" "\<lambda>_. ()"
  by unfold_locales (auto simp: plain_accept_def split: option.splits prod.splits sum.splits)

section \<open>Properties\<close>

text \<open>
  C11. A connection comes out of the handshake only with the principal the authorizer gave for
  its own upgrade request, and only if the origin policy let that request through; a refusal, a
  timeout and an HTTP error are no error of the server, and the error for an upgrade without
  authorization never occurs.
\<close>

theorem handshake_authenticates:
  assumes "upgrade accept request_of response_of"
  shows "case (handshake api accept is_http wca st auth cfg :: ('t, 'i, 's, ('ws \<times> principal) option) ws_result) of
      Inr (Some (ws, p)) \<Rightarrow>
        is_ok (origin_check api (config_origin_policy cfg) (request_of st)) \<and>
        authorize auth (request_of st) = Inr p
    | Inr None \<Rightarrow> True
    | Inl e \<Rightarrow> \<exists>t. e = Protocol t \<and> \<not> is_http t"
proof (cases "handshake api accept is_http wca st auth cfg :: ('t, 'i, 's, ('ws \<times> principal) option) ws_result")
  case (Inl e)
  have "\<exists>t. e = Protocol t \<and> \<not> is_http t \<or> (\<exists>m. e = Server m)"
    using Inl by (auto simp: handshake_def and_then_def ok_or_def
        split: prod.splits accepted.splits sum.splits option.splits if_splits)
  then show ?thesis
    using Inl by (auto simp: upgrade.handshake_no_server_error [OF assms])
next
  case (Inr r)
  show ?thesis
  proof (cases r)
    case None
    with Inr show ?thesis by simp
  next
    case (Some q)
    then obtain ws p where "r = Some (ws, p)" by (cases q) auto
    then show ?thesis
      using Inr upgrade.handshake_admitted [OF assms, of api is_http wca st auth cfg ws p]
      by (simp add: admit_Inr_iff)
  qed
qed

definition sample_wc :: "unit ws_config_api" where
  "sample_wc = \<lparr>wc_default = (), wc_max_message_size = (\<lambda>_ _. ()), wc_max_frame_size = (\<lambda>_ _. ()),
     wc_write_buffer_size = (\<lambda>_ _. ()), wc_max_write_buffer_size = (\<lambda>_ _. ())\<rparr>"

theorem handshake_authenticates_witness:
  "(handshake sample_http plain_accept (\<lambda>e. e \<noteq> None) sample_wc (Some [''https://a''])
      AllowAnonymous server_config_default
      :: (http_response option, unit, unit, (string list \<times> principal) option) ws_result) = Inr None \<and>
   (case (handshake sample_http plain_accept (\<lambda>e. e \<noteq> None) sample_wc (Some [])
      (Custom (\<lambda>_. Inr (principal_new ''u''))) server_config_default
      :: (http_response option, unit, unit, (string list \<times> principal) option) ws_result) of
    Inr (Some (ws, p)) \<Rightarrow> subject p = Some ''u'' | _ \<Rightarrow> False)"
proof -
  have a: "(handshake sample_http plain_accept (\<lambda>e. e \<noteq> None) sample_wc (Some [''https://a''])
      AllowAnonymous server_config_default
      :: (http_response option, unit, unit, (string list \<times> principal) option) ws_result) = Inr None"
    by (simp add: handshake_def plain_accept_def handshake_callback_def admit_def origin_check_def
        sample_http_def server_config_default_def origin_policy_default_def)
  have b: "is_ok (handshake sample_http plain_accept (\<lambda>e. e \<noteq> None) sample_wc (Some [])
      (Custom (\<lambda>_. Inr (principal_new ''u''))) server_config_default
      :: (http_response option, unit, unit, (string list \<times> principal) option) ws_result)"
    "(handshake sample_http plain_accept (\<lambda>e. e \<noteq> None) sample_wc (Some [])
      (Custom (\<lambda>_. Inr (principal_new ''u''))) server_config_default
      :: (http_response option, unit, unit, (string list \<times> principal) option) ws_result) \<noteq> Inr None"
    by (simp_all add: handshake_def plain_accept_def handshake_callback_def admit_def origin_check_def
        sample_http_def)
  show ?thesis
    using handshake_authenticates [OF plain.upgrade_axioms, where api = sample_http
        and is_http = "\<lambda>e. e \<noteq> None" and wca = sample_wc and st = "Some []"
        and auth = "Custom (\<lambda>_. Inr (principal_new ''u''))" and cfg = server_config_default
        and ?'i = unit and ?'s = unit] a b
    by (auto simp: is_ok_iff split: sum.splits option.splits)
qed

text \<open>
  A request the origin policy refuses is answered with status 403 and a text that does not
  depend on the authorizer, which is not consulted, nor on the slot, which is left alone; one
  the authorizer refuses is answered with the authorizer's status and reason.
\<close>

theorem callback_refusals:
  "(\<not> is_ok (origin_check api policy req) \<longrightarrow>
      (\<exists>m. \<forall>auth s. handshake_callback api policy auth req resp s =
         (Inl \<lparr>hr_status = 403, hr_body = Some m\<rparr>, s))) \<and>
   (is_ok (origin_check api policy req) \<longrightarrow> authorize auth req = Inl r \<longrightarrow>
      handshake_callback api policy auth req resp s =
        (Inl \<lparr>hr_status = rj_status r, hr_body = Some (rj_reason r)\<rparr>, s))"
proof (intro conjI impI)
  assume "\<not> is_ok (origin_check api policy req)"
  then obtain r where r: "origin_check api policy req = Inl r"
    by (cases "origin_check api policy req") auto
  then have "handshake_callback api policy auth req resp s =
      (Inl \<lparr>hr_status = 403, hr_body = Some (rj_reason r)\<rparr>, s)" for auth s
    using origin_check_status [OF r]
    by (simp add: handshake_callback_def admit_rejected rejection_response_def response_new_def)
  then show "\<exists>m. \<forall>auth s. handshake_callback api policy auth req resp s =
      (Inl \<lparr>hr_status = 403, hr_body = Some m\<rparr>, s)" by blast
next
  assume "is_ok (origin_check api policy req)" "authorize auth req = Inl r"
  then show "handshake_callback api policy auth req resp s =
      (Inl \<lparr>hr_status = rj_status r, hr_body = Some (rj_reason r)\<rparr>, s)"
    by (auto simp: is_ok_iff handshake_callback_def admit_def rejection_response_def response_new_def)
qed

theorem callback_refusals_witness:
  "\<exists>m. handshake_callback sample_http Any AllowAnonymous [''a'', ''b''] () None =
     (Inl \<lparr>hr_status = 403, hr_body = Some m\<rparr>, None)"
proof -
  have "\<not> is_ok (origin_check sample_http Any [''a'', ''b''])"
    by (simp add: origin_check_def sample_http_def)
  with callback_refusals [of sample_http Any "[''a'', ''b'']" "()"] show ?thesis by blast
qed

end
