(* ===== verification/Ws_Session.thy ===== *)
theory Ws_Session imports Ws_Handler Ws_Handshake begin

text \<open>
  \<open>handle_connection\<close> of \<open>server.rs\<close>: registration, the read loop with its heartbeat and its
  idle deadline, and the teardown.

  Each turn of the loop waits in \<open>select!\<close> and takes one branch that is ready; which one is up
  to the runtime and the network, so the loop runs over a list of events, one per turn, with
  the steps of other tasks in between (\<open>Elsewhere\<close>).  When an event can happen is stated where it
  matters, as the schedules of the timing theorems.  Constructors of tokio that may panic are
  the parameters of \<open>time_api\<close> and \<open>env_channel_ok\<close>.
\<close>

record time_api =
  interval_ok :: "duration \<Rightarrow> bool"
  add_instant :: "instant \<Rightarrow> duration \<Rightarrow> instant option"

record ('ch, 'nt, 't, 'i, 's, 'w) session_env =
  env_rt :: "('ch, 'nt) runtime"
  env_time :: time_api
  env_channel_ok :: "usize \<Rightarrow> bool"
  env_iter :: iteration
  env_config :: server_config
  env_handler :: "('t, 'i, 's, 'w) handler"

record session =
  missed_heartbeats :: u32
  last_read :: instant

datatype ('c, 'f, 't, 'w) event =
    Tick
  | Evicted
  | IdleElapsed
  | ReadNext instant "('t + ('c, 'f) raw_message) option"
  | Elsewhere "'w \<Rightarrow> 'w"

datatype break_reason =
    MissedHeartbeats | PingFailed | WasEvicted | IdleTimeout | PeerClosed | ReadError | StreamEnded

datatype 'w progress =
    Looping session 'w
  | Stopped break_reason 'w
  | Crashed 'w

definition max_missed_heartbeats :: u32 where
  "max_missed_heartbeats = 3"

section \<open>The branches of the loop\<close>

definition send_quietly ::
  "('ch, 'nt) runtime \<Rightarrow> message \<Rightarrow> connection \<Rightarrow> ('ch, 'nt, 'z) world_scheme
     \<Rightarrow> bool \<times> ('ch, 'nt, 'z) world_scheme" where
  "send_quietly rt m c w =
     (let (r, cls) = (connection_send rt m c (cells w) :: (unit, unit, unit, unit) ws_result \<times> _)
      in (is_ok r, w\<lparr>cells := cls\<rparr>))"

definition on_tick ::
  "('ch, 'nt) runtime \<Rightarrow> connection \<Rightarrow> session \<Rightarrow> ('ch, 'nt, 'z) world_scheme
     \<Rightarrow> ('ch, 'nt, 'z) world_scheme progress" where
  "on_tick rt c s w =
     (let m = missed_heartbeats s + 1
      in if max_missed_heartbeats < m then Stopped MissedHeartbeats w
         else
           (let (ok, w1) = send_quietly rt (ping_msg []) c w
            in if ok then Looping (s\<lparr>missed_heartbeats := m\<rparr>) w1 else Stopped PingFailed w1))"

definition on_evicted ::
  "('ch, 'nt) runtime \<Rightarrow> connection \<Rightarrow> session \<Rightarrow> ('ch, 'nt, 'z) world_scheme
     \<Rightarrow> ('ch, 'nt, 'z) world_scheme progress" where
  "on_evicted rt c s w =
     (case connection_evicted rt c (cells w) of
        None \<Rightarrow> Looping s w
      | Some cls \<Rightarrow> Stopped WasEvicted (w\<lparr>cells := cls\<rparr>))"

definition on_frame ::
  "('ch, 'nt) runtime \<Rightarrow> ('t, 'i, 's, ('ch, 'nt, 'z) world_scheme) handler \<Rightarrow> connection
     \<Rightarrow> principal \<Rightarrow> ('c, 'f) raw_message \<Rightarrow> session \<Rightarrow> ('ch, 'nt, 'z) world_scheme
     \<Rightarrow> ('ch, 'nt, 'z) world_scheme progress" where
  "on_frame rt h c p raw s w =
     (if raw_is_close raw then Stopped PeerClosed w
      else
        (let m = message_of_raw raw
         in if is_ping m then
              (case on_ping h (conn_id c) (as_bytes m) w of
                 Panics w1 \<Rightarrow> Crashed w1
               | Returns reply w1 \<Rightarrow> Looping s (snd (send_quietly rt (pong_msg reply) c w1)))
            else if is_pong m then
              (case on_pong h (conn_id c) (as_bytes m) w of
                 Panics w1 \<Rightarrow> Crashed w1
               | Returns _ w1 \<Rightarrow> Looping (s\<lparr>missed_heartbeats := 0\<rparr>) w1)
            else
              (case on_message h (conn_id c) p m w of
                 Panics w1 \<Rightarrow> Crashed w1
               | Returns _ w1 \<Rightarrow> Looping s w1)))"

definition on_read ::
  "('ch, 'nt) runtime \<Rightarrow> ('t, 'i, 's, ('ch, 'nt, 'z) world_scheme) handler \<Rightarrow> connection
     \<Rightarrow> principal \<Rightarrow> instant \<Rightarrow> ('t + ('c, 'f) raw_message) option \<Rightarrow> session
     \<Rightarrow> ('ch, 'nt, 'z) world_scheme \<Rightarrow> ('ch, 'nt, 'z) world_scheme progress" where
  "on_read rt h c p now result s w =
     (let s1 = s\<lparr>last_read := now\<rparr>
      in case result of
           Some (Inr raw) \<Rightarrow> on_frame rt h c p raw (s1\<lparr>missed_heartbeats := 0\<rparr>) w
         | Some (Inl e) \<Rightarrow>
             (case on_error h (conn_id c) (Protocol e) w of
                Panics w1 \<Rightarrow> Crashed w1
              | Returns _ w1 \<Rightarrow> Stopped ReadError w1)
         | None \<Rightarrow> Stopped StreamEnded w)"

text \<open>One turn: the deadline, then the branch.\<close>

definition loop_turn ::
  "('ch, 'nt, 't, 'i, 's, ('ch, 'nt, 'z) world_scheme) session_env \<Rightarrow> connection \<Rightarrow> principal
     \<Rightarrow> ('c, 'f, 't, ('ch, 'nt, 'z) world_scheme) event \<Rightarrow> session \<Rightarrow> ('ch, 'nt, 'z) world_scheme
     \<Rightarrow> ('ch, 'nt, 'z) world_scheme progress" where
  "loop_turn env c p ev s w =
     (case add_instant (env_time env) (last_read s) (connection_timeout (env_config env)) of
        None \<Rightarrow> Crashed w
      | Some idle_deadline \<Rightarrow>
          (case ev of
             Tick \<Rightarrow> on_tick (env_rt env) c s w
           | Evicted \<Rightarrow> on_evicted (env_rt env) c s w
           | IdleElapsed \<Rightarrow> Stopped IdleTimeout w
           | ReadNext now result \<Rightarrow> on_read (env_rt env) (env_handler env) c p now result s w
           | Elsewhere f \<Rightarrow> Looping s (f w)))"

fun advance ::
  "('ch, 'nt, 't, 'i, 's, ('ch, 'nt, 'z) world_scheme) session_env \<Rightarrow> connection \<Rightarrow> principal
     \<Rightarrow> ('c, 'f, 't, ('ch, 'nt, 'z) world_scheme) event
     \<Rightarrow> ('ch, 'nt, 'z) world_scheme progress \<Rightarrow> ('ch, 'nt, 'z) world_scheme progress" where
  "advance env c p ev (Looping s w) = loop_turn env c p ev s w"
| "advance env c p ev st = st"

definition read_loop ::
  "('ch, 'nt, 't, 'i, 's, ('ch, 'nt, 'z) world_scheme) session_env \<Rightarrow> connection \<Rightarrow> principal
     \<Rightarrow> ('c, 'f, 't, ('ch, 'nt, 'z) world_scheme) event list \<Rightarrow> session \<Rightarrow> ('ch, 'nt, 'z) world_scheme
     \<Rightarrow> ('ch, 'nt, 'z) world_scheme progress" where
  "read_loop env c p evs s w = run_ops (advance env c p) evs (Looping s w)"

section \<open>The life of a connection\<close>

datatype ('r, 'w) session_end =
    Running session 'w
  | Ended 'r 'w
  | Aborted 'w

text \<open>
  The teardown, in parts between which it waits: the close request; when the writer has ended or was
  aborted, the last state; and \<open>on_disconnect\<close> with the unregistration.  \<open>flushed\<close> is whether the
  writer ended within the close timeout; if not, it is aborted and its receiver is dropped.
\<close>

definition teardown_close ::
  "('ch, 'nt, 't, 'i, 's, ('ch, 'nt, 'z) world_scheme) session_env \<Rightarrow> connection
     \<Rightarrow> ('ch, 'nt, 'z) world_scheme \<Rightarrow> ('ch, 'nt, 'z) world_scheme" where
  "teardown_close env c w = w\<lparr>cells := connection_close (env_rt env) c (cells w)\<rparr>"

definition teardown_closed ::
  "('ch, 'nt, 't, 'i, 's, ('ch, 'nt, 'z) world_scheme) session_env \<Rightarrow> connection \<Rightarrow> bool
     \<Rightarrow> ('ch, 'nt, 'z) world_scheme \<Rightarrow> ('ch, 'nt, 'z) world_scheme" where
  "teardown_closed env c flushed w1 =
     (let w2 = (if flushed then w1
                else w1\<lparr>cells := (cells w1)(conn_cell c := cell_drop_rx (env_rt env) (cells w1 (conn_cell c)))\<rparr>)
      in w2\<lparr>cells := connection_set_state Closed c (cells w2)\<rparr>)"

definition teardown_disconnect ::
  "('ch, 'nt, 't, 'i, 's, ('ch, 'nt, 'z) world_scheme) session_env \<Rightarrow> connection \<Rightarrow> principal
     \<Rightarrow> ('ch, 'nt, 'z) world_scheme \<Rightarrow> (unit, ('ch, 'nt, 'z) world_scheme) call" where
  "teardown_disconnect env c p w3 =
     (case on_disconnect (env_handler env) (conn_id c) p w3 of
        Panics w4 \<Rightarrow> Panics w4
      | Returns _ w4 \<Rightarrow> Returns () (unregister_connection (env_iter env) (conn_id c) w4))"

text \<open>\<open>drain\<close> is what the other tasks do in between.\<close>

definition teardown ::
  "('ch, 'nt, 't, 'i, 's, ('ch, 'nt, 'z) world_scheme) session_env \<Rightarrow> connection \<Rightarrow> principal
     \<Rightarrow> (('ch, 'nt, 'z) world_scheme \<Rightarrow> ('ch, 'nt, 'z) world_scheme) \<Rightarrow> bool
     \<Rightarrow> ('ch, 'nt, 'z) world_scheme
     \<Rightarrow> (('t, 'i, 's, unit) ws_result, ('ch, 'nt, 'z) world_scheme) session_end" where
  "teardown env c p drain flushed w =
     (case teardown_disconnect env c p (teardown_closed env c flushed (drain (teardown_close env c w))) of
        Panics w4 \<Rightarrow> Aborted w4
      | Returns _ w4 \<Rightarrow> Ended (Inr ()) w4)"

text \<open>From the handshake to the loop: the connection and its registration; \<open>on_connect\<close> and the ticker.\<close>

definition session_register ::
  "('ch, 'nt, 't, 'i, 's, ('ch, 'nt, 'z) world_scheme) session_env \<Rightarrow> string \<Rightarrow> socket_addr \<Rightarrow> nat
     \<Rightarrow> principal \<Rightarrow> ('ch, 'nt, 'z) world_scheme \<Rightarrow> (connection, ('ch, 'nt, 'z) world_scheme) call" where
  "session_register env cid addr ref p w =
     (if \<not> env_channel_ok env (outbound_queue_capacity (env_config env)) then Panics w
      else
        (let (c, cls) = connection_new (env_rt env) cid (Some addr) p
               (rt_channel (env_rt env) (outbound_queue_capacity (env_config env))) ref (cells w)
         in Returns c (register_connection (connection_clone c) (w\<lparr>cells := cls\<rparr>))))"

definition session_connected ::
  "('ch, 'nt, 't, 'i, 's, ('ch, 'nt, 'z) world_scheme) session_env \<Rightarrow> connection \<Rightarrow> principal
     \<Rightarrow> ('ch, 'nt, 'z) world_scheme \<Rightarrow> (unit, ('ch, 'nt, 'z) world_scheme) call" where
  "session_connected env c p w1 =
     (case on_connect (env_handler env) (conn_id c) p w1 of
        Panics w2 \<Rightarrow> Panics w2
      | Returns _ w2 \<Rightarrow>
          if \<not> interval_ok (env_time env) (heartbeat_interval (env_config env)) then Panics w2
          else Returns () w2)"

definition session_start :: "instant \<Rightarrow> session" where
  "session_start now = \<lparr>missed_heartbeats = 0, last_read = now\<rparr>"

definition run_session ::
  "('ch, 'nt, 't, 'i, 's, ('ch, 'nt, 'z) world_scheme) session_env \<Rightarrow> string \<Rightarrow> socket_addr \<Rightarrow> nat
     \<Rightarrow> principal \<Rightarrow> instant \<Rightarrow> ('c, 'f, 't, ('ch, 'nt, 'z) world_scheme) event list
     \<Rightarrow> (('ch, 'nt, 'z) world_scheme \<Rightarrow> ('ch, 'nt, 'z) world_scheme) \<Rightarrow> bool
     \<Rightarrow> ('ch, 'nt, 'z) world_scheme
     \<Rightarrow> (('t, 'i, 's, unit) ws_result, ('ch, 'nt, 'z) world_scheme) session_end" where
  "run_session env cid addr ref p now evs drain flushed w =
     (case session_register env cid addr ref p w of
        Panics w1 \<Rightarrow> Aborted w1
      | Returns c w1 \<Rightarrow>
          (case session_connected env c p w1 of
             Panics w2 \<Rightarrow> Aborted w2
           | Returns _ w2 \<Rightarrow>
               (case read_loop env c p evs (session_start now) w2 of
                  Looping s w3 \<Rightarrow> Running s w3
                | Crashed w3 \<Rightarrow> Aborted w3
                | Stopped _ w3 \<Rightarrow> teardown env c p drain flushed w3)))"

definition handle_connection ::
  "('req, 'hv) http_api \<Rightarrow> ('st, 'req, 'resp, 'wc, 'ws, 't) acceptor \<Rightarrow> ('t \<Rightarrow> bool)
     \<Rightarrow> 'wc ws_config_api \<Rightarrow> 'req authorizer
     \<Rightarrow> ('ch, 'nt, 't, 'i, 's, ('ch, 'nt, 'z) world_scheme) session_env \<Rightarrow> 'st \<Rightarrow> socket_addr
     \<Rightarrow> string \<Rightarrow> nat \<Rightarrow> instant \<Rightarrow> ('c, 'f, 't, ('ch, 'nt, 'z) world_scheme) event list
     \<Rightarrow> (('ch, 'nt, 'z) world_scheme \<Rightarrow> ('ch, 'nt, 'z) world_scheme) \<Rightarrow> bool
     \<Rightarrow> ('ch, 'nt, 'z) world_scheme
     \<Rightarrow> (('t, 'i, 's, unit) ws_result, ('ch, 'nt, 'z) world_scheme) session_end" where
  "handle_connection api accept is_http wca auth env stream addr cid ref now evs drain flushed w =
     (case handshake api accept is_http wca stream auth (env_config env) of
        Inl e \<Rightarrow> Ended (Inl e) w
      | Inr None \<Rightarrow> Ended (Inr ()) w
      | Inr (Some (ws, p)) \<Rightarrow> run_session env cid addr ref p now evs drain flushed w)"

end
