(* ===== verification/Ws_Session_Props.thy ===== *)
theory Ws_Session_Props imports Ws_Session begin

text \<open>
  Properties of a connection's session: the heartbeat counter and what it counts, the callbacks
  the application sees, and what the session leaves in the room manager.
\<close>

section \<open>The loop as a machine\<close>

lemma read_loop_simps [simp]:
  "read_loop env c p [] s w = Looping s w"
  "read_loop env c p (ev # evs) s w =
     (case loop_turn env c p ev s w of
        Looping s1 w1 \<Rightarrow> read_loop env c p evs s1 w1
      | Stopped r w1 \<Rightarrow> Stopped r w1
      | Crashed w1 \<Rightarrow> Crashed w1)"
proof -
  have done_run: "run_ops (advance env c p) evs st = st" if "\<nexists>s w. st = Looping s w" for evs st
    using that by (induction evs) (cases st; auto)+
  show "read_loop env c p [] s w = Looping s w" by (simp add: read_loop_def)
  show "read_loop env c p (ev # evs) s w =
     (case loop_turn env c p ev s w of
        Looping s1 w1 \<Rightarrow> read_loop env c p evs s1 w1
      | Stopped r w1 \<Rightarrow> Stopped r w1
      | Crashed w1 \<Rightarrow> Crashed w1)"
    by (simp add: read_loop_def done_run split: progress.split)
qed

section \<open>What the counter counts\<close>

text \<open>The heartbeats since the last successful read.\<close>

fun count_missed :: "('c, 'f, 't, 'w) event \<Rightarrow> nat \<Rightarrow> nat" where
  "count_missed Tick k = k + 1"
| "count_missed (ReadNext _ (Some (Inr _))) k = 0"
| "count_missed _ k = k"

definition ticks_since_read :: "('c, 'f, 't, 'w) event list \<Rightarrow> nat" where
  "ticks_since_read evs = fold count_missed evs 0"

lemma loop_turn_counter:
  assumes "missed_heartbeats s \<le> 3" and "loop_turn env c p ev s w = Looping s1 w1"
  shows "missed_heartbeats s1 \<le> 3 \<and>
    unat (missed_heartbeats s1) = count_missed ev (unat (missed_heartbeats s))"
proof -
  have le: "unat (missed_heartbeats s) \<le> 3" using assms(1) by (simp add: word_le_nat_alt)
  have inc: "unat (missed_heartbeats s + 1) = unat (missed_heartbeats s) + 1"
    using le by (simp add: unat_word_ariths)
  show ?thesis
  proof (cases ev)
    case Tick
    then show ?thesis using assms inc
      by (auto simp: loop_turn_def on_tick_def max_missed_heartbeats_def case_prod_unfold Let_def
          not_less split: option.splits if_splits)
  next
    case (ReadNext now r)
    then show ?thesis using assms
      by (auto simp: loop_turn_def on_read_def on_frame_def Let_def case_prod_unfold
          split: option.splits sum.splits if_splits call.splits)
  qed (use assms in \<open>auto simp: loop_turn_def on_evicted_def split: option.splits\<close>)
qed

lemma loop_turn_missed:
  assumes "missed_heartbeats s \<le> 3" and "loop_turn env c p ev s w = Stopped MissedHeartbeats w1"
  shows "ev = Tick \<and> unat (missed_heartbeats s) = 3"
proof -
  have "ev = Tick \<and> 3 < missed_heartbeats s + 1"
    using assms(2)
    by (auto simp: loop_turn_def on_tick_def on_evicted_def on_read_def on_frame_def Let_def
        max_missed_heartbeats_def case_prod_unfold
        split: option.splits event.splits sum.splits if_splits call.splits)
  moreover have "unat (missed_heartbeats s) \<le> 3" using assms(1) by (simp add: word_le_nat_alt)
  then have "unat (missed_heartbeats s + 1) = unat (missed_heartbeats s) + 1"
    by (simp add: unat_word_ariths)
  ultimately show ?thesis using \<open>unat (missed_heartbeats s) \<le> 3\<close> by (simp add: word_less_nat_alt)
qed

lemma read_loop_counter:
  assumes "missed_heartbeats s \<le> 3"
  shows "read_loop env c p evs s w = Looping s1 w1 \<Longrightarrow>
      missed_heartbeats s1 \<le> 3 \<and>
      unat (missed_heartbeats s1) = fold count_missed evs (unat (missed_heartbeats s))"
    and "read_loop env c p evs s w = Stopped MissedHeartbeats w1 \<Longrightarrow>
      \<exists>pre post. evs = pre @ Tick # post \<and> fold count_missed pre (unat (missed_heartbeats s)) = 3"
  using assms
proof (induction evs arbitrary: s w)
  case Nil
  { case 1 then show ?case by simp }
  { case 2 then show ?case by simp }
next
  case (Cons ev evs)
  { case 1
    then show ?case
      using Cons.IH(1) loop_turn_counter [of s env c p ev w]
      by (auto split: progress.splits) }
  { case 2
    show ?case
    proof (cases "loop_turn env c p ev s w")
      case (Looping s2 w2)
      then obtain pre post where "evs = pre @ Tick # post"
        "fold count_missed pre (unat (missed_heartbeats s2)) = 3"
        using 2 Cons.IH(2) [of s2 w2] loop_turn_counter [of s env c p ev w s2 w2] by auto
      then show ?thesis
        using Looping 2 loop_turn_counter [of s env c p ev w s2 w2]
        by (intro exI [of _ "ev # pre"] exI [of _ post]) auto
    next
      case (Stopped r w2)
      with 2 loop_turn_missed [of s env c p ev w w2] show ?thesis
        by (intro exI [of _ "[]"] exI [of _ evs]) auto
    next
      case (Crashed w2)
      with 2 show ?thesis by simp
    qed }
qed

definition counter_ok :: "'w progress \<Rightarrow> bool" where
  "counter_ok st \<longleftrightarrow> (case st of Looping s w \<Rightarrow> missed_heartbeats s \<le> 3 | _ \<Rightarrow> True)"

lemma advance_counter_ok: "counter_ok st \<Longrightarrow> counter_ok (advance env c p ev st)"
  by (cases st) (auto simp: counter_ok_def dest: loop_turn_counter split: progress.split)

interpretation counter_machine: machine "\<lambda>_ _. True" "advance env c p" counter_ok for env c p
  by unfold_locales (rule advance_counter_ok)

section \<open>Invariants through a session\<close>

definition progress_world :: "'w progress \<Rightarrow> 'w" where
  "progress_world st = (case st of Looping _ w \<Rightarrow> w | Stopped _ w \<Rightarrow> w | Crashed w \<Rightarrow> w)"

lemma progress_world_simps [simp]:
  "progress_world (Looping s w) = w" "progress_world (Stopped r w) = w" "progress_world (Crashed w) = w"
  by (simp_all add: progress_world_def)

text \<open>What other tasks do between the turns keeps an invariant.\<close>

definition others_keep :: "('w \<Rightarrow> bool) \<Rightarrow> ('c, 'f, 't, 'w) event list \<Rightarrow> bool" where
  "others_keep I evs \<longleftrightarrow> (\<forall>f w. Elsewhere f \<in> set evs \<longrightarrow> I w \<longrightarrow> I (f w))"

context handler_contract begin

lemma send_keeps: "I w \<Longrightarrow> I (snd (send_quietly rt m c w))"
  by (simp add: send_quietly_def case_prod_unfold Let_def cells_keeps)

lemma frame_keeps: "I w \<Longrightarrow> I (progress_world (on_frame rt h c p raw s w))"
  using message_keeps [of w "conn_id c" p "message_of_raw raw"]
    ping_keeps [of w "conn_id c" "as_bytes (message_of_raw raw)"]
    pong_keeps [of w "conn_id c" "as_bytes (message_of_raw raw)"]
  by (auto simp: on_frame_def Let_def send_keeps split: call.split)

lemma turn_keeps:
  assumes "env_handler env = h" "I w" "\<And>f w. ev = Elsewhere f \<Longrightarrow> I w \<Longrightarrow> I (f w)"
  shows "I (progress_world (loop_turn env c p ev s w))"
proof (cases ev)
  case Tick
  then show ?thesis using assms(2) send_keeps [OF assms(2)]
    by (auto simp: loop_turn_def on_tick_def Let_def case_prod_unfold split: option.split)
next
  case Evicted
  then show ?thesis using assms(2) cells_keeps
    by (auto simp: loop_turn_def on_evicted_def split: option.split)
next
  case (ReadNext now r)
  then show ?thesis using assms(1,2) error_keeps [of w "conn_id c" "Protocol (projl (the r))"]
    by (auto simp: loop_turn_def on_read_def Let_def frame_keeps split: option.split sum.split call.split)
next
  case IdleElapsed
  then show ?thesis using assms(2) by (simp add: loop_turn_def split: option.split)
next
  case (Elsewhere f)
  then show ?thesis using assms by (simp add: loop_turn_def split: option.split)
qed

lemma loop_keeps:
  assumes "env_handler env = h"
  shows "I w \<Longrightarrow> others_keep I evs \<Longrightarrow> I (progress_world (read_loop env c p evs s w))"
proof (induction evs arbitrary: s w)
  case Nil
  then show ?case by simp
next
  case (Cons ev evs)
  have "I (progress_world (loop_turn env c p ev s w))"
    using Cons.prems by (intro turn_keeps [OF assms]) (auto simp: others_keep_def)
  moreover have "others_keep I evs" using Cons.prems(2) by (simp add: others_keep_def)
  ultimately show ?case using Cons.IH by (auto split: progress.split)
qed

end

section \<open>What is recorded\<close>

text \<open>The callback of a read, if it has one, and the reads of a list of events.\<close>

definition callback_of ::
  "string \<Rightarrow> principal \<Rightarrow> ('t + ('c, 'f) raw_message) option \<Rightarrow> ('t, 'i, 's) callback list" where
  "callback_of cid p r =
     (case r of
        None \<Rightarrow> []
      | Some (Inl e) \<Rightarrow> [GotError cid (Protocol e)]
      | Some (Inr raw) \<Rightarrow>
          (let m = message_of_raw raw
           in if raw_is_close raw then []
              else if is_ping m then [GotPing cid (as_bytes m)]
              else if is_pong m then [GotPong cid (as_bytes m)]
              else [GotMessage cid p m]))"

fun reads_of :: "('c, 'f, 't, 'w) event list \<Rightarrow> ('t + ('c, 'f) raw_message) option list" where
  "reads_of [] = []"
| "reads_of (ReadNext _ r # evs) = r # reads_of evs"
| "reads_of (_ # evs) = reads_of evs"

lemma trace_cells [simp]: "trace (w\<lparr>cells := cls\<rparr>) = trace w"
  by simp

lemma trace_send [frame_simps]: "trace (snd (send_quietly rt m c w)) = trace w"
  by (simp add: send_quietly_def case_prod_unfold Let_def)

lemma trace_register [frame_simps]: "trace (register_connection c w) = trace w"
  by (simp add: register_connection_def)

lemma trace_drop_member [frame_simps]: "trace (drop_member cid rid w) = trace w"
  by (simp add: remove_room_if_empty_def leave_if_present_def update_room_def split: option.split)

lemma trace_drop_members [frame_simps]: "trace (fold (drop_member cid) rids w) = trace w"
  by (induction rids arbitrary: w) (simp_all add: frame_simps)

lemma trace_unregister [frame_simps]: "trace (unregister_connection iter cid w) = trace w"
  by (simp add: frame_simps unregister_connection_def Let_def split: option.split)

text \<open>A handler that leaves the trace alone.\<close>

definition quiet ::
  "('t, 'i, 's, ('ch, 'nt, 'e, 'z) traced_scheme) handler \<Rightarrow> bool" where
  "quiet h \<longleftrightarrow> (\<forall>T. handler_contract h (\<lambda>w. trace w = T))"

lemma quiet_calls:
  assumes "quiet h"
  shows "trace (call_state (on_connect h cid p w)) = trace w"
    "trace (call_state (on_message h cid p m w)) = trace w"
    "trace (call_state (on_disconnect h cid p w)) = trace w"
    "trace (call_state (on_error h cid e w)) = trace w"
    "trace (call_state (on_ping h cid d w)) = trace w"
    "trace (call_state (on_pong h cid d w)) = trace w"
proof -
  have c: "handler_contract h (\<lambda>v. trace v = trace w)" using assms by (simp add: quiet_def)
  note k = handler_contract.connect_keeps [OF c] handler_contract.message_keeps [OF c]
    handler_contract.disconnect_keeps [OF c] handler_contract.error_keeps [OF c]
    handler_contract.ping_keeps [OF c] handler_contract.pong_keeps [OF c]
  show "trace (call_state (on_connect h cid p w)) = trace w"
    "trace (call_state (on_message h cid p m w)) = trace w"
    "trace (call_state (on_disconnect h cid p w)) = trace w"
    "trace (call_state (on_error h cid e w)) = trace w"
    "trace (call_state (on_ping h cid d w)) = trace w"
    "trace (call_state (on_pong h cid d w)) = trace w"
    using k by simp_all
qed


lemma frame_trace:
  assumes "quiet h"
  shows "trace (progress_world (on_frame rt (recording h) c p raw s w)) =
    trace w @ callback_of (conn_id c) p (Some (Inr raw))"
proof -
  let ?m = "message_of_raw raw" and ?cid = "conn_id c"
  note q = quiet_calls(2) [OF assms, of ?cid p ?m "note_call (GotMessage ?cid p ?m) w"]
    quiet_calls(5) [OF assms, of ?cid "as_bytes ?m" "note_call (GotPing ?cid (as_bytes ?m)) w"]
    quiet_calls(6) [OF assms, of ?cid "as_bytes ?m" "note_call (GotPong ?cid (as_bytes ?m)) w"]
  show ?thesis
    using q by (auto simp: frame_simps on_frame_def recording_def callback_of_def Let_def split: call.split)
qed

text \<open>
  The results of a read that end the loop, and the events that can: such a read, a heartbeat (missed
  or not sent), the eviction and the idle deadline.
\<close>

definition final_read :: "('t + ('c, 'f) raw_message) option \<Rightarrow> bool" where
  "final_read r \<longleftrightarrow> (case r of Some (Inr raw) \<Rightarrow> raw_is_close raw | _ \<Rightarrow> True)"

definition can_stop :: "('c, 'f, 't, 'w) event \<Rightarrow> bool" where
  "can_stop ev \<longleftrightarrow>
     (case ev of ReadNext _ r \<Rightarrow> final_read r | Elsewhere _ \<Rightarrow> False | _ \<Rightarrow> True)"

lemma reads_of_append: "reads_of (xs @ ys) = reads_of xs @ reads_of ys"
  by (induction xs rule: reads_of.induct) simp_all

definition others_quiet :: "('c, 'f, 't, ('ch, 'nt, 'e, 'z) traced_scheme) event list \<Rightarrow> bool" where
  "others_quiet evs \<longleftrightarrow> (\<forall>f w. Elsewhere f \<in> set evs \<longrightarrow> trace (f w) = trace w)"

lemma read_trace:
  assumes "quiet h" "env_handler env = recording h"
  shows "trace (progress_world (on_read rt (recording h) c p now r s w)) =
    trace w @ callback_of (conn_id c) p r"
proof (cases r)
  case None
  then show ?thesis by (simp add: on_read_def Let_def callback_of_def)
next
  case (Some q)
  show ?thesis
  proof (cases q)
    case (Inl e)
    then show ?thesis
      using Some quiet_calls(4) [OF assms(1), of "conn_id c" "Protocol e"
          "note_call (GotError (conn_id c) (Protocol e)) w"]
      by (auto simp: on_read_def Let_def callback_of_def recording_def split: call.split)
  next
    case (Inr raw)
    then show ?thesis using Some frame_trace [OF assms(1)] by (simp add: on_read_def Let_def)
  qed
qed

lemma frame_continues:
  "case on_frame rt h c p raw s w of
     Looping _ _ \<Rightarrow> \<not> raw_is_close raw | Stopped _ _ \<Rightarrow> raw_is_close raw | Crashed _ \<Rightarrow> True"
  by (simp add: on_frame_def Let_def split: call.split)

lemma read_continues:
  "case on_read rt h c p now r s w of
     Looping _ _ \<Rightarrow> \<not> final_read r | Stopped _ _ \<Rightarrow> final_read r | Crashed _ \<Rightarrow> True"
proof (cases "\<exists>raw. r = Some (Inr raw)")
  case True
  then obtain raw where "r = Some (Inr raw)" by blast
  then show ?thesis
    using frame_continues [where rt = rt and h = h and c = c and p = p and w = w and raw = raw and s = "s\<lparr>last_read := now, missed_heartbeats := 0\<rparr>"]
    by (simp add: on_read_def Let_def final_read_def split: progress.splits)
next
  case False
  then show ?thesis
    by (auto simp: on_read_def Let_def final_read_def split: option.split sum.split call.split)
qed

lemma turn_trace:
  assumes "quiet h" "env_handler env = recording h" "others_quiet [ev]"
  shows "case loop_turn env c p ev s w of
      Looping _ w1 \<Rightarrow> list_all (\<lambda>r. \<not> final_read r) (reads_of [ev]) \<and>
        trace w1 = trace w @ concat (map (callback_of (conn_id c) p) (reads_of [ev]))
    | Stopped _ w1 \<Rightarrow> can_stop ev \<and>
        trace w1 = trace w @ concat (map (callback_of (conn_id c) p) (reads_of [ev]))
    | Crashed _ \<Rightarrow> True"
proof (cases ev)
  case (ReadNext now r)
  then show ?thesis
    using read_continues [where rt = "env_rt env" and h = "recording h" and c = c and p = p and r = r and now = now and s = s and w = w]
      read_trace [OF assms(1,2), where rt = "env_rt env" and c = c and p = p and r = r and now = now and s = s and w = w] assms(2)
    by (auto simp: loop_turn_def can_stop_def split: option.split progress.splits)
next
  case Tick
  then show ?thesis
    by (auto simp: frame_simps loop_turn_def on_tick_def can_stop_def Let_def case_prod_unfold
        split: option.split progress.split)
next
  case (Elsewhere f)
  then show ?thesis using assms(3) by (auto simp: loop_turn_def others_quiet_def split: option.split)
qed (auto simp: loop_turn_def on_evicted_def can_stop_def split: option.split)

lemma loop_trace:
  assumes "quiet h" "env_handler env = recording h"
  shows "others_quiet evs \<Longrightarrow> read_loop env c p evs s w = Stopped b w' \<Longrightarrow>
    \<exists>pre ev post. evs = pre @ ev # post \<and> can_stop ev \<and>
      list_all (\<lambda>r. \<not> final_read r) (reads_of pre) \<and>
      trace w' = trace w @ concat (map (callback_of (conn_id c) p) (reads_of (pre @ [ev])))"
proof (induction evs arbitrary: s w)
  case Nil
  then show ?case by simp
next
  case (Cons ev evs)
  have oq: "others_quiet [ev]" "others_quiet evs" using Cons.prems(1) by (simp_all add: others_quiet_def)
  note turn = turn_trace [OF assms oq(1), where c = c and p = p and s = s and w = w]
  show ?case
  proof (cases "loop_turn env c p ev s w")
    case (Looping s1 w1)
    then obtain pre ev' post where "evs = pre @ ev' # post" "can_stop ev'"
      "list_all (\<lambda>r. \<not> final_read r) (reads_of pre)"
      "trace w' = trace w1 @ concat (map (callback_of (conn_id c) p) (reads_of (pre @ [ev'])))"
      using Cons.IH [OF oq(2), of s1 w1] Cons.prems(2) by auto
    then show ?thesis
      using turn Looping reads_of_append [of "[ev]" pre] reads_of_append [of "[ev]" "pre @ [ev']"]
      by (intro exI [of _ "ev # pre"] exI [of _ ev'] exI [of _ post]) simp
  next
    case (Stopped r w1)
    then show ?thesis
      using turn Cons.prems(2) by (intro exI [of _ "[]"] exI [of _ ev] exI [of _ evs]) simp
  next
    case (Crashed w1)
    then show ?thesis using Cons.prems(2) by simp
  qed
qed

section \<open>A session that ended\<close>

lemma teardown_Ended:
  assumes "teardown env c p drain flushed w = Ended r w'"
  obtains cls u w1 where
    "on_disconnect (env_handler env) (conn_id c) p
       (drain (w\<lparr>cells := connection_close (env_rt env) c (cells w)\<rparr>)\<lparr>cells := cls\<rparr>) = Returns u w1"
    "c_state (cls (conn_cell c)) = Closed" "r = Inr ()"
    "w' = unregister_connection (env_iter env) (conn_id c) w1"
proof -
  let ?v = "drain (w\<lparr>cells := connection_close (env_rt env) c (cells w)\<rparr>)"
  let ?d = "if flushed then cells ?v
    else (cells ?v)(conn_cell c := cell_drop_rx (env_rt env) (cells ?v (conn_cell c)))"
  let ?cls = "connection_set_state Closed c ?d"
  have "teardown env c p drain flushed w =
      (case on_disconnect (env_handler env) (conn_id c) p (?v\<lparr>cells := ?cls\<rparr>) of
         Panics w4 \<Rightarrow> Aborted w4
       | Returns _ w4 \<Rightarrow> Ended (Inr ()) (unregister_connection (env_iter env) (conn_id c) w4))"
    by (simp add: teardown_def teardown_close_def teardown_closed_def teardown_disconnect_def Let_def split: call.split)
  with assms obtain u w1 where
    "on_disconnect (env_handler env) (conn_id c) p (?v\<lparr>cells := ?cls\<rparr>) = Returns u w1"
    "r = Inr ()" "w' = unregister_connection (env_iter env) (conn_id c) w1"
    by (simp split: call.splits)
  moreover have "c_state (?cls (conn_cell c)) = Closed"
    by (simp add: connection_set_state_def cell_set_state_def)
  ultimately show ?thesis by (intro that [of ?cls u w1])
qed

lemma run_session_Ended:
  assumes "run_session env cid addr ref p now evs drain flushed w = Ended r w'"
  obtains c cls u w2 b w3 where
    "c = \<lparr>conn_id = cid, remote_addr = Some addr, conn_principal = p, conn_cell = ref\<rparr>"
    "on_connect (env_handler env) cid p (register_connection c (w\<lparr>cells := cls\<rparr>)) = Returns u w2"
    "read_loop env c p evs \<lparr>missed_heartbeats = 0, last_read = now\<rparr> w2 = Stopped b w3"
    "teardown env c p drain flushed w3 = Ended r w'"
  using assms
  by (auto simp: run_session_def session_register_def session_connected_def session_start_def connection_new_def Let_def split: if_splits call.splits progress.splits)

text \<open>The callbacks of a session that ended.\<close>

lemma session_trace:
  assumes "quiet h" and "env_handler env = recording h" and "others_quiet evs"
    and "\<And>w. trace (drain w) = trace w"
    and "run_session env cid addr ref p now evs drain flushed w = Ended r w'"
  shows "\<exists>pre ev post. evs = pre @ ev # post \<and> can_stop ev \<and>
    list_all (\<lambda>r. \<not> final_read r) (reads_of pre) \<and>
    trace w' = trace w @ [Connected cid p] @
      concat (map (callback_of cid p) (reads_of (pre @ [ev]))) @ [Disconnected cid p]"
proof -
  obtain c cls u w2 b w3 where
    c: "c = \<lparr>conn_id = cid, remote_addr = Some addr, conn_principal = p, conn_cell = ref\<rparr>"
    and w2: "on_connect (env_handler env) cid p (register_connection c (w\<lparr>cells := cls\<rparr>)) = Returns u w2"
    and w3: "read_loop env c p evs \<lparr>missed_heartbeats = 0, last_read = now\<rparr> w2 = Stopped b w3"
    and t: "teardown env c p drain flushed w3 = Ended r w'"
    using assms(5) by (rule run_session_Ended)
  have cid: "conn_id c = cid" by (simp add: c)
  have "trace w2 = trace w @ [Connected cid p]"
    using quiet_calls(1) [OF assms(1), of cid p
        "note_call (Connected cid p) (register_connection c (w\<lparr>cells := cls\<rparr>))"] w2
    by (simp add: frame_simps assms(2) recording_def)
  moreover obtain pre ev post where "evs = pre @ ev # post" "can_stop ev"
    "list_all (\<lambda>r. \<not> final_read r) (reads_of pre)"
    "trace w3 = trace w2 @ concat (map (callback_of cid p) (reads_of (pre @ [ev])))"
    using loop_trace [OF assms(1,2,3) w3] by (auto simp: cid)
  moreover obtain cls' u' w4 where
    w4: "on_disconnect (env_handler env) cid p
       (drain (w3\<lparr>cells := connection_close (env_rt env) c (cells w3)\<rparr>)\<lparr>cells := cls'\<rparr>) = Returns u' w4"
    and w': "w' = unregister_connection (env_iter env) cid w4"
    using t unfolding cid [symmetric] by (rule teardown_Ended)
  have "trace w4 = trace w3 @ [Disconnected cid p]"
    using quiet_calls(3) [OF assms(1), of cid p "note_call (Disconnected cid p)
        (drain (w3\<lparr>cells := connection_close (env_rt env) c (cells w3)\<rparr>)\<lparr>cells := cls'\<rparr>)"] w4
    by (simp add: assms(2) recording_def) (simp add: assms(4))
  moreover have "trace w' = trace w4" by (simp add: w' frame_simps)
  ultimately show ?thesis by (metis append.assoc)
qed

section \<open>Properties\<close>

text \<open>
  C18. The heartbeat counter is exactly the number of heartbeats since the last successful read
  (of any frame), never exceeds three, so its increment cannot overflow, and a session is
  closed for missed heartbeats only on the fourth heartbeat in a row without a read; it cannot
  survive four.
\<close>

theorem heartbeat_counter:
  "case read_loop env c p evs \<lparr>missed_heartbeats = 0, last_read = now\<rparr> w of
     Looping s1 w1 \<Rightarrow>
       unat (missed_heartbeats s1) = ticks_since_read evs \<and> ticks_since_read evs \<le> 3 \<and>
       unat (missed_heartbeats s1 + 1) = unat (missed_heartbeats s1) + 1
   | Stopped r w1 \<Rightarrow> r = MissedHeartbeats \<longrightarrow>
       (\<exists>pre post. evs = pre @ Tick # post \<and> ticks_since_read pre = 3)
   | Crashed w1 \<Rightarrow> True"
proof (cases "read_loop env c p evs \<lparr>missed_heartbeats = 0, last_read = now\<rparr> w")
  case (Looping s1 w1)
  then have le: "missed_heartbeats s1 \<le> 3" and "unat (missed_heartbeats s1) = ticks_since_read evs"
    using read_loop_counter(1) [OF _ Looping] by (simp_all add: ticks_since_read_def)
  moreover have "unat (missed_heartbeats s1) \<le> 3" using le by (simp add: word_le_nat_alt)
  ultimately show ?thesis using Looping by (simp add: unat_word_ariths)
next
  case (Stopped r w1)
  then show ?thesis
    using read_loop_counter(2) [of "\<lparr>missed_heartbeats = 0, last_read = now\<rparr>" env c p evs w w1]
    by (auto simp: ticks_since_read_def)
qed simp


text \<open>An environment with the default configuration, for the witnesses.\<close>

definition sample_env ::
  "('t, 'i, 's, 'w) handler \<Rightarrow> (fifo, bool, 't, 'i, 's, 'w) session_env" where
  "sample_env h =
     \<lparr>env_rt = fifo_runtime,
      env_time = \<lparr>interval_ok = (\<lambda>d. 0 < d), add_instant = (\<lambda>t d. Some (t + d))\<rparr>,
      env_channel_ok = (\<lambda>n. 0 < n), env_iter = by_id, env_config = server_config_default,
      env_handler = h\<rparr>"

definition quiet_handler :: "('t, 'i, 's, 'w) handler" where
  "quiet_handler = logging_handler (\<lambda>_ w. w)"

definition roomy_world :: "(fifo, bool) world" where
  "roomy_world = world_new (\<lambda>_. cell_new fifo_runtime (fifo_new 1024))"

lemma handler_evals:
  "on_connect quiet_handler cid p w = Returns () w" "on_message quiet_handler cid p m w = Returns () w"
  "on_disconnect quiet_handler cid p w = Returns () w" "on_error quiet_handler cid e w = Returns () w"
  "on_ping quiet_handler cid d w = Returns d w" "on_pong quiet_handler cid d w = Returns () w"
  by (simp_all add: quiet_handler_def logging_handler_def default_on_error_def default_on_ping_def
      default_on_pong_def)

lemma quiet_quiet_handler: "quiet quiet_handler"
  unfolding quiet_def quiet_handler_def by (intro allI logging_handler_contract) simp_all

lemmas turn_evals = loop_turn_def on_tick_def on_evicted_def on_read_def on_frame_def send_quietly_def
  connection_send_def connection_evicted_def cell_send_def cell_is_open_def cell_evicted_def
  max_missed_heartbeats_def sample_env_def Let_def

theorem heartbeat_counter_witness:
  "(\<exists>w1. read_loop (sample_env (quiet_handler :: (unit, unit, unit, _) handler)) sample_connection
      principal_anonymous ([Tick, Tick, Tick, Tick] :: (unit, unit, unit, _) event list)
      \<lparr>missed_heartbeats = 0, last_read = 0\<rparr> roomy_world = Stopped MissedHeartbeats w1) \<and>
   (\<exists>pre post. ([Tick, Tick, Tick, Tick] :: (unit, unit, unit, (fifo, bool) world) event list) =
      pre @ Tick # post \<and> ticks_since_read pre = 3)"
proof -
  let ?evs = "[Tick, Tick, Tick, Tick] :: (unit, unit, unit, (fifo, bool) world) event list"
  let ?env = "sample_env (quiet_handler :: (unit, unit, unit, _) handler)"
  have "\<exists>w1. read_loop ?env sample_connection principal_anonymous ?evs
      \<lparr>missed_heartbeats = 0, last_read = 0\<rparr> roomy_world = Stopped MissedHeartbeats w1"
    by (simp add: turn_evals roomy_world_def world_new_def cell_new_def fifo_defs sample_connection_def)
  moreover from this obtain w1 where "read_loop ?env sample_connection principal_anonymous ?evs
      \<lparr>missed_heartbeats = 0, last_read = 0\<rparr> roomy_world = Stopped MissedHeartbeats w1" by blast
  ultimately show ?thesis
    using heartbeat_counter [where env = ?env and c = sample_connection and p = principal_anonymous
        and evs = ?evs and now = 0 and w = roomy_world] by simp
qed

definition sample_addr :: socket_addr where
  "sample_addr = V4 (127, 0, 0, 1) 5000"

definition sample_reads :: "(unit, unit, unit, 'w) event list" where
  "sample_reads = [ReadNext 1 (Some (Inr (RawText ''hi''))), Tick, ReadNext 2 None]"

lemmas session_evals = run_session_def session_register_def session_connected_def session_start_def teardown_def teardown_close_def
  teardown_closed_def teardown_disconnect_def connection_new_def connection_close_def
  connection_set_state_def cell_close_def cell_set_state_def cell_new_def
  register_connection_def turn_evals fifo_defs server_config_default_def seconds_def

text \<open>
  A session that ended leaves nothing behind in the room manager: if the handler and the other
  tasks keep the manager's invariant, its connection is in no room and no longer registered,
  however the read loop ended and whether or not the writer could flush; a connection refused
  in the handshake never touched the manager.
\<close>

theorem session_cleans_up:
  assumes "handler_contract (env_handler env) manager_ok" and "iterates (env_iter env)"
    and "others_keep manager_ok evs" and "\<And>w. manager_ok w \<Longrightarrow> manager_ok (drain w)"
    and "manager_ok w" and "cid \<notin> dom (connections w)"
    and "\<And>d. d \<in> dom (connections w) \<Longrightarrow> conn_cell (the (connections w d)) \<noteq> ref"
    and "handle_connection api accept is_http wca auth env stream addr cid ref now evs drain flushed w
      = Ended r w'"
  shows "manager_ok w' \<and> connections w' cid = None \<and> connection_rooms w' cid = None \<and>
    (\<forall>rid. cid \<notin> members_of w' rid) \<and> (\<not> is_ok r \<longrightarrow> w' = w)"
proof -
  have gone: "connections w' cid = None \<and> connection_rooms w' cid = None \<and> (\<forall>rid. cid \<notin> members_of w' rid)"
    if "manager_ok w'" "cid \<notin> dom (connections w')"
    using that members_registered(1) [OF that(1)] manager_okD(2) [OF that(1)] by (metis domIff subsetD)
  show ?thesis
  proof (cases "w' = w")
    case True
    then show ?thesis using gone assms(5,6) by simp
  next
    case False
    obtain ws p where "run_session env cid addr ref p now evs drain flushed w = Ended r w'"
      using assms(8) False
      by (auto simp: handle_connection_def split: sum.splits option.splits prod.splits)
    then obtain c cls u w2 b w3 where
      c: "c = \<lparr>conn_id = cid, remote_addr = Some addr, conn_principal = p, conn_cell = ref\<rparr>"
      and w2: "on_connect (env_handler env) cid p (register_connection c (w\<lparr>cells := cls\<rparr>)) = Returns u w2"
      and w3: "read_loop env c p evs \<lparr>missed_heartbeats = 0, last_read = now\<rparr> w2 = Stopped b w3"
      and t: "teardown env c p drain flushed w3 = Ended r w'"
      by (rule run_session_Ended)
    have cid: "conn_id c = cid" by (simp add: c)
    have "manager_legal (Register c) (w\<lparr>cells := cls\<rparr>)" using assms(6,7) by (simp add: c)
    then have "manager_ok (register_connection c (w\<lparr>cells := cls\<rparr>))"
      using register_refines [of "w\<lparr>cells := cls\<rparr>" c] assms(5) by simp
    then have "manager_ok w2"
      using handler_contract.connect_keeps [OF assms(1)] w2 by (metis call_state_simps(2))
    then have "manager_ok w3"
      using handler_contract.loop_keeps [OF assms(1) refl _ assms(3)] w3 by (metis progress_world_simps(2))
    moreover obtain cls' u' w4 where
      w4: "on_disconnect (env_handler env) cid p
         (drain (w3\<lparr>cells := connection_close (env_rt env) c (cells w3)\<rparr>)\<lparr>cells := cls'\<rparr>) = Returns u' w4"
      and r: "r = Inr ()" and w': "w' = unregister_connection (env_iter env) cid w4"
      using t unfolding cid [symmetric] by (rule teardown_Ended)
    ultimately have "manager_ok w4"
      using handler_contract.disconnect_keeps [OF assms(1)] assms(4) w4
      by (metis call_state_simps(2) manager_ok_cells)
    then have "manager_ok w' \<and> connections w' cid = None"
      using unregister_refines [OF _ assms(2), of w4 cid] w' by (auto simp: unregister_connection_def Let_def)
    then show ?thesis using gone r by auto
  qed
qed


theorem session_cleans_up_witness:
  "\<exists>w'. handle_connection sample_http plain_accept (\<lambda>e. e \<noteq> None) sample_wc AllowAnonymous
      (sample_env (quiet_handler :: (http_response option, unit, unit, (fifo, bool) world) handler))
      (Some []) sample_addr ''c'' 7 0
      ([ReadNext 1 (Some (Inr (RawPing [1]))), ReadNext 2 None]
        :: (unit, unit, http_response option, (fifo, bool) world) event list)
      (\<lambda>w. w) True sample_world = Ended (Inr ()) w' \<and>
    connections w' ''c'' = None \<and> (\<forall>rid. ''c'' \<notin> members_of w' rid)"
proof -
  let ?env = "sample_env (quiet_handler :: (http_response option, unit, unit, (fifo, bool) world) handler)"
  let ?evs = "[ReadNext 1 (Some (Inr (RawPing [1]))), ReadNext 2 None]
        :: (unit, unit, http_response option, (fifo, bool) world) event list"
  let ?r = "handle_connection sample_http plain_accept (\<lambda>e. e \<noteq> None) sample_wc AllowAnonymous ?env
      (Some []) sample_addr ''c'' 7 0 ?evs (\<lambda>w. w) True sample_world"
  have "handshake sample_http plain_accept (\<lambda>e. e \<noteq> None) sample_wc (Some []) AllowAnonymous
      server_config_default = (Inr (Some ([], principal_anonymous))
        :: (http_response option, unit, unit, (string list \<times> principal) option) ws_result)"
    by (simp add: handshake_def plain_accept_def handshake_callback_def admit_no_origin sample_http_def)
  then have "\<exists>w'. ?r = Ended (Inr ()) w'"
    by (simp add: handle_connection_def session_evals handler_evals)
  then obtain w' where w': "?r = Ended (Inr ()) w'" by blast
  have h: "handler_contract (env_handler ?env) manager_ok"
    by (simp add: sample_env_def quiet_handler_def logging.handler_contract_axioms)
  have it: "iterates (env_iter ?env)" by (simp add: sample_env_def iterates_by_id)
  have ok: "others_keep manager_ok ?evs" by (simp add: others_keep_def)
  have refs: "conn_cell (the (connections sample_world d)) \<noteq> 7" if "d \<in> dom (connections sample_world)" for d
  proof -
    have "connections sample_world = [''a'' \<mapsto> sample_handle ''a'' 0, ''b'' \<mapsto> sample_handle ''b'' 1]"
      by (simp add: sample_world_def sample_manager_ops_def register_connection_def world_new_def
          join_room_def sample_handle_def case_prod_unfold Let_def)
    then show ?thesis using that by (auto simp: sample_handle_def)
  qed
  show ?thesis
    using session_cleans_up [OF h it ok _ sample_world_ok _ refs w'] w' by (simp add: sample_world_views)
qed

end
