(* ===== verification/Ws_Session_Time.thy ===== *)
theory Ws_Session_Time imports Ws_Session_Props begin

text \<open>
  When the branches of the read loop can be taken.  A schedule gives each event the instant it
  happens at, and \<open>timed_loop\<close> runs the loop of \<open>handle_connection\<close> over it as long as each event is
  one that the code and tokio's documentation allow at that instant: time does not go back, a
  heartbeat fires at the ticker's next instant or later, after which the next instant is one period
  on (the default \<open>Burst\<close> behaviour of an interval), the idle deadline is the one the turn computed
  from \<open>last_read\<close>, an eviction needs the permit, and a read is stamped with its instant.
\<close>

type_synonym ('c, 'f, 't, 'w) schedule = "(instant \<times> ('c, 'f, 't, 'w) event) list"

definition enabled ::
  "('ch, 'nt, 't, 'i, 's, ('ch, 'nt, 'z) world_scheme) session_env \<Rightarrow> connection \<Rightarrow> instant
     \<Rightarrow> session \<Rightarrow> ('ch, 'nt, 'z) world_scheme \<Rightarrow> instant
     \<Rightarrow> ('c, 'f, 't, ('ch, 'nt, 'z) world_scheme) event \<Rightarrow> bool" where
  "enabled env c next_tick s w t ev \<longleftrightarrow>
     (case ev of
        Tick \<Rightarrow> next_tick \<le> t
      | Evicted \<Rightarrow> connection_evicted (env_rt env) c (cells w) \<noteq> None
      | IdleElapsed \<Rightarrow>
          (case add_instant (env_time env) (last_read s) (connection_timeout (env_config env)) of
             None \<Rightarrow> False
           | Some idle_deadline \<Rightarrow> idle_deadline \<le> t)
      | ReadNext now _ \<Rightarrow> now = t
      | Elsewhere _ \<Rightarrow> True)"

definition tick_after :: "duration \<Rightarrow> ('c, 'f, 't, 'w) event \<Rightarrow> instant \<Rightarrow> instant" where
  "tick_after I ev next_tick = (case ev of Tick \<Rightarrow> next_tick + I | _ \<Rightarrow> next_tick)"

fun timed_loop ::
  "('ch, 'nt, 't, 'i, 's, ('ch, 'nt, 'z) world_scheme) session_env \<Rightarrow> connection \<Rightarrow> principal
     \<Rightarrow> instant \<Rightarrow> instant \<Rightarrow> ('c, 'f, 't, ('ch, 'nt, 'z) world_scheme) schedule
     \<Rightarrow> session \<Rightarrow> ('ch, 'nt, 'z) world_scheme \<Rightarrow> ('ch, 'nt, 'z) world_scheme progress option" where
  "timed_loop env c p next_tick now [] s w = Some (Looping s w)"
| "timed_loop env c p next_tick now ((t, ev) # sched) s w =
     (if \<not> (now \<le> t \<and> enabled env c next_tick s w t ev) then None
      else
        (case loop_turn env c p ev s w of
           Looping s1 w1 \<Rightarrow>
             timed_loop env c p (tick_after (heartbeat_interval (env_config env)) ev next_tick) t sched s1 w1
         | st \<Rightarrow> Some st))"

text \<open>A session from its start, when the first tick of the interval has been consumed.\<close>

definition timed_session ::
  "('ch, 'nt, 't, 'i, 's, ('ch, 'nt, 'z) world_scheme) session_env \<Rightarrow> connection \<Rightarrow> principal
     \<Rightarrow> instant \<Rightarrow> ('c, 'f, 't, ('ch, 'nt, 'z) world_scheme) schedule
     \<Rightarrow> ('ch, 'nt, 'z) world_scheme \<Rightarrow> ('ch, 'nt, 'z) world_scheme progress option" where
  "timed_session env c p start sched w =
     timed_loop env c p (start + heartbeat_interval (env_config env)) start sched
       \<lparr>missed_heartbeats = 0, last_read = start\<rparr> w"

text \<open>A timed run is a run of the loop.\<close>

lemma timed_loop_read_loop:
  "timed_loop env c p next_tick now sched s w = Some st \<Longrightarrow> read_loop env c p (map snd sched) s w = st"
  by (induction env c p next_tick now sched s w rule: timed_loop.induct)
    (auto split: if_splits progress.splits)

lemma timed_loop_cons:
  assumes "timed_loop env c p next_tick now ((t, ev) # sched) s w = Some st"
  shows "now \<le> t" "enabled env c next_tick s w t ev"
    and "(\<exists>s1 w1. loop_turn env c p ev s w = Looping s1 w1 \<and>
        timed_loop env c p (tick_after (heartbeat_interval (env_config env)) ev next_tick) t sched s1 w1 = Some st)
      \<or> loop_turn env c p ev s w = st"
  using assms by (auto split: if_splits progress.splits)

lemma loop_turn_idle:
  "loop_turn env c p ev s w = Stopped IdleTimeout w1 \<Longrightarrow> ev = IdleElapsed"
  by (auto simp: loop_turn_def on_tick_def on_evicted_def on_read_def on_frame_def Let_def
      case_prod_unfold split: option.splits event.splits sum.splits if_splits call.splits)

text \<open>Only a read moves the instant of the last read.\<close>

lemma loop_turn_last_read:
  "loop_turn env c p ev s w = Looping s1 w1 \<Longrightarrow>
     last_read s1 = (case ev of ReadNext now _ \<Rightarrow> now | _ \<Rightarrow> last_read s)"
  by (auto simp: loop_turn_def on_tick_def on_evicted_def on_read_def on_frame_def Let_def
      case_prod_unfold split: option.splits event.splits sum.splits if_splits call.splits)

definition sums_instants :: "time_api \<Rightarrow> bool" where
  "sums_instants api \<longleftrightarrow> (\<forall>t d u. add_instant api t d = Some u \<longrightarrow> u = t + d)"

lemma idle_run:
  assumes "sums_instants (env_time env)"
    and "timed_loop env c p next_tick now sched s w = Some (Stopped IdleTimeout w1)"
    and "last_read s \<le> now"
  shows "\<exists>pre t post. sched = pre @ (t, IdleElapsed) # post \<and>
    last_read s + connection_timeout (env_config env) \<le> t \<and>
    (\<forall>u r x. (u, ReadNext r x) \<in> set pre \<longrightarrow> u + connection_timeout (env_config env) \<le> t)"
  using assms(2,3)
proof (induction sched arbitrary: s w next_tick now)
  case Nil
  then show ?case by simp
next
  case (Cons te sched)
  let ?T = "connection_timeout (env_config env)"
  obtain t ev where te: "te = (t, ev)" by (cases te)
  note cons = timed_loop_cons [OF Cons.prems(1) [unfolded te]]
  from cons(3) show ?case
  proof
    assume "loop_turn env c p ev s w = Stopped IdleTimeout w1"
    then have "ev = IdleElapsed" by (rule loop_turn_idle)
    moreover have "last_read s + ?T \<le> t"
      using cons(2) assms(1) calculation by (auto simp: enabled_def sums_instants_def split: option.splits)
    ultimately show ?thesis using te by (intro exI [of _ "[]"] exI [of _ t] exI [of _ sched]) simp
  next
    assume "\<exists>s1 w1'. loop_turn env c p ev s w = Looping s1 w1' \<and>
        timed_loop env c p (tick_after (heartbeat_interval (env_config env)) ev next_tick) t sched s1 w1'
          = Some (Stopped IdleTimeout w1)"
    then obtain s1 w1' where turn: "loop_turn env c p ev s w = Looping s1 w1'"
      and rest: "timed_loop env c p (tick_after (heartbeat_interval (env_config env)) ev next_tick) t sched s1 w1'
          = Some (Stopped IdleTimeout w1)" by blast
    have now: "now \<le> t" and read: "\<And>r x. ev = ReadNext r x \<Longrightarrow> r = t"
      using cons(1,2) by (auto simp: enabled_def)
    have last: "last_read s1 = (case ev of ReadNext r _ \<Rightarrow> r | _ \<Rightarrow> last_read s)"
      using turn by (rule loop_turn_last_read)
    then have le: "last_read s1 \<le> t" "last_read s \<le> last_read s1"
      using read now Cons.prems(2) by (auto split: event.splits)
    from Cons.IH [OF rest le(1)] obtain pre u post where "sched = pre @ (u, IdleElapsed) # post"
      "last_read s1 + ?T \<le> u" "\<And>v r x. (v, ReadNext r x) \<in> set pre \<Longrightarrow> v + ?T \<le> u" by blast
    then show ?thesis using te read le(2) last
      by (intro exI [of _ "te # pre"] exI [of _ u] exI [of _ post]) auto
  qed
qed

text \<open>The number of heartbeats.\<close>

fun ticks :: "('c, 'f, 't, 'w) event list \<Rightarrow> nat" where
  "ticks [] = 0"
| "ticks (Tick # evs) = Suc (ticks evs)"
| "ticks (_ # evs) = ticks evs"

lemma count_le_ticks: "fold count_missed evs k \<le> k + ticks evs"
proof (induction evs arbitrary: k)
  case Nil
  show ?case by simp
next
  case (Cons ev evs)
  show ?case
  proof (cases ev)
    case Tick
    then show ?thesis using Cons [of "Suc k"] by simp
  next
    case (ReadNext r x)
    have "count_missed ev k \<le> k"
      unfolding ReadNext by (cases x) (auto split: sum.split option.split,
        metis count_missed.simps(2,6) order_refl sum.exhaust zero_le)
    moreover have "fold count_missed evs (count_missed ev k) \<le> count_missed ev k + ticks evs"
      by (rule Cons)
    ultimately show ?thesis using ReadNext by simp
  qed (use Cons in simp_all)
qed

lemma missed_run:
  assumes "timed_loop env c p next_tick now sched s w = Some (Stopped MissedHeartbeats w1)"
    and "missed_heartbeats s \<le> 3"
  shows "\<exists>pre t post. sched = pre @ (t, Tick) # post \<and>
    fold count_missed (map snd pre) (unat (missed_heartbeats s)) = 3 \<and>
    next_tick + heartbeat_interval (env_config env) * ticks (map snd pre) \<le> t"
  using assms
proof (induction sched arbitrary: s w next_tick now)
  case Nil
  then show ?case by simp
next
  case (Cons te sched)
  let ?I = "heartbeat_interval (env_config env)"
  obtain t ev where te: "te = (t, ev)" by (cases te)
  note cons = timed_loop_cons [OF Cons.prems(1) [unfolded te]]
  from cons(3) show ?case
  proof
    assume "loop_turn env c p ev s w = Stopped MissedHeartbeats w1"
    then have "ev = Tick" "unat (missed_heartbeats s) = 3"
      using loop_turn_missed Cons.prems(2) by blast+
    then show ?thesis
      using te cons(2) by (intro exI [of _ "[]"] exI [of _ t] exI [of _ sched]) (simp add: enabled_def)
  next
    assume "\<exists>s1 w1'. loop_turn env c p ev s w = Looping s1 w1' \<and>
        timed_loop env c p (tick_after ?I ev next_tick) t sched s1 w1' = Some (Stopped MissedHeartbeats w1)"
    then obtain s1 w1' where turn: "loop_turn env c p ev s w = Looping s1 w1'"
      and rest: "timed_loop env c p (tick_after ?I ev next_tick) t sched s1 w1'
          = Some (Stopped MissedHeartbeats w1)" by blast
    note count = loop_turn_counter [OF Cons.prems(2) turn]
    from Cons.IH [OF rest] count obtain pre u post where "sched = pre @ (u, Tick) # post"
      "fold count_missed (map snd pre) (count_missed ev (unat (missed_heartbeats s))) = 3"
      "tick_after ?I ev next_tick + ?I * ticks (map snd pre) \<le> u" by auto
    moreover from this(3) have "next_tick + ?I * ticks (map snd (te # pre)) \<le> u"
      using te by (cases ev) (auto simp: tick_after_def)
    ultimately show ?thesis using te
      by (intro exI [of _ "te # pre"] exI [of _ u] exI [of _ post]) simp
  qed
qed

text \<open>
  A schedule that is prompt: once a branch of \<open>select!\<close> is ready the task takes a turn, any ready
  branch's turn, at most \<open>late\<close> after the branch became ready and the task's last turn, at \<open>free\<close>,
  whichever was later; \<open>late\<close> is how long the task may be busy with that turn and its callback and
  then wait for the processor.  The steps of other tasks are not turns of this one.  What a turn does,
  and that there are only so many of them, is left to the code.
\<close>

definition task_turn :: "('c, 'f, 't, 'w) event \<Rightarrow> instant \<Rightarrow> instant \<Rightarrow> instant" where
  "task_turn ev t free = (case ev of Elsewhere _ \<Rightarrow> free | _ \<Rightarrow> t)"

fun prompt ::
  "('ch, 'nt, 't, 'i, 's, ('ch, 'nt, 'z) world_scheme) session_env \<Rightarrow> connection \<Rightarrow> principal
     \<Rightarrow> duration \<Rightarrow> instant \<Rightarrow> instant \<Rightarrow> ('c, 'f, 't, ('ch, 'nt, 'z) world_scheme) schedule
     \<Rightarrow> session \<Rightarrow> ('ch, 'nt, 'z) world_scheme \<Rightarrow> bool" where
  "prompt env c p late free next_tick [] s w = True"
| "prompt env c p late free next_tick ((t, ev) # sched) s w =
     (t \<le> max free next_tick + late \<and>
      (case add_instant (env_time env) (last_read s) (connection_timeout (env_config env)) of
         None \<Rightarrow> True
       | Some idle_deadline \<Rightarrow> t \<le> max free idle_deadline + late) \<and>
      (case loop_turn env c p ev s w of
         Looping s1 w1 \<Rightarrow>
           prompt env c p late (task_turn ev t free)
             (tick_after (heartbeat_interval (env_config env)) ev next_tick) sched s1 w1
       | _ \<Rightarrow> True))"

text \<open>The ticker is at most one interval ahead, and counts the missed heartbeats since the last read.\<close>

definition ticker_ok :: "duration \<Rightarrow> instant \<Rightarrow> instant \<Rightarrow> session \<Rightarrow> bool" where
  "ticker_ok I next_tick now s \<longleftrightarrow>
     missed_heartbeats s \<le> 3 \<and> last_read s \<le> now \<and> next_tick \<le> now + I \<and>
     next_tick \<le> last_read s + (unat (missed_heartbeats s) + 1) * I"

lemma ticker_ok_turn:
  assumes "ticker_ok (heartbeat_interval (env_config env)) next_tick now s"
    and "now \<le> t" "enabled env c next_tick s w t ev" "loop_turn env c p ev s w = Looping s1 w1"
  shows "ticker_ok (heartbeat_interval (env_config env))
    (tick_after (heartbeat_interval (env_config env)) ev next_tick) t s1"
proof -
  let ?I = "heartbeat_interval (env_config env)" and ?m = "unat (missed_heartbeats s)"
  have old: "last_read s \<le> now" "next_tick \<le> now + ?I" "next_tick \<le> last_read s + (?m + 1) * ?I"
    and "missed_heartbeats s \<le> 3"
    using assms(1) by (simp_all add: ticker_ok_def)
  then have count: "missed_heartbeats s1 \<le> 3" "unat (missed_heartbeats s1) = count_missed ev ?m"
    using loop_turn_counter [OF _ assms(4)] by simp_all
  have last: "last_read s1 = (case ev of ReadNext now _ \<Rightarrow> now | _ \<Rightarrow> last_read s)"
    using assms(4) by (rule loop_turn_last_read)
  show ?thesis
  proof (cases ev)
    case (ReadNext r x)
    then have "r = t" using assms(3) by (simp add: enabled_def)
    moreover have "count_missed ev ?m = 0 \<or> count_missed ev ?m = ?m"
      unfolding ReadNext by (cases x) (auto split: sum.split option.split, metis count_missed.simps(2,6) sum.exhaust)
    ultimately show ?thesis
      using ReadNext last count old assms(2) by (auto simp: ticker_ok_def tick_after_def)
  qed (use last count old assms(2,3) in \<open>auto simp: ticker_ok_def tick_after_def enabled_def\<close>)
qed

text \<open>The loop goes on after a heartbeat, a read or another task's step, never after the idle deadline.\<close>

lemma loop_turn_free:
  assumes "loop_turn env c p ev s w = Looping s1 w1" and "enabled env c next_tick s w t ev"
  obtains "ev = Tick" | now raw where "ev = ReadNext now (Some (Inr raw))" | f where "ev = Elsewhere f"
proof (cases ev)
  case (ReadNext now x)
  moreover obtain raw where "x = Some (Inr raw)"
    using assms(1) unfolding ReadNext loop_turn_def on_read_def
    by (cases x) (auto simp: Let_def split: option.splits sum.splits call.splits)
  ultimately show ?thesis using that(2) by blast
qed (use assms that in \<open>auto simp: loop_turn_def on_evicted_def enabled_def split: option.splits\<close>)

text \<open>
  After \<open>m\<close> heartbeats without a read the task's last turn was within \<open>m\<close> intervals of the last read,
  and within the connection timeout, but for \<open>m\<close> delays.
\<close>

definition turn_bound :: "duration \<Rightarrow> duration \<Rightarrow> duration \<Rightarrow> nat \<Rightarrow> duration" where
  "turn_bound I T late m = min (m * I) T + m * late"

lemma turn_bound_mono: "m \<le> n \<Longrightarrow> turn_bound I T late m \<le> turn_bound I T late n"
  unfolding turn_bound_def by (intro add_mono min.mono mult_le_mono1 order_refl)

lemma next_turn_bound:
  assumes "free \<le> r + turn_bound I T late m" and "next_tick \<le> r + (m + 1) * I"
    and "t \<le> max free next_tick + late" and "t \<le> max free (r + T) + late"
  shows "t \<le> r + turn_bound I T late (Suc m)"
proof -
  have "m * I \<le> (m + 1) * I" "Suc m * late = m * late + late" by simp_all
  then have "t \<le> r + (m + 1) * I + Suc m * late" "t \<le> r + T + Suc m * late"
    using assms unfolding turn_bound_def by linarith+
  then show ?thesis by (simp add: turn_bound_def min_def)
qed

lemma prompt_run:
  assumes "sums_instants (env_time env)" and "\<And>u d. add_instant (env_time env) u d \<noteq> None"
    and "timed_loop env c p next_tick now sched s w = Some (Looping s1 w1)"
    and "prompt env c p late free next_tick sched s w"
    and "ticker_ok (heartbeat_interval (env_config env)) next_tick now s"
    and "free \<le> last_read s + turn_bound (heartbeat_interval (env_config env))
      (connection_timeout (env_config env)) late (unat (missed_heartbeats s))"
    and "now \<le> last_read s + turn_bound (heartbeat_interval (env_config env))
      (connection_timeout (env_config env)) late 4"
  shows "last (now # map fst sched) \<le> last_read s1 + turn_bound (heartbeat_interval (env_config env))
      (connection_timeout (env_config env)) late 4 \<and>
    (last_read s1 = last_read s \<or> (\<exists>x. (last_read s1, ReadNext (last_read s1) x) \<in> set sched))"
  using assms(3-7)
proof (induction sched arbitrary: s w free next_tick now)
  case Nil
  then show ?case by simp
next
  case (Cons te sched)
  let ?I = "heartbeat_interval (env_config env)" and ?T = "connection_timeout (env_config env)"
  let ?m = "unat (missed_heartbeats s)"
  obtain t ev where te: "te = (t, ev)" by (cases te)
  obtain d where d: "add_instant (env_time env) (last_read s) ?T = Some d" "d = last_read s + ?T"
    using assms(1,2) unfolding sums_instants_def by blast
  obtain s2 w2 where turn: "loop_turn env c p ev s w = Looping s2 w2"
    and rest: "timed_loop env c p (tick_after ?I ev next_tick) t sched s2 w2 = Some (Looping s1 w1)"
    using Cons.prems(1) by (auto simp: te split: if_splits progress.splits)
  have en: "now \<le> t" "enabled env c next_tick s w t ev"
    using timed_loop_cons [OF Cons.prems(1) [unfolded te]] by simp_all
  have late: "t \<le> max free next_tick + late" "t \<le> max free (last_read s + ?T) + late"
    "prompt env c p late (task_turn ev t free) (tick_after ?I ev next_tick) sched s2 w2"
    using Cons.prems(2) by (simp_all add: te turn d)
  have ticker: "missed_heartbeats s \<le> 3" "next_tick \<le> last_read s + (?m + 1) * ?I"
    using Cons.prems(3) by (simp_all only: ticker_ok_def)
  have t: "t \<le> last_read s + turn_bound ?I ?T late (Suc ?m)"
    by (rule next_turn_bound [OF Cons.prems(4) ticker(2) late(1,2)])
  have count: "unat (missed_heartbeats s2) = count_missed ev ?m"
    using loop_turn_counter [OF ticker(1) turn] by simp
  have last: "last_read s2 = (case ev of ReadNext now _ \<Rightarrow> now | _ \<Rightarrow> last_read s)"
    using turn by (rule loop_turn_last_read)
  then have read: "last_read s2 = last_read s \<or> (\<exists>x. te = (last_read s2, ReadNext (last_read s2) x)) \<and> last_read s2 = t"
    using en(2) by (auto simp: te enabled_def split: event.splits)
  have "Suc ?m \<le> 4" using ticker(1) by (simp add: word_le_nat_alt)
  then have "t \<le> last_read s + turn_bound ?I ?T late 4"
    using t turn_bound_mono [of "Suc ?m" 4 ?I ?T late] by linarith
  then have now: "t \<le> last_read s2 + turn_bound ?I ?T late 4" using read by auto
  have "task_turn ev t free \<le> last_read s2 + turn_bound ?I ?T late (unat (missed_heartbeats s2))"
    using turn en(2)
  proof (rule loop_turn_free)
    fix r raw assume ev: "ev = ReadNext r (Some (Inr raw))"
    then have "r = t" using en(2) by (simp add: enabled_def)
    then show ?thesis using ev last by (simp add: task_turn_def)
  qed (use last count t Cons.prems(4) in \<open>auto simp: task_turn_def\<close>)
  from Cons.IH [OF rest late(3) ticker_ok_turn [OF Cons.prems(3) en turn] this now] read
  show ?case by (auto simp: te)
qed

text \<open>A heartbeat counts one more, fails to be sent, or is the one too many.\<close>

lemma tick_turn:
  assumes "add_instant (env_time env) (last_read s) (connection_timeout (env_config env)) \<noteq> None"
    and "missed_heartbeats s \<le> 3"
  obtains w1 where "missed_heartbeats s \<noteq> 3"
      "loop_turn env c p Tick s w = Looping (s\<lparr>missed_heartbeats := missed_heartbeats s + 1\<rparr>) w1"
  | w1 where "missed_heartbeats s \<noteq> 3" "loop_turn env c p Tick s w = Stopped PingFailed w1"
  | "missed_heartbeats s = 3" "loop_turn env c p Tick s w = Stopped MissedHeartbeats w"
proof -
  have "unat (missed_heartbeats s) \<le> 3" using assms(2) by (simp add: word_le_nat_alt)
  then have "unat (missed_heartbeats s + 1) = unat (missed_heartbeats s) + 1" by (simp add: unat_word_ariths)
  then have too_many: "3 < missed_heartbeats s + 1 \<longleftrightarrow> missed_heartbeats s = 3"
    using \<open>unat (missed_heartbeats s) \<le> 3\<close> by (auto simp: word_less_nat_alt intro: word_unat_eq_iff [THEN iffD2])
  obtain ok w1 where send: "send_quietly (env_rt env) (ping_msg []) c w = (ok, w1)" by fastforce
  show ?thesis
    using assms(1) too_many send that
    by (cases ok) (auto simp: loop_turn_def on_tick_def max_missed_heartbeats_def Let_def)
qed

text \<open>Overdue heartbeats end a session at once.\<close>

lemma overdue_ticks:
  fixes env :: "('ch, 'nt, 't, 'i, 's, ('ch, 'nt, 'z) world_scheme) session_env"
  assumes "\<And>u d. add_instant (env_time env) u d \<noteq> None"
    and "k \<le> 3" "nt + (3 - k) * heartbeat_interval (env_config env) \<le> t"
  shows "\<exists>r w1. timed_loop env c p nt t (replicate (Suc (3 - k)) (t, Tick :: ('c, 'f, 't, ('ch, 'nt, 'z) world_scheme) event))
      \<lparr>missed_heartbeats = of_nat k, last_read = t\<rparr> w = Some (Stopped r w1) \<and> r \<in> {MissedHeartbeats, PingFailed}"
  using assms(2,3)
proof (induction "3 - k" arbitrary: k nt w)
  case 0
  let ?tick = "Tick :: ('c, 'f, 't, ('ch, 'nt, 'z) world_scheme) event"
  from 0 have "k = 3" by simp
  moreover have "loop_turn env c p ?tick \<lparr>missed_heartbeats = 3, last_read = t\<rparr> w = Stopped MissedHeartbeats w"
    by (rule tick_turn [where env = env and s = "\<lparr>missed_heartbeats = 3, last_read = t\<rparr>" and c = c and p = p
        and w = w]) (simp_all add: assms(1))
  ultimately show ?case using 0 by (simp add: enabled_def)
next
  case (Suc j)
  let ?tick = "Tick :: ('c, 'f, 't, ('ch, 'nt, 'z) world_scheme) event"
  let ?I = "heartbeat_interval (env_config env)"
  have k: "k < 3" "3 - Suc k = j" "Suc j = 3 - k" using Suc.hyps(2) by auto
  have again: "Suc (3 - Suc k) = 3 - k" using k(1) by simp
  have "unat (of_nat k :: u32) = k" using k(1) by (simp add: unat_of_nat)
  then have le: "(of_nat k :: u32) \<le> 3" "(of_nat k :: u32) \<noteq> 3"
    using k(1) by (auto simp: word_le_nat_alt)
  have en: "enabled env c nt s' w' t ?tick" for s' w'
    using Suc.prems(2) by (simp add: enabled_def)
  have nxt: "nt + ?I + j * ?I \<le> t" using Suc.prems(2) by (simp add: k(3) [symmetric])
  consider (more) w1 where "loop_turn env c p ?tick \<lparr>missed_heartbeats = of_nat k, last_read = t\<rparr> w =
      Looping \<lparr>missed_heartbeats = of_nat (Suc k), last_read = t\<rparr> w1"
    | (failed) w1 where "loop_turn env c p ?tick \<lparr>missed_heartbeats = of_nat k, last_read = t\<rparr> w =
      Stopped PingFailed w1"
    using le by - (rule tick_turn [where env = env and s = "\<lparr>missed_heartbeats = of_nat k, last_read = t\<rparr>"
        and c = c and p = p and w = w], auto simp: assms(1) add.commute)
  then show ?case
  proof cases
    case more
    have "\<exists>r w2. timed_loop env c p (nt + ?I) t (replicate (3 - k) (t, ?tick))
        \<lparr>missed_heartbeats = of_nat (Suc k), last_read = t\<rparr> w1
        = Some (Stopped r w2) \<and> r \<in> {MissedHeartbeats, PingFailed}"
      unfolding again [symmetric] using k nxt by (intro Suc.hyps(1)) auto
    then show ?thesis using more k by (simp add: en tick_after_def)
  next
    case failed
    then show ?thesis using k by (simp add: en)
  qed
qed

section \<open>Properties\<close>

text \<open>
  C19. The idle timeout measures read inactivity only: in every timed run of a session, however
  heartbeats and other tasks are interleaved, when the session is closed for being idle, the
  connection timeout has passed since each of its reads and since its start.
\<close>

theorem idle_means_idle:
  assumes "sums_instants (env_time env)"
    and "timed_session env c p start sched w = Some (Stopped IdleTimeout w1)"
  shows "\<exists>pre t post. sched = pre @ (t, IdleElapsed) # post \<and>
    start + connection_timeout (env_config env) \<le> t \<and>
    (\<forall>u r x. (u, ReadNext r x) \<in> set pre \<longrightarrow> u + connection_timeout (env_config env) \<le> t)"
  using idle_run [OF assms(1) assms(2) [unfolded timed_session_def]] by simp

definition idle_schedule :: "(unit, unit, unit, 'w) schedule" where
  "idle_schedule =
     [(5, ReadNext 5 (Some (Inr (RawPong [])))), (seconds 31, Tick), (seconds 61, IdleElapsed)]"

lemma sample_sums: "sums_instants (env_time (sample_env h))"
  by (simp add: sums_instants_def sample_env_def)

lemmas timed_evals = timed_session_def enabled_def tick_after_def turn_evals handler_evals roomy_world_def
  world_new_def cell_new_def fifo_defs sample_connection_def server_config_default_def seconds_def

theorem idle_means_idle_witness:
  "\<exists>pre t post. (idle_schedule :: (unit, unit, unit, (fifo, bool) world) schedule)
       = pre @ (t, IdleElapsed) # post \<and> seconds 60 \<le> t \<and>
     (\<forall>u r x. (u, ReadNext r x) \<in> set pre \<longrightarrow> u + seconds 60 \<le> t)"
proof -
  let ?env = "sample_env (quiet_handler :: (unit, unit, unit, (fifo, bool) world) handler)"
  have "\<exists>w1. timed_session ?env sample_connection principal_anonymous 0 idle_schedule roomy_world
      = Some (Stopped IdleTimeout w1)"
    by (simp add: idle_schedule_def timed_evals)
  then obtain w1 where "timed_session ?env sample_connection principal_anonymous 0 idle_schedule roomy_world
      = Some (Stopped IdleTimeout w1)" by blast
  from idle_means_idle [OF sample_sums this] show ?thesis
    by (simp add: sample_env_def server_config_default_def)
qed

text \<open>
  A session is never closed for missed heartbeats before four heartbeat intervals have
  passed since it started, and then four heartbeats in a row came without a read.
\<close>

theorem heartbeat_close_not_early:
  assumes "timed_session env c p start sched w = Some (Stopped MissedHeartbeats w1)"
  shows "\<exists>pre t post. sched = pre @ (t, Tick) # post \<and>
    start + 4 * heartbeat_interval (env_config env) \<le> t \<and> ticks_since_read (map snd pre) = 3"
proof -
  let ?I = "heartbeat_interval (env_config env)"
  obtain pre t post where s: "sched = pre @ (t, Tick) # post"
    and three: "ticks_since_read (map snd pre) = 3" and t: "start + ?I + ?I * ticks (map snd pre) \<le> t"
    using missed_run [OF assms [unfolded timed_session_def]] by (auto simp: ticks_since_read_def)
  have "3 \<le> ticks (map snd pre)"
    using count_le_ticks [of "map snd pre" 0] three by (simp add: ticks_since_read_def)
  then have "?I * 3 \<le> ?I * ticks (map snd pre)" by (rule mult_le_mono2)
  with t have "start + 4 * ?I \<le> t" by linarith
  with s three show ?thesis by blast
qed

definition four_ticks :: "(unit, unit, unit, 'w) schedule" where
  "four_ticks = [(seconds 30, Tick), (seconds 60, Tick), (seconds 90, Tick), (seconds 120, Tick)]"

theorem heartbeat_close_not_early_witness:
  "\<exists>pre t post. (four_ticks :: (unit, unit, unit, (fifo, bool) world) schedule)
     = pre @ (t, Tick) # post \<and> seconds 120 \<le> t \<and> ticks_since_read (map snd pre) = 3"
proof -
  let ?env = "sample_env (quiet_handler :: (unit, unit, unit, (fifo, bool) world) handler)"
  have "\<exists>w1. timed_session ?env sample_connection principal_anonymous 0 four_ticks roomy_world
      = Some (Stopped MissedHeartbeats w1)"
    by (simp add: four_ticks_def timed_evals)
  then obtain w1 where "timed_session ?env sample_connection principal_anonymous 0 four_ticks roomy_world
      = Some (Stopped MissedHeartbeats w1)" by blast
  from heartbeat_close_not_early [OF this] show ?thesis
    by (simp add: sample_env_def server_config_default_def seconds_def)
qed

text \<open>
  C20. A peer that went silent is detected: as long as the clock does not overflow and the task gets a turn within \<open>late\<close> of a branch
  becoming ready, a session that is still in its loop read something, or started, within the last
  four heartbeat intervals and within the connection timeout, whichever is shorter, but for at most
  four such delays (up to three overdue heartbeats may each win a turn against the idle deadline).
\<close>

theorem silent_peer_is_closed:
  assumes "sums_instants (env_time env)" and "\<And>u d. add_instant (env_time env) u d \<noteq> None"
    and "timed_session env c p start sched w = Some (Looping s1 w1)"
    and "prompt env c p late start (start + heartbeat_interval (env_config env)) sched
      \<lparr>missed_heartbeats = 0, last_read = start\<rparr> w"
  shows "last (start # map fst sched) \<le> last_read s1 +
      min (4 * heartbeat_interval (env_config env)) (connection_timeout (env_config env)) + 4 * late \<and>
    (last_read s1 = start \<or> (\<exists>x. (last_read s1, ReadNext (last_read s1) x) \<in> set sched))"
  using prompt_run [OF assms(1,2) assms(3) [unfolded timed_session_def] assms(4)]
  by (simp add: ticker_ok_def turn_bound_def)

definition live_schedule :: "(unit, unit, unit, 'w) schedule" where
  "live_schedule =
     [(seconds 30, Tick), (seconds 59, ReadNext (seconds 59) (Some (Inr (RawPong [])))),
      (seconds 60, Tick), (seconds 90, Tick), (seconds 119, Elsewhere id)]"

theorem silent_peer_is_closed_witness:
  "\<exists>s1 w1. timed_session (sample_env (quiet_handler :: (unit, unit, unit, (fifo, bool) world) handler))
      sample_connection principal_anonymous 0 live_schedule roomy_world = Some (Looping s1 w1) \<and>
    seconds 119 \<le> last_read s1 + min (4 * seconds 30) (seconds 60) + 4 * seconds 1"
proof -
  let ?env = "sample_env (quiet_handler :: (unit, unit, unit, (fifo, bool) world) handler)"
  have "\<exists>s1 w1. timed_session ?env sample_connection principal_anonymous 0 live_schedule roomy_world
      = Some (Looping s1 w1)"
    by (simp add: live_schedule_def timed_evals)
  then obtain s1 w1 where run: "timed_session ?env sample_connection principal_anonymous 0 live_schedule
      roomy_world = Some (Looping s1 w1)" by blast
  have prompt: "prompt ?env sample_connection principal_anonymous (seconds 1) 0
      (0 + heartbeat_interval (env_config ?env)) live_schedule \<lparr>missed_heartbeats = 0, last_read = 0\<rparr> roomy_world"
    by (simp add: live_schedule_def timed_evals task_turn_def)
  have "add_instant (env_time ?env) u d \<noteq> None" for u d by (simp add: sample_env_def)
  from silent_peer_is_closed [OF sample_sums this run prompt] run show ?thesis
    by (auto simp: sample_env_def server_config_default_def live_schedule_def)
qed

text \<open>
  C39. But the heartbeats do not measure the peer alone: when a callback has kept the loop busy for
  four intervals, a timed run is possible in which the peer's Pong is read and the session is
  closed at that same instant, because the overdue heartbeats fire at once.
\<close>

theorem burst_closes_live_peer:
  fixes env :: "('ch, 'nt, 't, 'i, 's, ('ch, 'nt, 'z) world_scheme) session_env"
    and raw :: "('c, 'f) raw_message"
  assumes "next_tick + 3 * heartbeat_interval (env_config env) \<le> t" and "now \<le> t"
    and "\<And>u d. add_instant (env_time env) u d \<noteq> None"
    and "on_pong (env_handler env) = default_on_pong" and "raw = RawPong d"
  shows "\<exists>r w1. timed_loop env c p next_tick now
      [(t, ReadNext t (Some (Inr raw))), (t, Tick), (t, Tick), (t, Tick), (t, Tick)] s w
      = Some (Stopped r w1) \<and> r \<in> {MissedHeartbeats, PingFailed}"
proof -
  have read: "loop_turn env c p (ReadNext t (Some (Inr raw))) s w =
      Looping \<lparr>missed_heartbeats = 0, last_read = t\<rparr> w"
  proof -
    obtain u where "add_instant (env_time env) (last_read s) (connection_timeout (env_config env)) = Some u"
      using assms(3) by blast
    moreover have "s\<lparr>last_read := t, missed_heartbeats := 0\<rparr> = \<lparr>missed_heartbeats = 0, last_read = t\<rparr>"
      by (simp add: session.equality)
    ultimately show ?thesis
      using assms(4,5) by (simp add: loop_turn_def on_read_def on_frame_def default_on_pong_def Let_def)
  qed
  have "\<exists>r w1. timed_loop env c p next_tick t (replicate (Suc (3 - 0)) (t, Tick :: ('c, 'f, 't, ('ch, 'nt, 'z) world_scheme) event))
      \<lparr>missed_heartbeats = of_nat 0, last_read = t\<rparr> w = Some (Stopped r w1) \<and> r \<in> {MissedHeartbeats, PingFailed}"
    using assms(1) by (intro overdue_ticks assms(3)) (simp_all add: mult.commute)
  then show ?thesis
    using assms(2) read by (simp add: enabled_def tick_after_def numeral_eq_Suc)
qed

theorem burst_closes_live_peer_witness:
  "\<exists>r w1. timed_loop (sample_env (quiet_handler :: (unit, unit, unit, (fifo, bool) world) handler))
      sample_connection principal_anonymous (seconds 30) 0
      [(seconds 200, ReadNext (seconds 200) (Some (Inr (RawPong [1])))), (seconds 200, Tick), (seconds 200, Tick),
       (seconds 200, Tick), (seconds 200, Tick :: (unit, unit, unit, (fifo, bool) world) event)]
      \<lparr>missed_heartbeats = 0, last_read = 0\<rparr> roomy_world = Some (Stopped r w1) \<and>
    r \<in> {MissedHeartbeats, PingFailed}"
proof (rule burst_closes_live_peer)
  show "on_pong (env_handler (sample_env (quiet_handler :: (unit, unit, unit, (fifo, bool) world) handler)))
      = default_on_pong"
    by (simp add: sample_env_def handler_evals default_on_pong_def fun_eq_iff)
qed (rule refl | simp add: sample_env_def server_config_default_def seconds_def)+

text \<open>
  A Ping is answered: with the default \<open>on_ping\<close> a Pong with the same payload is queued last;
  if the queue is full the peer is evicted as a slow consumer.  Either way the loop goes on,
  with the heartbeat counter reset and the read time recorded.
\<close>

theorem ping_is_answered:
  assumes "tokio_runtime (env_rt env) queued capacity rx_alive"
    and "on_ping (env_handler env) = default_on_ping"
    and "add_instant (env_time env) (last_read s) (connection_timeout (env_config env)) \<noteq> None"
    and "c_state (cells w (conn_cell c)) = Open" and "rx_alive (c_tx (cells w (conn_cell c)))"
  shows "\<exists>w1. loop_turn env c p (ReadNext now (Some (Inr (RawPing d)))) s w =
      Looping \<lparr>missed_heartbeats = 0, last_read = now\<rparr> w1 \<and>
    (let ch = c_tx (cells w (conn_cell c)); cl1 = cells w1 (conn_cell c)
     in if length (queued ch) < capacity ch
        then queued (c_tx cl1) = queued ch @ [pong_msg d] \<and> c_state cl1 = Open
        else queued (c_tx cl1) = queued ch \<and> c_state cl1 = Closing \<and>
          rt_notified (env_rt env) (c_evict cl1) \<noteq> None)"
proof -
  let ?w1 = "snd (send_quietly (env_rt env) (pong_msg d) c w)"
  have "loop_turn env c p (ReadNext now (Some (Inr (RawPing d)))) s w =
      Looping (s\<lparr>last_read := now, missed_heartbeats := 0\<rparr>) ?w1"
    using assms(2,3) by (auto simp: loop_turn_def on_read_def on_frame_def default_on_ping_def as_bytes_def)
  moreover have "s\<lparr>last_read := now, missed_heartbeats := 0\<rparr> = \<lparr>missed_heartbeats = 0, last_read = now\<rparr>"
    by (simp add: session.equality)
  moreover have "cells ?w1 = snd (connection_send (env_rt env) (pong_msg d) c (cells w)
      :: (unit, unit, unit, unit) ws_result \<times> _)"
    by (simp add: send_quietly_def case_prod_unfold Let_def)
  ultimately show ?thesis
    using tokio_runtime.cell_send_outcome [OF assms(1), of "cells w (conn_cell c)" "pong_msg d",
        where ?'t = unit and ?'i = unit and ?'s = unit] assms(4,5)
    by (auto simp: connection_send_def case_prod_unfold Let_def split: if_splits)
qed

theorem ping_is_answered_witness:
  "\<exists>w1. loop_turn (sample_env (quiet_handler :: (unit, unit, unit, (fifo, bool) world) handler))
      sample_connection principal_anonymous
      (ReadNext 9 (Some (Inr (RawPing [1] :: (unit, unit) raw_message))))
      \<lparr>missed_heartbeats = 2, last_read = 0\<rparr> roomy_world =
      Looping \<lparr>missed_heartbeats = 0, last_read = 9\<rparr> w1 \<and>
    f_buf (c_tx (cells w1 0)) = [pong_msg [1]]"
proof -
  let ?env = "sample_env (quiet_handler :: (unit, unit, unit, (fifo, bool) world) handler)"
  have rt: "tokio_runtime (env_rt ?env) f_buf f_cap f_alive"
    by (simp add: sample_env_def fifo.tokio_runtime_axioms)
  have p: "on_ping (env_handler ?env) = default_on_ping"
    by (simp add: sample_env_def handler_evals default_on_ping_def fun_eq_iff)
  have d: "add_instant (env_time ?env) x y \<noteq> None" for x y by (simp add: sample_env_def)
  have w: "c_state (cells roomy_world 0) = Open" "f_alive (c_tx (cells roomy_world 0))"
    "f_buf (c_tx (cells roomy_world 0)) = []" "f_cap (c_tx (cells roomy_world 0)) = 1024"
    "conn_cell sample_connection = 0"
    by (simp_all add: roomy_world_def world_new_def cell_new_def fifo_new_def sample_connection_def)
  show ?thesis
    using ping_is_answered [OF rt p d, where w = roomy_world and c = sample_connection and now = 9 and d = "[1]"
        and s = "\<lparr>missed_heartbeats = 2, last_read = 0\<rparr>" and p = principal_anonymous] w
    by (auto simp: Let_def)
qed

end
