(* ===== verification/Ws_Accept.thy ===== *)
theory Ws_Accept imports Ws_Config Ws_Machine begin

text \<open>
  \<open>run\<close> and the accept loop \<open>serve\<close> of \<open>server.rs\<close>.  The listener and the tasks the loop spawns
  give the events: a connection comes in, accepting fails, or a running task ends, which drops
  its permit whether it returned or panicked.  The state has the semaphore and the tasks that
  run; what a task does is \<open>handle_connection\<close>, in the theory of sessions.
\<close>

datatype 'st accept_event =
    Incoming 'st socket_addr
  | AcceptError
  | TaskEnds nat

record ('sem, 'st) accept_state =
  ac_slots :: 'sem
  ac_tasks :: "('st \<times> socket_addr) list"
  ac_dropped :: "('st \<times> socket_addr) list"

text \<open>\<open>run\<close> binds the configured address and serves; the loop itself has no exit.\<close>

definition server_run ::
  "(socket_addr \<Rightarrow> 'i + 'l) \<Rightarrow> ('ch, 'nt, 'req, 'h, 'sem) server
     \<Rightarrow> ('t, 'i, 's, 'l \<times> ('sem, 'st) accept_state) ws_result" where
  "server_run bind sv =
     and_then (from_io (bind (bind_addr (sv_config sv))))
       (\<lambda>listener. Inr (listener, \<lparr>ac_slots = sv_slots sv, ac_tasks = [], ac_dropped = []\<rparr>))"

fun serve_step ::
  "'sem semaphore \<Rightarrow> 'st accept_event \<Rightarrow> ('sem, 'st) accept_state \<Rightarrow> ('sem, 'st) accept_state" where
  "serve_step sem (Incoming st addr) s =
     (case sem_try_acquire sem (ac_slots s) of
        None \<Rightarrow> s\<lparr>ac_dropped := ac_dropped s @ [(st, addr)]\<rparr>
      | Some slots \<Rightarrow> s\<lparr>ac_slots := slots, ac_tasks := ac_tasks s @ [(st, addr)]\<rparr>)"
| "serve_step sem AcceptError s = s"
| "serve_step sem (TaskEnds i) s =
     (if i < length (ac_tasks s)
      then s\<lparr>ac_slots := sem_release sem (ac_slots s),
             ac_tasks := take i (ac_tasks s) @ drop (Suc i) (ac_tasks s)\<rparr>
      else s)"

definition serve ::
  "'sem semaphore \<Rightarrow> 'st accept_event list \<Rightarrow> ('sem, 'st) accept_state \<Rightarrow> ('sem, 'st) accept_state" where
  "serve sem evs s = run_ops (serve_step sem) evs s"

text \<open>Each running task holds one permit.\<close>

definition accept_inv :: "('sem \<Rightarrow> nat) \<Rightarrow> nat \<Rightarrow> ('sem, 'st) accept_state \<Rightarrow> bool" where
  "accept_inv available n s \<longleftrightarrow> available (ac_slots s) + length (ac_tasks s) = n"

context counting_semaphore begin

lemma serve_step_inv:
  assumes "accept_inv available n s"
  shows "accept_inv available n (serve_step sem ev s)"
proof (cases ev)
  case (Incoming st addr)
  show ?thesis
    by (cases rule: try_acquire_cases [of "ac_slots s"])
      (use assms in \<open>auto simp: Incoming accept_inv_def\<close>)
next
  case (TaskEnds i)
  then show ?thesis using assms by (auto simp: accept_inv_def release)
qed (use assms in simp)

end

sublocale counting_semaphore \<subseteq> accepting: machine "\<lambda>_ _. True" "serve_step sem" "accept_inv available n" for n
  by unfold_locales (rule serve_step_inv)

context counting_semaphore begin

lemma serve_inv: "accept_inv available n s \<Longrightarrow> accept_inv available n (serve sem evs s)"
  unfolding serve_def by (rule accepting.run_inv) (simp_all add: legal_ops_True)

lemma refused_iff: "sem_try_acquire sem s = None \<longleftrightarrow> available s = 0"
  by (cases rule: try_acquire_cases [of s]) auto

end

section \<open>Properties\<close>

text \<open>
  A server never has more connections than its configuration allows, handshakes included,
  whatever comes in, ends or panics; a connection is turned away exactly when that many are
  running, and then nothing else changes; every ended task frees its slot.
\<close>

theorem connection_limit:
  assumes "counting_semaphore sem max_permits available"
    and "fst (build max_permits sem cls b h
      :: ('t, 'i, 's, ('ch, 'nt, 'req, 'h, 'sem) server) ws_result outcome \<times> _) = Returned (Inr sv)"
    and "(server_run bind sv :: ('t, 'i, 's, 'l \<times> ('sem, 'st) accept_state) ws_result) = Inr (listener, s0)"
  shows "let s = serve sem evs s0; n = unat (max_connections (sv_config sv)) in
    length (ac_tasks s) \<le> n \<and> available (ac_slots s) = n - length (ac_tasks s) \<and>
    (ac_tasks (serve_step sem (Incoming st addr) s) =
       (if length (ac_tasks s) = n then ac_tasks s else ac_tasks s @ [(st, addr)]))"
proof -
  obtain a where "sb_authorizer b = Some a" and "validate max_permits (sb_config b)
      = (Inr () :: ('t, 'i, 's, unit) ws_result)"
    and new: "sem_new sem (max_connections (sb_config b)) = Some (sv_slots sv)" "sv_config sv = sb_config b"
    using assms(2) by (auto simp: build_def from_parts_def ok_or_def Let_def split: option.splits sum.splits)
  then have "max_connections (sb_config b) \<le> max_permits" by (simp add: validate_Inr_iff)
  then have "available (sv_slots sv) = unat (max_connections (sv_config sv))"
    using counting_semaphore.new_ok [OF assms(1)] new by fastforce
  then have "accept_inv available (unat (max_connections (sv_config sv))) s0"
    using assms(3) by (auto simp: server_run_def and_then_Inr_iff accept_inv_def)
  then have inv: "accept_inv available (unat (max_connections (sv_config sv))) (serve sem evs s0)"
    by (rule counting_semaphore.serve_inv [OF assms(1)])
  show ?thesis
    by (cases rule: counting_semaphore.try_acquire_cases [OF assms(1), of "ac_slots (serve sem evs s0)"])
      (use inv in \<open>auto simp: Let_def accept_inv_def\<close>)
qed

text \<open>A server for two connections, and three that come in.\<close>

definition small_builder :: "'req server_builder" where
  "small_builder = builder_allow_anonymous (builder_max_connections 2 builder_new)"

definition small_server :: "'h \<Rightarrow> (fifo, bool, 'req, 'h, nat) server" where
  "small_server h =
     \<lparr>sv_config = server_config_default\<lparr>max_connections := 2\<rparr>, sv_handler = h,
      sv_authorizer = AllowAnonymous, sv_manager = world_new sample_cells, sv_slots = 2\<rparr>"

lemma small_server_build:
  "fst (build sample_permits (counter sample_permits) sample_cells small_builder h
      :: ('t, 'i, 's, (fifo, bool, 'req, 'h, nat) server) ws_result outcome \<times> _)
      = Returned (Inr (small_server h))"
proof -
  have "validate sample_permits (server_config_default\<lparr>max_connections := 2\<rparr>)
      = (Inr () :: ('t, 'i, 's, unit) ws_result)"
    by (simp add: validate_Inr_iff server_config_default_def write_buffer_size_def sample_permits_def
        word_less_nat_alt word_le_nat_alt)
  then show ?thesis
    by (simp add: build_def from_parts_def small_builder_def small_server_def builder_setters
        builder_new_def counter_def sample_permits_def word_le_nat_alt)
qed

theorem connection_limit_witness:
  "length (ac_tasks (serve (counter sample_permits)
     [Incoming ''x'' (V4 (1, 1, 1, 1) 1), Incoming ''y'' (V4 (1, 1, 1, 1) 2), Incoming ''z'' (V4 (1, 1, 1, 1) 3)]
     \<lparr>ac_slots = sv_slots (small_server () :: (fifo, bool, unit, unit, nat) server), ac_tasks = [], ac_dropped = []\<rparr>)) \<le> 2"
proof -
  have r: "(server_run (\<lambda>_. Inr ()) (small_server () :: (fifo, bool, unit, unit, nat) server) :: (unit, unit, unit, unit \<times> (nat, string) accept_state) ws_result)
      = Inr ((), \<lparr>ac_slots = sv_slots (small_server () :: (fifo, bool, unit, unit, nat) server), ac_tasks = [], ac_dropped = []\<rparr>)"
    by (simp add: server_run_def from_error_defs)
  have "unat (max_connections (sv_config (small_server () :: (fifo, bool, unit, unit, nat) server))) = 2" by (simp add: small_server_def)
  then show ?thesis
    using connection_limit [OF counter.counting_semaphore_axioms small_server_build r, of
        "[Incoming ''x'' (V4 (1, 1, 1, 1) 1), Incoming ''y'' (V4 (1, 1, 1, 1) 2), Incoming ''z'' (V4 (1, 1, 1, 1) 3)]"]
    by (simp add: Let_def)
qed

end
