(* ===== verification/Ws_Server.thy ===== *)
theory Ws_Server imports Ws_Accept Ws_Session_Props begin

text \<open>
  The whole server of \<open>server.rs\<close>: the accept loop of \<open>serve\<close> and the tasks it spawns, over one
  semaphore and one room manager.  A task runs \<open>handle_connection\<close>, cut at the places where it waits:
  for the handshake, for \<open>on_connect\<close>, in \<open>select!\<close>, for its writer, and for \<open>on_disconnect\<close>; the
  tasks, the listener and the other tasks of the application take their steps in any order.  A
  callback that waits between its own accesses is those accesses as steps of \<open>OtherTask\<close>, the last
  with its result.  \<open>hs\<close> is the handshake with the server's authorizer and configuration;
  \<open>ss_lost\<close> records the connections whose task panicked.
\<close>

datatype 'st task =
    Handshaking 'st socket_addr
  | Connecting connection principal
  | Serving connection principal session
  | Flushing connection principal
  | Disconnecting connection principal

record ('sem, 'st, 'w) server_state =
  ss_slots :: 'sem
  ss_tasks :: "'st task list"
  ss_world :: 'w
  ss_lost :: "string list"

datatype ('st, 'c, 'f, 't, 'w) server_event =
    Arrive 'st socket_addr
  | AcceptFails
  | HandshakeEnds nat string nat
  | ConnectReturns nat instant
  | TurnOf nat "('c, 'f, 't, 'w) event"
  | WriterEnds nat bool
  | DisconnectReturns nat
  | OtherTask "'w \<Rightarrow> 'w"

text \<open>The end of a task drops its permit, also when it panicked.\<close>

definition end_task ::
  "'sem semaphore \<Rightarrow> nat \<Rightarrow> ('sem, 'st, 'w) server_state \<Rightarrow> ('sem, 'st, 'w) server_state" where
  "end_task sem i s =
     s\<lparr>ss_slots := sem_release sem (ss_slots s),
       ss_tasks := take i (ss_tasks s) @ drop (Suc i) (ss_tasks s)\<rparr>"

definition panic_task ::
  "'sem semaphore \<Rightarrow> nat \<Rightarrow> string \<Rightarrow> 'w \<Rightarrow> ('sem, 'st, 'w) server_state \<Rightarrow> ('sem, 'st, 'w) server_state" where
  "panic_task sem i cid w s = end_task sem i (s\<lparr>ss_world := w, ss_lost := ss_lost s @ [cid]\<rparr>)"

definition update_task ::
  "nat \<Rightarrow> 'st task \<Rightarrow> 'w \<Rightarrow> ('sem, 'st, 'w) server_state \<Rightarrow> ('sem, 'st, 'w) server_state" where
  "update_task i t w s = s\<lparr>ss_tasks := (ss_tasks s)[i := t], ss_world := w\<rparr>"

definition task_step ::
  "'sem semaphore \<Rightarrow> ('st \<Rightarrow> ('t, 'i, 's, ('ws \<times> principal) option) ws_result)
     \<Rightarrow> ('ch, 'nt, 't, 'i, 's, ('ch, 'nt, 'z) world_scheme) session_env \<Rightarrow> nat
     \<Rightarrow> ('st, 'c, 'f, 't, ('ch, 'nt, 'z) world_scheme) server_event
     \<Rightarrow> ('sem, 'st, ('ch, 'nt, 'z) world_scheme) server_state
     \<Rightarrow> ('sem, 'st, ('ch, 'nt, 'z) world_scheme) server_state" where
  "task_step sem hs env i ev s =
     (case (ss_tasks s ! i, ev) of
        (Handshaking st addr, HandshakeEnds _ cid ref) \<Rightarrow>
          (case hs st of
             Inl _ \<Rightarrow> end_task sem i s
           | Inr None \<Rightarrow> end_task sem i s
           | Inr (Some (_, p)) \<Rightarrow>
               (case session_register env cid addr ref p (ss_world s) of
                  Panics w \<Rightarrow> panic_task sem i cid w s
                | Returns c w \<Rightarrow> update_task i (Connecting c p) w s))
      | (Connecting c p, ConnectReturns _ now) \<Rightarrow>
          (case session_connected env c p (ss_world s) of
             Panics w \<Rightarrow> panic_task sem i (conn_id c) w s
           | Returns _ w \<Rightarrow> update_task i (Serving c p (session_start now)) w s)
      | (Serving c p session, TurnOf _ turn) \<Rightarrow>
          (case loop_turn env c p turn session (ss_world s) of
             Looping session1 w \<Rightarrow> update_task i (Serving c p session1) w s
           | Stopped _ w \<Rightarrow> update_task i (Flushing c p) (teardown_close env c w) s
           | Crashed w \<Rightarrow> panic_task sem i (conn_id c) w s)
      | (Flushing c p, WriterEnds _ flushed) \<Rightarrow>
          update_task i (Disconnecting c p) (teardown_closed env c flushed (ss_world s)) s
      | (Disconnecting c p, DisconnectReturns _) \<Rightarrow>
          (case teardown_disconnect env c p (ss_world s) of
             Panics w \<Rightarrow> panic_task sem i (conn_id c) w s
           | Returns _ w \<Rightarrow> end_task sem i (s\<lparr>ss_world := w\<rparr>))
      | _ \<Rightarrow> s)"

fun task_of_event :: "('st, 'c, 'f, 't, 'w) server_event \<Rightarrow> nat" where
  "task_of_event (HandshakeEnds i _ _) = i"
| "task_of_event (ConnectReturns i _) = i"
| "task_of_event (TurnOf i _) = i"
| "task_of_event (WriterEnds i _) = i"
| "task_of_event (DisconnectReturns i) = i"
| "task_of_event _ = 0"

definition server_step ::
  "'sem semaphore \<Rightarrow> ('st \<Rightarrow> ('t, 'i, 's, ('ws \<times> principal) option) ws_result)
     \<Rightarrow> ('ch, 'nt, 't, 'i, 's, ('ch, 'nt, 'z) world_scheme) session_env
     \<Rightarrow> ('st, 'c, 'f, 't, ('ch, 'nt, 'z) world_scheme) server_event
     \<Rightarrow> ('sem, 'st, ('ch, 'nt, 'z) world_scheme) server_state
     \<Rightarrow> ('sem, 'st, ('ch, 'nt, 'z) world_scheme) server_state" where
  "server_step sem hs env ev s =
     (case ev of
        Arrive st addr \<Rightarrow>
          (case sem_try_acquire sem (ss_slots s) of
             None \<Rightarrow> s
           | Some slots \<Rightarrow> s\<lparr>ss_slots := slots, ss_tasks := ss_tasks s @ [Handshaking st addr]\<rparr>)
      | AcceptFails \<Rightarrow> s
      | OtherTask f \<Rightarrow> s\<lparr>ss_world := f (ss_world s)\<rparr>
      | _ \<Rightarrow> if task_of_event ev < length (ss_tasks s) then task_step sem hs env (task_of_event ev) ev s else s)"

lemma server_step_simps:
  fixes s :: "('sem, 'st, ('ch, 'nt, 'z) world_scheme) server_state"
    and env :: "('ch, 'nt, 't, 'i, 's, ('ch, 'nt, 'z) world_scheme) session_env"
  shows "server_step sem hs env (Arrive st addr) s =
     (case sem_try_acquire sem (ss_slots s) of
        None \<Rightarrow> s
      | Some slots \<Rightarrow> s\<lparr>ss_slots := slots, ss_tasks := ss_tasks s @ [Handshaking st addr]\<rparr>)"
  "server_step sem hs env AcceptFails s = s"
  "server_step sem hs env (OtherTask f) s = s\<lparr>ss_world := f (ss_world s)\<rparr>"
  "server_step sem hs env (HandshakeEnds i cid ref
       :: ('st, 'c, 'f, 't, ('ch, 'nt, 'z) world_scheme) server_event) s =
     (if i < length (ss_tasks s) then task_step sem hs env i (HandshakeEnds i cid ref
       :: ('st, 'c, 'f, 't, ('ch, 'nt, 'z) world_scheme) server_event) s else s)"
  "server_step sem hs env (TurnOf i turn :: ('st, 'c, 'f, 't, ('ch, 'nt, 'z) world_scheme) server_event) s =
     (if i < length (ss_tasks s) then task_step sem hs env i (TurnOf i turn :: ('st, 'c, 'f, 't, ('ch, 'nt, 'z) world_scheme) server_event) s else s)"
  "server_step sem hs env (WriterEnds i flushed
       :: ('st, 'c, 'f, 't, ('ch, 'nt, 'z) world_scheme) server_event) s =
     (if i < length (ss_tasks s) then task_step sem hs env i (WriterEnds i flushed
       :: ('st, 'c, 'f, 't, ('ch, 'nt, 'z) world_scheme) server_event) s else s)"
  "server_step sem hs env (ConnectReturns i now
       :: ('st, 'c, 'f, 't, ('ch, 'nt, 'z) world_scheme) server_event) s =
     (if i < length (ss_tasks s) then task_step sem hs env i (ConnectReturns i now
       :: ('st, 'c, 'f, 't, ('ch, 'nt, 'z) world_scheme) server_event) s else s)"
  "server_step sem hs env (DisconnectReturns i
       :: ('st, 'c, 'f, 't, ('ch, 'nt, 'z) world_scheme) server_event) s =
     (if i < length (ss_tasks s) then task_step sem hs env i (DisconnectReturns i
       :: ('st, 'c, 'f, 't, ('ch, 'nt, 'z) world_scheme) server_event) s else s)"
  by (simp_all add: server_step_def)

definition server_start :: "('ch, 'nt, 'req, 'h, 'sem) server \<Rightarrow> ('sem, 'st, ('ch, 'nt) world) server_state" where
  "server_start sv = \<lparr>ss_slots = sv_slots sv, ss_tasks = [], ss_world = sv_manager sv, ss_lost = []\<rparr>"

text \<open>\<open>serve\<close> on a server: its own authorizer, configuration and handler in every task.\<close>

definition serve_tasks ::
  "'sem semaphore \<Rightarrow> ('st \<Rightarrow> ('t, 'i, 's, ('ws \<times> principal) option) ws_result)
     \<Rightarrow> ('ch, 'nt, 't, 'i, 's, ('ch, 'nt, 'z) world_scheme) session_env
     \<Rightarrow> ('st, 'c, 'f, 't, ('ch, 'nt, 'z) world_scheme) server_event list
     \<Rightarrow> ('sem, 'st, ('ch, 'nt, 'z) world_scheme) server_state
     \<Rightarrow> ('sem, 'st, ('ch, 'nt, 'z) world_scheme) server_state" where
  "serve_tasks sem hs env evs s = run_ops (server_step sem hs env) evs s"

definition server_handshake ::
  "('req, 'hv) http_api \<Rightarrow> ('st, 'req, 'resp, 'wc, 'ws, 't) acceptor \<Rightarrow> ('t \<Rightarrow> bool) \<Rightarrow> 'wc ws_config_api
     \<Rightarrow> ('ch, 'nt, 'req, 'h, 'sem) server \<Rightarrow> 'st
     \<Rightarrow> ('t, 'i, 's, ('ws \<times> principal) option) ws_result" where
  "server_handshake api accept is_http wca sv st =
     handshake api accept is_http wca st (sv_authorizer sv) (sv_config sv)"

definition server_env ::
  "('ch, 'nt, 'req, ('t, 'i, 's, 'w) handler, 'sem) server \<Rightarrow> ('ch, 'nt, 't, 'i, 's, 'w) session_env
     \<Rightarrow> ('ch, 'nt, 't, 'i, 's, 'w) session_env" where
  "server_env sv env = env\<lparr>env_config := sv_config sv, env_handler := sv_handler sv\<rparr>"

definition run_server ::
  "'sem semaphore \<Rightarrow> ('req, 'hv) http_api \<Rightarrow> ('st, 'req, 'resp, 'wc, 'ws, 't) acceptor \<Rightarrow> ('t \<Rightarrow> bool)
     \<Rightarrow> 'wc ws_config_api \<Rightarrow> ('ch, 'nt, 'req, ('t, 'i, 's, ('ch, 'nt) world) handler, 'sem) server
     \<Rightarrow> ('ch, 'nt, 't, 'i, 's, ('ch, 'nt) world) session_env
     \<Rightarrow> ('st, 'c, 'f, 't, ('ch, 'nt) world) server_event list \<Rightarrow> ('sem, 'st, ('ch, 'nt) world) server_state" where
  "run_server sem api accept is_http wca sv env evs =
     serve_tasks sem (server_handshake api accept is_http wca sv) (server_env sv env) evs (server_start sv)"

section \<open>What every run keeps\<close>

fun task_id :: "'st task \<Rightarrow> string list" where
  "task_id (Handshaking _ _) = []"
| "task_id (Serving c _ _) = [conn_id c]"
| "task_id (Connecting c _) = [conn_id c]"
| "task_id (Flushing c _) = [conn_id c]"
| "task_id (Disconnecting c _) = [conn_id c]"

definition task_ids :: "'st task list \<Rightarrow> string list" where
  "task_ids ts = concat (map task_id ts)"

text \<open>
  A connection gets an id and a cell nobody else has; other tasks neither register nor unregister
  connections, and within a turn nobody else takes a step.
\<close>

definition keeps_connections :: "(('ch, 'nt, 'z) world_scheme \<Rightarrow> ('ch, 'nt, 'z) world_scheme) \<Rightarrow> bool" where
  "keeps_connections f \<longleftrightarrow> (\<forall>w. manager_ok w \<longrightarrow> manager_ok (f w) \<and> connections (f w) = connections w)"

definition server_legal ::
  "('st, 'c, 'f, 't, ('ch, 'nt, 'z) world_scheme) server_event
     \<Rightarrow> ('sem, 'st, ('ch, 'nt, 'z) world_scheme) server_state \<Rightarrow> bool" where
  "server_legal ev s \<longleftrightarrow>
     (case ev of
        HandshakeEnds i cid ref \<Rightarrow>
          cid \<notin> dom (connections (ss_world s)) \<and>
          (\<forall>d \<in> dom (connections (ss_world s)). conn_cell (the (connections (ss_world s) d)) \<noteq> ref)
      | TurnOf i (Elsewhere f) \<Rightarrow> False
      | OtherTask f \<Rightarrow> keeps_connections f
      | _ \<Rightarrow> True)"

definition server_schedule ::
  "'sem semaphore \<Rightarrow> ('req, 'hv) http_api \<Rightarrow> ('st, 'req, 'resp, 'wc, 'ws, 't) acceptor \<Rightarrow> ('t \<Rightarrow> bool)
     \<Rightarrow> 'wc ws_config_api \<Rightarrow> ('ch, 'nt, 'req, ('t, 'i, 's, ('ch, 'nt) world) handler, 'sem) server
     \<Rightarrow> ('ch, 'nt, 't, 'i, 's, ('ch, 'nt) world) session_env
     \<Rightarrow> ('st, 'c, 'f, 't, ('ch, 'nt) world) server_event list \<Rightarrow> bool" where
  "server_schedule sem api accept is_http wca sv env evs \<longleftrightarrow>
     legal_ops server_legal (server_step sem (server_handshake api accept is_http wca sv) (server_env sv env))
       evs (server_start sv)"

text \<open>A handler that works on rooms and queues, but registers and unregisters no connection.\<close>

definition keeps_registrations :: "('t, 'i, 's, ('ch, 'nt, 'z) world_scheme) handler \<Rightarrow> bool" where
  "keeps_registrations h \<longleftrightarrow> (\<forall>D. handler_contract h (\<lambda>w. manager_ok w \<and> connections w = D))"

lemma keeps_registrationsD:
  "keeps_registrations h \<Longrightarrow> handler_contract h (\<lambda>w. manager_ok w \<and> connections w = D)"
  by (simp add: keeps_registrations_def)

definition server_inv ::
  "('sem \<Rightarrow> nat) \<Rightarrow> nat \<Rightarrow> ('sem, 'st, ('ch, 'nt, 'z) world_scheme) server_state \<Rightarrow> bool" where
  "server_inv available n s \<longleftrightarrow>
     available (ss_slots s) + length (ss_tasks s) = n \<and>
     manager_ok (ss_world s) \<and> distinct (task_ids (ss_tasks s)) \<and>
     set (task_ids (ss_tasks s)) \<subseteq> dom (connections (ss_world s)) \<and>
     dom (connections (ss_world s)) \<subseteq> set (task_ids (ss_tasks s)) \<union> set (ss_lost s)"

lemma task_ids_simps [simp]:
  "task_ids [] = []" "task_ids (t # ts) = task_id t @ task_ids ts"
  "task_ids (xs @ ys) = task_ids xs @ task_ids ys"
  by (simp_all add: task_ids_def)

text \<open>What an event can do to a task.\<close>

lemma task_step_cases:
  assumes "task_of_event ev = i"
  obtains (handshake) st addr cid ref where
      "ss_tasks s ! i = Handshaking st addr" "ev = HandshakeEnds i cid ref"
  | (connect) c p now where "ss_tasks s ! i = Connecting c p" "ev = ConnectReturns i now"
  | (turn) c p session turn where "ss_tasks s ! i = Serving c p session" "ev = TurnOf i turn"
  | (flush) c p flushed where "ss_tasks s ! i = Flushing c p" "ev = WriterEnds i flushed"
  | (disconnect) c p where "ss_tasks s ! i = Disconnecting c p" "ev = DisconnectReturns i"
  | (none) "task_step sem hs env i ev s = s"
  using assms by (cases "ss_tasks s ! i"; cases ev) (auto simp: task_step_def)

text \<open>A task in its place.\<close>

lemma task_split:
  assumes "i < length ts"
  obtains xs ys where "ts = xs @ ts ! i # ys" "take i ts = xs" "drop (Suc i) ts = ys"
    "\<And>t. ts[i := t] = xs @ t # ys"
  using assms id_take_nth_drop [OF assms] upd_conv_take_nth_drop [OF assms] by metis

section \<open>The parts of a session\<close>

lemma connections_drop_members [frame_simps]:
  "connections (fold (drop_member cid) rids w) = connections w"
  by (induction rids arbitrary: w) simp_all

lemma connections_unregister [frame_simps]:
  "connections (unregister_connection iter cid w) = (connections w)(cid := None)"
  by (simp add: unregister_connection_def frame_simps Let_def split: option.split)

lemma session_register_keeps:
  assumes "manager_ok w" and "cid \<notin> dom (connections w)"
    and "\<forall>d \<in> dom (connections w). conn_cell (the (connections w d)) \<noteq> ref"
  shows "case session_register env cid addr ref p w of
      Returns c w1 \<Rightarrow> conn_id c = cid \<and> conn_principal c = p \<and> manager_ok w1 \<and>
        connections w1 = (connections w)(cid \<mapsto> c)
    | Panics w1 \<Rightarrow> w1 = w"
proof -
  define c where "c = \<lparr>conn_id = cid, remote_addr = Some addr, conn_principal = p, conn_cell = ref\<rparr>"
  obtain cls where new: "connection_new (env_rt env) cid (Some addr) p
      (rt_channel (env_rt env) (outbound_queue_capacity (env_config env))) ref (cells w) = (c, cls)"
    by (simp add: connection_new_def c_def)
  let ?w1 = "register_connection c (w\<lparr>cells := cls\<rparr>)"
  have "manager_legal (Register c) (w\<lparr>cells := cls\<rparr>)" using assms(2,3) by (simp add: c_def)
  then have "manager_ok ?w1"
    using register_refines [of "w\<lparr>cells := cls\<rparr>" c] assms(1) by simp
  moreover have "connections ?w1 = (connections w)(cid \<mapsto> c)"
    by (simp add: register_connection_def c_def)
  moreover have "conn_id c = cid" "conn_principal c = p" by (simp_all add: c_def)
  ultimately show ?thesis by (simp add: session_register_def new)
qed

lemma session_connected_keeps:
  assumes "keeps_registrations (env_handler env)" and "manager_ok w"
  shows "manager_ok (call_state (session_connected env c p w)) \<and>
    connections (call_state (session_connected env c p w)) = connections w"
proof -
  have w: "manager_ok w \<and> connections w = connections w" using assms(2) by simp
  note kept = handler_contract.connect_keeps [OF keeps_registrationsD [OF assms(1)] w, of "conn_id c" p]
  then show ?thesis
    by (cases "on_connect (env_handler env) (conn_id c) p w") (simp_all add: session_connected_def)
qed

lemma turn_keeps_connections:
  assumes "keeps_registrations (env_handler env)" and "manager_ok w" and "\<nexists>f. ev = Elsewhere f"
  shows "manager_ok (progress_world (loop_turn env c p ev s w)) \<and>
    connections (progress_world (loop_turn env c p ev s w)) = connections w"
  by (rule handler_contract.turn_keeps [OF keeps_registrationsD [OF assms(1)], where D1 = "connections w"])
    (use assms in auto)

lemma teardown_cells_keep [simp]:
  "manager_ok (teardown_close env c w) = manager_ok w"
  "connections (teardown_close env c w) = connections w"
  "manager_ok (teardown_closed env c flushed w) = manager_ok w"
  "connections (teardown_closed env c flushed w) = connections w"
  by (simp_all add: teardown_close_def teardown_closed_def Let_def)

lemma teardown_disconnect_keeps:
  assumes "keeps_registrations (env_handler env)" and "manager_ok w" and "iterates (env_iter env)"
  shows "case teardown_disconnect env c p w of
      Returns _ w1 \<Rightarrow> manager_ok w1 \<and> connections w1 = (connections w)(conn_id c := None)
    | Panics w1 \<Rightarrow> manager_ok w1 \<and> connections w1 = connections w"
proof -
  have w: "manager_ok w \<and> connections w = connections w" using assms(2) by simp
  note kept = handler_contract.disconnect_keeps [OF keeps_registrationsD [OF assms(1)] w, of "conn_id c" p]
  then show ?thesis
    using unregister_refines [OF _ assms(3), of "call_state (on_disconnect (env_handler env) (conn_id c) p w)"
        "conn_id c"]
    by (cases "on_disconnect (env_handler env) (conn_id c) p w") (simp_all add: teardown_disconnect_def frame_simps)
qed

section \<open>Each step keeps the invariant\<close>

context counting_semaphore begin

text \<open>Ending a task, after a state \<open>w\<close> in which at most its own connection is gone.\<close>

lemma end_task_inv:
  assumes "server_inv available n s" and "i < length (ss_tasks s)" and "manager_ok w"
    and "dom (connections w) \<subseteq> dom (connections (ss_world s)) \<union> set new"
    and "dom (connections (ss_world s)) - set (task_id (ss_tasks s ! i)) \<subseteq> dom (connections w)"
    and "set (task_id (ss_tasks s ! i)) \<inter> dom (connections w) \<subseteq> set new"
  shows "server_inv available n (end_task sem i (s\<lparr>ss_world := w, ss_lost := ss_lost s @ new\<rparr>))"
proof -
  obtain xs ys where ts: "ss_tasks s = xs @ ss_tasks s ! i # ys" "take i (ss_tasks s) = xs"
    "drop (Suc i) (ss_tasks s) = ys"
    using task_split [OF assms(2)] by metis
  define K T A B where "K = set (task_ids xs @ task_ids ys)" and "T = set (task_id (ss_tasks s ! i))"
    and "A = dom (connections (ss_world s))" and "B = dom (connections w)"
  have ids: "task_ids (ss_tasks s) = task_ids xs @ task_id (ss_tasks s ! i) @ task_ids ys"
    by (subst ts(1)) simp
  have "length (ss_tasks s) = Suc (length xs + length ys)" by (subst ts(1)) simp
  then have slots: "available (ss_slots s) + 1 + (length xs + length ys) = n"
    using assms(1) by (simp add: server_inv_def)
  have dist: "distinct (task_ids xs @ task_ids ys)" "K \<inter> T = {}"
    using assms(1) ids by (auto simp: server_inv_def K_def T_def)
  have old: "K \<union> T \<subseteq> A" "A \<subseteq> K \<union> T \<union> set (ss_lost s)"
    using assms(1) ids by (auto simp: server_inv_def K_def T_def A_def)
  have new: "B \<subseteq> A \<union> set new" "A - T \<subseteq> B" "T \<inter> B \<subseteq> set new"
    using assms(4-6) by (simp_all add: A_def B_def T_def)
  have "K \<subseteq> B" using old(1) dist(2) new(2) by blast
  moreover have "B \<subseteq> K \<union> (set (ss_lost s) \<union> set new)" using old new by blast
  ultimately show ?thesis
    using assms(3) slots dist(1) by (simp add: server_inv_def end_task_def ts(2,3) release K_def B_def)
qed

lemma update_task_inv:
  assumes "server_inv available n s" and "i < length (ss_tasks s)" and "manager_ok w"
    and "task_id t = task_id (ss_tasks s ! i) @ new" and "distinct new"
    and "set new \<inter> dom (connections (ss_world s)) = {}"
    and "dom (connections w) = dom (connections (ss_world s)) \<union> set new"
  shows "server_inv available n (update_task i t w s)"
proof -
  obtain xs ys where ts: "ss_tasks s = xs @ ss_tasks s ! i # ys" "(ss_tasks s)[i := t] = xs @ t # ys"
    using task_split [OF assms(2)] by metis
  have ids: "task_ids (ss_tasks s) = task_ids xs @ task_id (ss_tasks s ! i) @ task_ids ys"
    by (subst ts(1)) simp
  have ids': "task_ids ((ss_tasks s)[i := t]) = task_ids xs @ (task_id (ss_tasks s ! i) @ new) @ task_ids ys"
    by (simp add: ts(2) assms(4))
  have "set new \<inter> set (task_ids (ss_tasks s)) = {}" using assms(1,6) by (auto simp: server_inv_def)
  then have "distinct (task_ids ((ss_tasks s)[i := t]))"
    using assms(1,5) unfolding ids' server_inv_def ids by auto
  moreover have "set (task_ids ((ss_tasks s)[i := t])) = set (task_ids (ss_tasks s)) \<union> set new"
    unfolding ids' ids by auto
  ultimately show ?thesis
    using assms(1,3,7) by (auto simp: server_inv_def update_task_def)
qed

text \<open>A task that panics leaves at most its own connection registered.\<close>

lemma panic_task_inv:
  assumes inv: "server_inv available n s" and i: "i < length (ss_tasks s)"
    and "manager_ok w" "connections w = connections (ss_world s)"
    and "set (task_id (ss_tasks s ! i)) \<subseteq> {cid}"
  shows "server_inv available n (panic_task sem i cid w s)"
  unfolding panic_task_def
  by (rule end_task_inv [OF inv i]) (use assms(3-5) in auto)

text \<open>A task that goes on, with the same connection or none.\<close>

lemma next_task_inv:
  assumes inv: "server_inv available n s" and i: "i < length (ss_tasks s)"
    and "manager_ok w" "connections w = connections (ss_world s)" and "task_id t = task_id (ss_tasks s ! i)"
  shows "server_inv available n (update_task i t w s)"
  by (rule update_task_inv [OF inv i, where new = "[]"]) (use assms(3-5) in simp_all)

lemma handshake_inv:
  assumes inv: "server_inv available n s" and i: "i < length (ss_tasks s)" "ss_tasks s ! i = Handshaking st addr"
    and legal: "server_legal (HandshakeEnds i cid ref) s"
  shows "server_inv available n (task_step sem hs env i (HandshakeEnds i cid ref) s)"
proof -
  have refused: "server_inv available n (end_task sem i s)"
    using end_task_inv [OF inv i(1), of "ss_world s" "[]"] inv i(2)
    by (simp add: server_inv_def)
  have m: "manager_ok (ss_world s)" using inv by (simp add: server_inv_def)
  have fresh: "cid \<notin> dom (connections (ss_world s))"
    "\<forall>d \<in> dom (connections (ss_world s)). conn_cell (the (connections (ss_world s) d)) \<noteq> ref"
    using legal by (auto simp: server_legal_def)
  have opened: "server_inv available n (case session_register env cid addr ref p (ss_world s) of
      Panics w \<Rightarrow> panic_task sem i cid w s | Returns c w \<Rightarrow> update_task i (Connecting c p) w s)" for p
  proof (cases "session_register env cid addr ref p (ss_world s)")
    case (Panics w)
    then show ?thesis
      using session_register_keeps [OF m fresh, where env = env and addr = addr and p = p] m i(2)
      by (auto intro: panic_task_inv [OF inv i(1)])
  next
    case (Returns c w)
    have "server_inv available n (update_task i (Connecting c p) w s)"
      by (rule update_task_inv [OF inv i(1), where new = "[cid]"])
        (use Returns session_register_keeps [OF m fresh, where env = env and addr = addr and p = p] i(2) fresh(1)
          in simp_all)
    then show ?thesis using Returns by simp
  qed
  show ?thesis using refused opened by (simp add: task_step_def i(2) split: sum.split option.split)
qed

lemma task_step_inv:
  assumes inv: "server_inv available n s" and i: "i < length (ss_tasks s)" and "task_of_event ev = i"
    and h: "keeps_registrations (env_handler env)" and it: "iterates (env_iter env)" and legal: "server_legal ev s"
  shows "server_inv available n (task_step sem hs env i ev s)"
  using assms(3)
proof (cases rule: task_step_cases [of ev i s _ sem hs env])
  case (handshake st addr cid ref)
  show ?thesis unfolding handshake(2)
    by (rule handshake_inv [OF inv i handshake(1)]) (use legal handshake in simp)
next
  case (connect c p now)
  have "manager_ok (ss_world s)" using inv by (simp add: server_inv_def)
  from session_connected_keeps [OF h this, of c p] show ?thesis
    by (cases "session_connected env c p (ss_world s)")
      (auto simp: connect task_step_def intro: panic_task_inv [OF inv i] next_task_inv [OF inv i])
next
  case (turn c p sn turn)
  have m: "manager_ok (ss_world s)" using inv by (simp add: server_inv_def)
  have "\<nexists>f. turn = Elsewhere f" using legal turn by (auto simp: server_legal_def)
  from turn_keeps_connections [OF h m this, of c p sn] show ?thesis
    by (cases "loop_turn env c p turn sn (ss_world s)")
      (auto simp: turn task_step_def intro: panic_task_inv [OF inv i] next_task_inv [OF inv i])
next
  case (flush c p flushed)
  have "manager_ok (ss_world s)" using inv by (simp add: server_inv_def)
  then show ?thesis using flush by (auto simp: task_step_def intro!: next_task_inv [OF inv i])
next
  case (disconnect c p)
  have "manager_ok (ss_world s)" using inv by (simp add: server_inv_def)
  note k = teardown_disconnect_keeps [OF h this it, of c p]
  show ?thesis
  proof (cases "teardown_disconnect env c p (ss_world s)")
    case (Panics w)
    then show ?thesis using k by (auto simp: disconnect task_step_def intro: panic_task_inv [OF inv i])
  next
    case (Returns u w)
    have "server_inv available n (end_task sem i (s\<lparr>ss_world := w, ss_lost := ss_lost s @ []\<rparr>))"
      by (rule end_task_inv [OF inv i]) (use Returns k disconnect in auto)
    then show ?thesis using Returns by (simp add: disconnect task_step_def)
  qed
next
  case none
  then show ?thesis using inv by simp
qed

lemma server_step_inv:
  assumes "server_inv available n s"
    and "keeps_registrations (env_handler env)" "iterates (env_iter env)" "server_legal ev s"
  shows "server_inv available n (server_step sem hs env ev s)"
proof -
  have task: "server_inv available n (if task_of_event ev < length (ss_tasks s)
      then task_step sem hs env (task_of_event ev) ev s else s)"
    using assms(1) task_step_inv [OF assms(1) _ refl assms(2-4), where hs = hs] by simp
  show ?thesis
  proof (cases ev)
    case (Arrive st addr)
    show ?thesis
      by (cases rule: try_acquire_cases [of "ss_slots s"])
        (use assms(1) in \<open>auto simp: Arrive server_step_simps server_inv_def\<close>)
  next
    case (OtherTask f)
    then show ?thesis
      using assms(1,4) by (auto simp: server_step_simps server_legal_def keeps_connections_def server_inv_def)
  next
    case AcceptFails
    then show ?thesis using assms(1) by (simp add: server_step_simps)
  next
    case HandshakeEnds
    show ?thesis using task unfolding HandshakeEnds server_step_simps task_of_event.simps .
  next
    case ConnectReturns
    show ?thesis using task unfolding ConnectReturns server_step_simps task_of_event.simps .
  next
    case TurnOf
    show ?thesis using task unfolding TurnOf server_step_simps task_of_event.simps .
  next
    case WriterEnds
    show ?thesis using task unfolding WriterEnds server_step_simps task_of_event.simps .
  next
    case DisconnectReturns
    show ?thesis using task unfolding DisconnectReturns server_step_simps task_of_event.simps .
  qed
qed

end

text \<open>The server as a machine.\<close>

definition well_behaved :: "('ch, 'nt, 't, 'i, 's, ('ch, 'nt, 'z) world_scheme) session_env \<Rightarrow> bool" where
  "well_behaved env \<longleftrightarrow> keeps_registrations (env_handler env) \<and> iterates (env_iter env)"

sublocale counting_semaphore \<subseteq> serving: machine "\<lambda>ev s. well_behaved env \<and> server_legal ev s"
    "server_step sem hs env" "server_inv available n" for hs env n
  by unfold_locales (rule server_step_inv, auto simp: well_behaved_def)

lemma legal_ops_conj: "P \<Longrightarrow> legal_ops ok step ops s \<Longrightarrow> legal_ops (\<lambda>op s. P \<and> ok op s) step ops s"
  by (induction ops arbitrary: s) simp_all

context counting_semaphore begin

lemma serve_tasks_inv:
  assumes "server_inv available n s" and "well_behaved env"
    and "legal_ops server_legal (server_step sem hs env) evs s"
  shows "server_inv available n (serve_tasks sem hs env evs s)"
  unfolding serve_tasks_def
  by (rule serving.run_inv [OF assms(1) legal_ops_conj [OF assms(2,3)]])

lemma server_start_inv:
  assumes "fst (build max_permits sem cls b h
      :: ('t, 'i, 's, ('ch, 'nt, 'req, 'h, 'sem) server) ws_result outcome \<times> _) = Returned (Inr sv)"
  shows "server_inv available (unat (max_connections (sv_config sv))) (server_start sv)"
proof -
  obtain a where "validate max_permits (sb_config b) = (Inr () :: ('t, 'i, 's, unit) ws_result)"
    and new: "sem_new sem (max_connections (sb_config b)) = Some (sv_slots sv)" "sv_config sv = sb_config b"
      "sv_manager sv = world_new cls"
    using assms by (auto simp: build_def from_parts_def ok_or_def Let_def split: option.splits sum.splits)
  then have "max_connections (sb_config b) \<le> max_permits" by (simp add: validate_Inr_iff)
  then have "available (sv_slots sv) = unat (max_connections (sv_config sv))"
    using new_ok new by fastforce
  moreover have "connections (world_new cls) = Map.empty" by (simp add: world_new_def)
  ultimately show ?thesis by (simp add: server_inv_def server_start_def new(3) manager_ok_new)
qed

end

section \<open>Tasks that do not panic\<close>

definition panic_free :: "('ch, 'nt, 't, 'i, 's, ('ch, 'nt, 'z) world_scheme) session_env \<Rightarrow> bool" where
  "panic_free env \<longleftrightarrow>
     env_channel_ok env (outbound_queue_capacity (env_config env)) \<and>
     interval_ok (env_time env) (heartbeat_interval (env_config env)) \<and>
     (\<forall>t. add_instant (env_time env) t (connection_timeout (env_config env)) \<noteq> None) \<and>
     (\<forall>cid p w v. on_connect (env_handler env) cid p w \<noteq> Panics v \<and>
        on_disconnect (env_handler env) cid p w \<noteq> Panics v) \<and>
     (\<forall>cid p m w v. on_message (env_handler env) cid p m w \<noteq> Panics v) \<and>
     (\<forall>cid e w v. on_error (env_handler env) cid e w \<noteq> Panics v) \<and>
     (\<forall>cid d w v. on_ping (env_handler env) cid d w \<noteq> Panics v \<and>
        on_pong (env_handler env) cid d w \<noteq> Panics v)"

lemma panic_free_open:
  "panic_free env \<Longrightarrow> session_register env cid addr ref p w \<noteq> Panics v"
  "panic_free env \<Longrightarrow> session_connected env c p w \<noteq> Panics v"
  by (auto simp: panic_free_def session_register_def session_connected_def split: prod.split call.split)

lemma on_tick_on_evicted_return:
  "on_tick rt c s w \<noteq> Crashed v" "on_evicted rt c s w \<noteq> Crashed v"
  by (simp_all add: on_tick_def on_evicted_def Let_def split: prod.split option.split)

lemma panic_free_read:
  assumes "panic_free env"
  shows "on_read (env_rt env) (env_handler env) c p now result s w \<noteq> Crashed v"
  using assms
  by (simp add: panic_free_def on_read_def on_frame_def Let_def split: option.split sum.split call.split)

lemma panic_free_turn:
  assumes "panic_free env"
  shows "loop_turn env c p ev s w \<noteq> Crashed v"
proof -
  obtain d where "add_instant (env_time env) (last_read s) (connection_timeout (env_config env)) = Some d"
    using assms unfolding panic_free_def by blast
  then show ?thesis
    by (simp add: loop_turn_def on_tick_on_evicted_return panic_free_read [OF assms] split: event.split)
qed

lemma panic_free_finish: "panic_free env \<Longrightarrow> teardown_disconnect env c p w \<noteq> Panics v"
  by (auto simp: panic_free_def teardown_disconnect_def split: call.split)

lemma panic_free_step:
  assumes "panic_free env"
  shows "ss_lost (server_step sem hs env ev s) = ss_lost s"
proof -
  have "ss_lost (task_step sem hs env i ev s) = ss_lost s" for i
    by (auto simp: task_step_def end_task_def update_task_def
        dest: panic_free_open(1) [OF assms, THEN notE] panic_free_open(2) [OF assms, THEN notE]
          panic_free_turn [OF assms, THEN notE]
          panic_free_finish [OF assms, THEN notE]
        split: task.split server_event.split sum.split option.split prod.split call.split progress.split)
  then show ?thesis
    by (cases ev) (auto simp: server_step_simps split: option.split)
qed

lemma panic_free_run:
  "panic_free env \<Longrightarrow> ss_lost (serve_tasks sem hs env evs s) = ss_lost s"
  unfolding serve_tasks_def by (induction evs arbitrary: s) (simp_all add: panic_free_step)

section \<open>Who is connected\<close>

text \<open>\<open>A\<close> are the streams that came in.\<close>

definition vouched ::
  "('st \<Rightarrow> ('t, 'i, 's, ('ws \<times> principal) option) ws_result) \<Rightarrow> 'st set \<Rightarrow> principal \<Rightarrow> bool" where
  "vouched hs A p \<longleftrightarrow> (\<exists>st \<in> A. \<exists>ws. hs st = Inr (Some (ws, p)))"

fun task_vouched ::
  "('st \<Rightarrow> ('t, 'i, 's, ('ws \<times> principal) option) ws_result) \<Rightarrow> 'st set \<Rightarrow> 'st task \<Rightarrow> bool" where
  "task_vouched hs A (Handshaking st _) \<longleftrightarrow> st \<in> A"
| "task_vouched hs A (Serving c p _) \<longleftrightarrow> vouched hs A p \<and> conn_principal c = p"
| "task_vouched hs A (Connecting c p) \<longleftrightarrow> vouched hs A p \<and> conn_principal c = p"
| "task_vouched hs A (Flushing c p) \<longleftrightarrow> vouched hs A p \<and> conn_principal c = p"
| "task_vouched hs A (Disconnecting c p) \<longleftrightarrow> vouched hs A p \<and> conn_principal c = p"

definition authentic ::
  "('st \<Rightarrow> ('t, 'i, 's, ('ws \<times> principal) option) ws_result) \<Rightarrow> 'st set
     \<Rightarrow> ('sem, 'st, ('ch, 'nt, 'z) world_scheme) server_state \<Rightarrow> bool" where
  "authentic hs A s \<longleftrightarrow>
     manager_ok (ss_world s) \<and> (\<forall>t \<in> set (ss_tasks s). task_vouched hs A t) \<and>
     (\<forall>c \<in> ran (connections (ss_world s)). vouched hs A (conn_principal c))"

definition arrives_in :: "'st set \<Rightarrow> ('st, 'c, 'f, 't, 'w) server_event \<Rightarrow> bool" where
  "arrives_in A ev = (case ev of Arrive st addr \<Rightarrow> st \<in> A | _ \<Rightarrow> True)"

lemma ran_upd_subset: "ran (m(k \<mapsto> v)) \<subseteq> insert v (ran m)" "ran (m(k := None)) \<subseteq> ran m"
  by (auto simp: ran_def)

lemma authentic_end:
  assumes "authentic hs A s" "manager_ok w" "\<forall>c \<in> ran (connections w). vouched hs A (conn_principal c)"
  shows "authentic hs A (end_task sem i (s\<lparr>ss_world := w, ss_lost := l\<rparr>))"
  using assms by (auto simp: authentic_def end_task_def dest: in_set_takeD in_set_dropD)

lemma authentic_set:
  assumes "authentic hs A s" "manager_ok w" "\<forall>c \<in> ran (connections w). vouched hs A (conn_principal c)"
    and "task_vouched hs A t"
  shows "authentic hs A (update_task i t w s)"
  using assms by (auto simp: authentic_def update_task_def dest: set_update_subset_insert [THEN subsetD])

text \<open>A step of a task that leaves the connections alone.\<close>

lemma authentic_panic:
  assumes "authentic hs A s" "manager_ok w" "\<forall>c \<in> ran (connections w). vouched hs A (conn_principal c)"
  shows "authentic hs A (panic_task sem i cid w s)"
  unfolding panic_task_def by (rule authentic_end [OF assms])

lemma authentic_handshake:
  assumes a: "authentic hs A s" and i: "i < length (ss_tasks s)" "ss_tasks s ! i = Handshaking st addr"
    and legal: "server_legal (HandshakeEnds i cid ref) s"
  shows "authentic hs A (task_step sem hs env i (HandshakeEnds i cid ref) s)"
proof -
  have m: "manager_ok (ss_world s)" and v: "\<forall>c \<in> ran (connections (ss_world s)). vouched hs A (conn_principal c)"
    and st: "st \<in> A"
    using a i nth_mem [OF i(1)] by (auto simp: authentic_def)
  have fresh: "cid \<notin> dom (connections (ss_world s))"
    "\<forall>d \<in> dom (connections (ss_world s)). conn_cell (the (connections (ss_world s) d)) \<noteq> ref"
    using legal by (auto simp: server_legal_def)
  have refused: "authentic hs A (end_task sem i s)"
    using authentic_end [OF a m v, of sem i "ss_lost s"] by simp
  have opened: "authentic hs A (case session_register env cid addr ref p (ss_world s) of
      Panics w \<Rightarrow> panic_task sem i cid w s | Returns c w \<Rightarrow> update_task i (Connecting c p) w s)"
    if p: "vouched hs A p" for p
  proof (cases "session_register env cid addr ref p (ss_world s)")
    case (Panics w)
    then show ?thesis
      using session_register_keeps [OF m fresh, where env = env and addr = addr and p = p] m v
      by (auto intro: authentic_panic [OF a])
  next
    case (Returns c w)
    then show ?thesis
      using session_register_keeps [OF m fresh, where env = env and addr = addr and p = p] v p ran_upd_subset(1)
      by (fastforce intro!: authentic_set [OF a])
  qed
  have "vouched hs A p" if "hs st = Inr (Some (ws, p))" for ws p
    using that st by (auto simp: vouched_def)
  then show ?thesis using refused opened by (auto simp: task_step_def i(2) split: sum.split option.split)
qed

lemma authentic_task_step:
  assumes a: "authentic hs A s" and i: "i < length (ss_tasks s)" "task_of_event ev = i"
    and h: "keeps_registrations (env_handler env)" "iterates (env_iter env)" and legal: "server_legal ev s"
  shows "authentic hs A (task_step sem hs env i ev s)"
proof -
  have m: "manager_ok (ss_world s)" and v: "\<forall>c \<in> ran (connections (ss_world s)). vouched hs A (conn_principal c)"
    and t: "task_vouched hs A (ss_tasks s ! i)"
    using a i nth_mem [OF i(1)] by (auto simp: authentic_def)
  from i(2) show ?thesis
  proof (cases rule: task_step_cases [of ev i s _ sem hs env])
    case (handshake st addr cid ref)
    show ?thesis unfolding handshake(2)
      by (rule authentic_handshake [OF a i(1) handshake(1)]) (use legal handshake in simp)
  next
    case (connect c p now)
    from session_connected_keeps [OF h(1) m, of c p] show ?thesis
      using t v connect
      by (cases "session_connected env c p (ss_world s)")
        (auto simp: task_step_def intro!: authentic_set [OF a] authentic_panic [OF a])
  next
    case (turn c p sn turn)
    then have "\<nexists>f. turn = Elsewhere f" using legal by (auto simp: server_legal_def)
    from turn_keeps_connections [OF h(1) m this, of c p sn] show ?thesis
      using t v turn
      by (cases "loop_turn env c p turn sn (ss_world s)")
        (auto simp: task_step_def intro!: authentic_set [OF a] authentic_panic [OF a])
  next
    case (flush c p flushed)
    then show ?thesis using t v m by (auto simp: task_step_def intro!: authentic_set [OF a])
  next
    case (disconnect c p)
    note k = teardown_disconnect_keeps [OF h(1) m h(2), of c p]
    show ?thesis
    proof (cases "teardown_disconnect env c p (ss_world s)")
      case (Panics w)
      then show ?thesis using k v by (auto simp: disconnect task_step_def intro!: authentic_panic [OF a])
    next
      case (Returns u w)
      then have "authentic hs A (end_task sem i (s\<lparr>ss_world := w, ss_lost := ss_lost s\<rparr>))"
        using k v ran_upd_subset(2) by (fastforce intro!: authentic_end [OF a])
      then show ?thesis using Returns by (simp add: disconnect task_step_def)
    qed
  next
    case none
    then show ?thesis using a by simp
  qed
qed

lemma authentic_step:
  assumes "authentic hs A s" and "well_behaved env \<and> arrives_in A ev \<and> server_legal ev s"
  shows "authentic hs A (server_step sem hs env ev s)"
proof (cases ev)
  case (Arrive st addr)
  then show ?thesis using assms by (auto simp: server_step_simps authentic_def arrives_in_def split: option.split)
next
  case (OtherTask f)
  then show ?thesis
    using assms by (auto simp: server_step_simps server_legal_def keeps_connections_def authentic_def)
next
  case AcceptFails
  then show ?thesis using assms(1) by (simp add: server_step_simps)
next
  case (HandshakeEnds i cid ref)
  show ?thesis
    using authentic_task_step [of hs A s i ev env sem] assms
    unfolding HandshakeEnds by (simp add: server_step_simps well_behaved_def)
next
  case (ConnectReturns i now)
  show ?thesis
    using authentic_task_step [of hs A s i ev env sem] assms
    unfolding ConnectReturns by (simp add: server_step_simps well_behaved_def)
next
  case (TurnOf i turn)
  show ?thesis
    using authentic_task_step [of hs A s i ev env sem] assms
    unfolding TurnOf by (simp add: server_step_simps well_behaved_def)
next
  case (WriterEnds i flushed)
  show ?thesis
    using authentic_task_step [of hs A s i ev env sem] assms
    unfolding WriterEnds by (simp add: server_step_simps well_behaved_def)
next
  case (DisconnectReturns i)
  show ?thesis
    using authentic_task_step [of hs A s i ev env sem] assms
    unfolding DisconnectReturns by (simp add: server_step_simps well_behaved_def)
qed

interpretation vouching: machine "\<lambda>ev s. well_behaved env \<and> arrives_in A ev \<and> server_legal ev s"
    "server_step sem hs env" "authentic hs A" for sem hs env A
  by unfold_locales (rule authentic_step)

lemma legal_ops_both:
  "list_all Q ops \<Longrightarrow> legal_ops ok step ops s \<Longrightarrow> legal_ops (\<lambda>op s. Q op \<and> ok op s) step ops s"
  by (induction ops arbitrary: s) simp_all

end
