(* ===== verification/Ws_Lobby.thy ===== *)
theory Ws_Lobby imports Ws_Server begin

text \<open>
  Handlers that work on the rooms of a server through the operations of its room manager, and one of
  them: a lobby, which every connection joins and whose members get what one of them says.
\<close>

section \<open>Handlers that act on the room manager\<close>

fun registers :: "manager_op \<Rightarrow> bool" where
  "registers (Register _) = True"
| "registers (Unregister _) = True"
| "registers _ = False"

definition acting ::
  "('ch, 'nt) runtime \<Rightarrow> iteration \<Rightarrow> manager_op list \<Rightarrow> ('ch, 'nt, 'z) world_scheme
     \<Rightarrow> (unit, ('ch, 'nt, 'z) world_scheme) call" where
  "acting rt iter ops w = Returns () (run_ops (manager_step rt iter) ops w)"

definition room_handler ::
  "('ch, 'nt) runtime \<Rightarrow> iteration \<Rightarrow> (string \<Rightarrow> principal \<Rightarrow> ('ch, 'nt, 'z) world_scheme \<Rightarrow> manager_op list)
     \<Rightarrow> (string \<Rightarrow> principal \<Rightarrow> message \<Rightarrow> ('ch, 'nt, 'z) world_scheme \<Rightarrow> manager_op list)
     \<Rightarrow> (string \<Rightarrow> principal \<Rightarrow> ('ch, 'nt, 'z) world_scheme \<Rightarrow> manager_op list)
     \<Rightarrow> ('t, 'i, 's, ('ch, 'nt, 'z) world_scheme) handler" where
  "room_handler rt iter connect message disconnect =
     \<lparr>on_connect = (\<lambda>cid p w. acting rt iter (connect cid p w) w),
      on_message = (\<lambda>cid p m w. acting rt iter (message cid p m w) w),
      on_disconnect = (\<lambda>cid p w. acting rt iter (disconnect cid p w) w),
      on_error = default_on_error (\<lambda>_ w. w), on_ping = default_on_ping, on_pong = default_on_pong\<rparr>"

text \<open>As long as it registers and unregisters nobody, such a handler keeps its contract with the server.\<close>

lemma connections_update_indexes:
  "connections (fold (\<lambda>mid. update_index mid f) mids w) = connections w"
  by (induction mids arbitrary: w) simp_all

lemma manager_step_keeps:
  assumes "manager_ok w" "iterates iter" "\<not> registers op"
  shows "manager_ok (manager_step rt iter op w) \<and> connections (manager_step rt iter op w) = connections w"
proof -
  have "manager_permitted iter op w" using assms(2,3) by (cases op) (simp_all add: manager_permitted_def)
  then have "manager_ok (manager_step rt iter op w)" using assms(1) by (simp add: manager_step_refines)
  moreover have "connections (manager_step rt iter op w) = connections w"
    using assms(3)
    by (cases op) (simp_all add: join_room_def leave_room_def delete_room_def connections_update_indexes
        broadcast_fan_outs Let_def case_prod_unfold split: option.split)
  ultimately show ?thesis by simp
qed

lemma acting_keeps:
  assumes "iterates iter" "list_all (\<lambda>op. \<not> registers op) ops" "manager_ok w \<and> connections w = D"
  shows "manager_ok (call_state (acting rt iter ops w)) \<and> connections (call_state (acting rt iter ops w)) = D"
  using assms(2,3)
proof (induction ops arbitrary: w)
  case Nil
  then show ?case by (simp add: acting_def)
next
  case (Cons op ops)
  then have "manager_ok (manager_step rt iter op w) \<and> connections (manager_step rt iter op w) = D"
    using manager_step_keeps [OF _ assms(1), of w op rt] by simp
  from Cons.IH [OF _ this] Cons.prems(1) show ?case by (simp add: acting_def)
qed

lemma room_handler_keeps:
  assumes "iterates iter"
    and "\<And>cid p w. list_all (\<lambda>op. \<not> registers op) (connect cid p w)"
    and "\<And>cid p m w. list_all (\<lambda>op. \<not> registers op) (message cid p m w)"
    and "\<And>cid p w. list_all (\<lambda>op. \<not> registers op) (disconnect cid p w)"
  shows "keeps_registrations (room_handler rt iter connect message disconnect)"
  unfolding keeps_registrations_def
proof
  fix D
  show "handler_contract (room_handler rt iter connect message disconnect)
      (\<lambda>w. manager_ok w \<and> connections w = D)"
    by unfold_locales
      (use acting_keeps [OF assms(1,2)] acting_keeps [OF assms(1,3)] acting_keeps [OF assms(1,4)] in
        \<open>simp_all add: room_handler_def default_on_error_def default_on_ping_def default_on_pong_def\<close>)
qed

section \<open>The lobby\<close>

definition lobby :: "('ch, 'nt) runtime \<Rightarrow> iteration \<Rightarrow> ('t, 'i, 's, ('ch, 'nt, 'z) world_scheme) handler" where
  "lobby rt iter =
     room_handler rt iter (\<lambda>cid p w. [Join cid ''lobby'']) (\<lambda>cid p m w. [BroadcastExcept ''lobby'' m cid])
       (\<lambda>cid p w. [Leave cid ''lobby''])"

lemma lobby_keeps: "iterates iter \<Longrightarrow> keeps_registrations (lobby rt iter)"
  unfolding lobby_def by (rule room_handler_keeps) simp_all

lemmas lobby_evals = lobby_def room_handler_def acting_def

end
