(* ===== verification/Ws_Server_Props.thy ===== *)
theory Ws_Server_Props imports Ws_Lobby begin

text \<open>
  What holds of a whole server: every connection in the room manager belongs to a running task and
  has an authorized principal, however many tasks run and in whatever order they take their steps;
  and a connection served alone is \<open>handle_connection\<close>.  A server whose heartbeat interval tokio refuses
  leaks every connection.
\<close>

section \<open>One connection alone\<close>

lemma turns_idle:
  assumes "ss_tasks s = [] \<or> (\<exists>c p. ss_tasks s = [Flushing c p])"
  shows "run_ops (server_step sem hs env) (map (TurnOf 0) evs) s = s"
proof (induction evs)
  case (Cons ev evs)
  have "server_step sem hs env (TurnOf 0 ev) s = s"
    using assms by (auto simp: server_step_simps task_step_def)
  then show ?case using Cons.IH by simp
qed simp

lemma turns_read_loop:
  "run_ops (server_step sem hs env) (map (TurnOf 0) evs)
     \<lparr>ss_slots = slots, ss_tasks = [Serving c p sn], ss_world = w, ss_lost = []\<rparr> =
   (case read_loop env c p evs sn w of
      Looping sn1 w1 \<Rightarrow> \<lparr>ss_slots = slots, ss_tasks = [Serving c p sn1], ss_world = w1, ss_lost = []\<rparr>
    | Stopped _ w1 \<Rightarrow>
        \<lparr>ss_slots = slots, ss_tasks = [Flushing c p], ss_world = teardown_close env c w1, ss_lost = []\<rparr>
    | Crashed w1 \<Rightarrow>
        \<lparr>ss_slots = sem_release sem slots, ss_tasks = [], ss_world = w1, ss_lost = [conn_id c]\<rparr>)"
proof (induction evs arbitrary: sn w)
  case Nil
  then show ?case by simp
next
  case (Cons ev evs)
  show ?case
    by (cases "loop_turn env c p ev sn w")
      (simp_all add: server_step_simps task_step_def update_task_def end_task_def panic_task_def turns_idle Cons.IH)
qed

definition alone_events :: "'st \<Rightarrow> socket_addr \<Rightarrow> string \<Rightarrow> nat \<Rightarrow> instant \<Rightarrow> ('c, 'f, 't, 'w) event list \<Rightarrow> bool
    \<Rightarrow> ('st, 'c, 'f, 't, 'w) server_event list" where
  "alone_events st addr cid ref now evs flushed =
     Arrive st addr # HandshakeEnds 0 cid ref # ConnectReturns 0 now # map (TurnOf 0) evs @ [WriterEnds 0 flushed, DisconnectReturns 0]"

lemma alone_refused:
  assumes "\<nexists>ws p. hs st = Inr (Some (ws, p))"
  shows "run_ops (server_step sem hs env) (HandshakeEnds 0 cid ref # ConnectReturns 0 now # map (TurnOf 0) evs @ [WriterEnds 0 flushed, DisconnectReturns 0])
      \<lparr>ss_slots = slots, ss_tasks = [Handshaking st addr], ss_world = w, ss_lost = []\<rparr> =
    \<lparr>ss_slots = sem_release sem slots, ss_tasks = [], ss_world = w, ss_lost = []\<rparr>"
  using assms
  by (cases "hs st")
    (auto simp: server_step_simps task_step_def end_task_def run_ops_append turns_idle split: option.split)

lemma alone_session:
  assumes "hs st = Inr (Some (ws, p))"
  shows "run_ops (server_step sem hs env) (HandshakeEnds 0 cid ref # ConnectReturns 0 now # map (TurnOf 0) evs @ [WriterEnds 0 flushed, DisconnectReturns 0])
      \<lparr>ss_slots = slots, ss_tasks = [Handshaking st addr], ss_world = w, ss_lost = []\<rparr> =
    (case run_session env cid addr ref p now evs (\<lambda>w. w) flushed w
        :: (('t, 'i, 's, unit) ws_result, _) session_end of
       Running sn w1 \<Rightarrow>
         \<lparr>ss_slots = slots, ss_tasks =
            [Serving \<lparr>conn_id = cid, remote_addr = Some addr, conn_principal = p, conn_cell = ref\<rparr> p sn],
          ss_world = w1, ss_lost = []\<rparr>
     | Ended _ w1 \<Rightarrow> \<lparr>ss_slots = sem_release sem slots, ss_tasks = [], ss_world = w1, ss_lost = []\<rparr>
     | Aborted w1 \<Rightarrow> \<lparr>ss_slots = sem_release sem slots, ss_tasks = [], ss_world = w1, ss_lost = [cid]\<rparr>)"
proof (cases "session_register env cid addr ref p w")
  case (Panics w1)
  then show ?thesis
    by (simp add: run_session_def server_step_simps task_step_def assms end_task_def panic_task_def
        run_ops_append turns_idle)
next
  case registered: (Returns c w1)
  then have c: "c = \<lparr>conn_id = cid, remote_addr = Some addr, conn_principal = p, conn_cell = ref\<rparr>"
    by (simp add: session_register_def connection_new_def Let_def split: if_splits)
  show ?thesis
  proof (cases "session_connected env c p w1")
    case (Panics w2)
    then show ?thesis
      by (simp add: registered run_session_def server_step_simps task_step_def assms end_task_def panic_task_def
          update_task_def run_ops_append turns_idle c)
  next
    case (Returns u w2)
    then show ?thesis
      by (cases "read_loop env c p evs (session_start now) w2")
        (simp_all add: registered run_session_def server_step_simps task_step_def assms update_task_def
          end_task_def panic_task_def run_ops_append turns_read_loop teardown_def c split: call.split)
  qed
qed

section \<open>Counting connections\<close>

lemma build_server:
  assumes "fst (build max_permits sem cls b h
      :: ('t, 'i, 's, ('ch, 'nt, 'req, 'h, 'sem) server) ws_result outcome \<times> _) = Returned (Inr sv)"
  shows "sv_handler sv = h" "sv_manager sv = world_new cls"
  using assms by (auto simp: build_def from_parts_def ok_or_def Let_def split: option.splits sum.splits)

lemma task_ids_length: "length (task_ids ts) \<le> length ts"
proof (induction ts)
  case (Cons t ts)
  then show ?case by (cases t) simp_all
qed simp

lemma server_inv_count:
  assumes "server_inv available n s"
  shows "connection_count (ss_world s) \<le> length (ss_tasks s) + length (ss_lost s)"
proof -
  have "card (dom (connections (ss_world s))) \<le> card (set (task_ids (ss_tasks s)) \<union> set (ss_lost s))"
    using assms by (intro card_mono) (auto simp: server_inv_def)
  also have "\<dots> \<le> length (task_ids (ss_tasks s)) + length (ss_lost s)"
    by (rule order_trans [OF card_Un_le add_mono]) (rule card_length)+
  finally show ?thesis using task_ids_length [of "ss_tasks s"] by (simp add: connection_count_def)
qed

lemma run_server_inv:
  assumes "counting_semaphore sem max_permits available"
    and "fst (build max_permits sem cls b h
      :: ('t, 'i, 's, ('ch, 'nt, 'req, ('t, 'i, 's, ('ch, 'nt) world) handler, 'sem) server) ws_result outcome \<times> _)
      = Returned (Inr sv)"
    and "keeps_registrations h" and "iterates (env_iter env)"
    and "server_schedule sem api accept is_http wca sv env evs"
  shows "server_inv available (unat (max_connections (sv_config sv)))
    (run_server sem api accept is_http wca sv env evs)"
proof -
  have "well_behaved (server_env sv env)"
    using assms(3,4) build_server(1) [OF assms(2)] by (simp add: well_behaved_def server_env_def)
  then show ?thesis
    using counting_semaphore.serve_tasks_inv [OF assms(1) counting_semaphore.server_start_inv [OF assms(1,2)]]
      assms(5)
    unfolding run_server_def server_schedule_def by blast
qed

section \<open>Tasks that cannot get past their start\<close>

text \<open>A server for whose heartbeat interval tokio's \<open>interval\<close> panics.\<close>

definition starts_nobody :: "('ch, 'nt, 't, 'i, 's, ('ch, 'nt, 'z) world_scheme) session_env \<Rightarrow> bool" where
  "starts_nobody env \<longleftrightarrow> well_behaved env \<and>
     \<not> interval_ok (env_time env) (heartbeat_interval (env_config env)) \<and>
     env_channel_ok env (outbound_queue_capacity (env_config env))"

fun not_serving :: "'st task \<Rightarrow> bool" where
  "not_serving (Handshaking _ _) = True"
| "not_serving (Connecting _ _) = True"
| "not_serving _ = False"

lemma not_serving_iff:
  "not_serving t \<longleftrightarrow> (\<exists>st addr. t = Handshaking st addr) \<or> (\<exists>c p. t = task.Connecting c p)"
  by (cases t) auto

text \<open>
  Besides what every server keeps: no task has got to its read loop, each lost connection is still
  registered and counted once, and so are those of \<open>D\<close>, registered earlier.
\<close>

definition stuck_inv ::
  "('sem \<Rightarrow> nat) \<Rightarrow> nat \<Rightarrow> (string \<Rightarrow> connection option)
     \<Rightarrow> ('sem, 'st, ('ch, 'nt, 'z) world_scheme) server_state \<Rightarrow> bool" where
  "stuck_inv available n D s \<longleftrightarrow> server_inv available n s \<and> list_all not_serving (ss_tasks s) \<and>
     distinct (ss_lost s) \<and> set (ss_lost s) \<subseteq> dom (connections (ss_world s)) \<and>
     set (ss_lost s) \<inter> set (task_ids (ss_tasks s)) = {} \<and> D \<subseteq>\<^sub>m connections (ss_world s)"

lemma starts_nobody_connected:
  assumes "starts_nobody env"
  shows "session_connected env c p w = Panics (call_state (on_connect (env_handler env) (conn_id c) p w))"
  using assms by (cases "on_connect (env_handler env) (conn_id c) p w")
    (simp_all add: starts_nobody_def session_connected_def)

lemma starts_nobody_registers: "starts_nobody env \<Longrightarrow> session_register env cid addr ref p w \<noteq> Panics v"
  by (simp add: starts_nobody_def session_register_def split: prod.split)

text \<open>The tasks around the one at \<open>i\<close>.\<close>

lemma task_ids_around:
  assumes "i < length ts"
  obtains xs ys where "take i ts = xs" "drop (Suc i) ts = ys" "\<And>t. ts[i := t] = xs @ t # ys"
    "task_ids ts = task_ids xs @ task_id (ts ! i) @ task_ids ys" "set xs \<union> set ys \<subseteq> set ts"
proof -
  obtain xs ys where ts: "ts = xs @ ts ! i # ys" "take i ts = xs" "drop (Suc i) ts = ys"
    "\<And>t. ts[i := t] = xs @ t # ys" using task_split [OF assms] by metis
  have "task_ids ts = task_ids xs @ task_id (ts ! i) @ task_ids ys" by (subst ts(1)) simp
  moreover have "set xs \<union> set ys \<subseteq> set ts" using set_take_subset [of i ts] set_drop_subset [of "Suc i" ts] ts(2,3) by auto
  ultimately show ?thesis using that ts(2-4) by blast
qed

lemma stuck_handshake:
  assumes inv: "stuck_inv available n D s" "server_inv available n (task_step sem hs env i ev s)"
    and env: "starts_nobody env" and i: "i < length (ss_tasks s)" "ss_tasks s ! i = Handshaking st addr"
    and legal: "server_legal ev s" and ev: "ev = HandshakeEnds i cid ref"
  shows "stuck_inv available n D (task_step sem hs env i ev s)"
proof -
  obtain xs ys where ts: "take i (ss_tasks s) = xs" "drop (Suc i) (ss_tasks s) = ys"
    "\<And>t. (ss_tasks s)[i := t] = xs @ t # ys" "task_ids (ss_tasks s) = task_ids xs @ task_ids ys"
    "set xs \<union> set ys \<subseteq> set (ss_tasks s)"
    using task_ids_around [OF i(1)] i(2) by (metis append_Nil task_id.simps(1))
  have tasks: "list_all not_serving xs" "list_all not_serving ys"
    using inv(1) ts(5) by (auto simp: stuck_inv_def list_all_iff)
  have m: "manager_ok (ss_world s)" and fresh: "cid \<notin> dom (connections (ss_world s))"
    "\<forall>d \<in> dom (connections (ss_world s)). conn_cell (the (connections (ss_world s) d)) \<noteq> ref"
    using inv(1) legal by (auto simp: stuck_inv_def server_inv_def server_legal_def ev)
  show ?thesis
  proof (cases "\<exists>ws p. hs st = Inr (Some (ws, p))")
    case False
    then have "task_step sem hs env i ev s = end_task sem i s"
      by (auto simp: task_step_def i(2) ev split: sum.split option.split)
    then show ?thesis using inv tasks ts(1,2,4) by (auto simp: stuck_inv_def end_task_def)
  next
    case True
    then obtain ws p where hs: "hs st = Inr (Some (ws, p))" by blast
    obtain c w where reg: "session_register env cid addr ref p (ss_world s) = Returns c w"
      using starts_nobody_registers [OF env, of cid addr ref p "ss_world s"]
      by (cases "session_register env cid addr ref p (ss_world s)") auto
    then have c: "conn_id c = cid" "connections w = (connections (ss_world s))(cid \<mapsto> c)"
      using session_register_keeps [OF m fresh, where env = env and addr = addr and p = p] by simp_all
    have step: "task_step sem hs env i ev s = update_task i (Connecting c p) w s"
      using reg hs by (simp add: task_step_def i(2) ev)
    have "D \<subseteq>\<^sub>m connections w"
    proof (unfold c(2), unfold map_le_def, intro ballI)
      fix d assume d: "d \<in> dom D"
      then have "D d = connections (ss_world s) d" using inv(1) by (auto simp: stuck_inv_def map_le_def)
      moreover from this have "d \<noteq> cid" using d fresh(1) by (metis domIff)
      ultimately show "D d = ((connections (ss_world s))(cid \<mapsto> c)) d" by simp
    qed
    then show ?thesis
      using inv fresh(1) tasks ts(3,4) c unfolding step
      by (auto simp: stuck_inv_def update_task_def)
  qed
qed

lemma stuck_connect:
  assumes inv: "stuck_inv available n D s" "server_inv available n (task_step sem hs env i ev s)"
    and env: "starts_nobody env" and i: "i < length (ss_tasks s)" "ss_tasks s ! i = Connecting c p"
    and ev: "ev = ConnectReturns i now"
  shows "stuck_inv available n D (task_step sem hs env i ev s)"
proof -
  obtain xs ys where ts: "take i (ss_tasks s) = xs" "drop (Suc i) (ss_tasks s) = ys"
    "task_ids (ss_tasks s) = task_ids xs @ conn_id c # task_ids ys" "set xs \<union> set ys \<subseteq> set (ss_tasks s)"
    using task_ids_around [OF i(1)] i(2) by (metis append_Cons append_Nil task_id.simps(3))
  define w where "w = call_state (on_connect (env_handler env) (conn_id c) p (ss_world s))"
  have m: "manager_ok (ss_world s)" using inv(1) by (simp add: stuck_inv_def server_inv_def)
  have w: "connections w = connections (ss_world s)"
    using session_connected_keeps [OF _ m, of env c p] env
    by (simp add: starts_nobody_connected [OF env] w_def [symmetric]) (simp add: starts_nobody_def well_behaved_def)
  have step: "task_step sem hs env i ev s = panic_task sem i (conn_id c) w s"
    by (simp add: task_step_def i(2) ev starts_nobody_connected [OF env] w_def)
  have "distinct (task_ids (ss_tasks s))" "set (task_ids (ss_tasks s)) \<subseteq> dom (connections (ss_world s))"
    using inv(1) by (simp_all add: stuck_inv_def server_inv_def)
  moreover have "list_all not_serving xs" "list_all not_serving ys"
    using inv(1) ts(4) by (auto simp: stuck_inv_def list_all_iff)
  ultimately show ?thesis
    using inv ts(1-3) w unfolding step by (auto simp: stuck_inv_def panic_task_def end_task_def)
qed

context counting_semaphore begin

lemma stuck_step:
  assumes inv: "stuck_inv available n D s" and env: "starts_nobody env" and legal: "server_legal ev s"
  shows "stuck_inv available n D (server_step sem hs env ev s)"
proof -
  have server: "server_inv available n (server_step sem hs env ev s)"
    using inv env legal by (intro server_step_inv) (simp_all add: stuck_inv_def starts_nobody_def well_behaved_def)
  have task: "stuck_inv available n D (task_step sem hs env i ev s)"
    if "i < length (ss_tasks s)" "task_of_event ev = i" "server_inv available n (task_step sem hs env i ev s)" for i
  proof -
    have waiting: "not_serving (ss_tasks s ! i)" using inv that(1) by (simp add: stuck_inv_def list_all_length)
    from that(2) show ?thesis
    proof (cases rule: task_step_cases [of ev i s _ sem hs env])
      case (handshake st addr cid ref)
      show ?thesis by (rule stuck_handshake [OF inv that(3) env that(1) handshake(1) legal handshake(2)])
    next
      case (connect c p now)
      show ?thesis by (rule stuck_connect [OF inv that(3) env that(1) connect])
    qed (use inv waiting in simp_all)
  qed
  show ?thesis
  proof (cases ev)
    case (Arrive st addr)
    then show ?thesis using inv server by (auto simp: server_step_simps stuck_inv_def split: option.splits)
  next
    case (OtherTask f)
    then show ?thesis using inv server legal
      by (auto simp: server_step_simps stuck_inv_def server_legal_def keeps_connections_def server_inv_def)
  next
    case AcceptFails
    then show ?thesis using inv by (simp add: server_step_simps)
  qed (use task [OF _ refl] inv server in \<open>auto simp: server_step_simps split: if_splits\<close>)
qed

end

sublocale counting_semaphore \<subseteq> stuck: machine "\<lambda>ev s. starts_nobody env \<and> server_legal ev s"
    "server_step sem hs env" "stuck_inv available n D" for hs env n D
  by unfold_locales (blast intro: stuck_step)

context counting_semaphore begin

lemma stuck_run:
  assumes "stuck_inv available n D s" "starts_nobody env" "legal_ops server_legal (server_step sem hs env) evs s"
  shows "stuck_inv available n D (run_ops (server_step sem hs env) evs s)"
  by (rule stuck.run_inv [OF assms(1) legal_ops_conj [OF assms(2,3)]])

end

lemma legal_ops_append:
  "legal_ops ok step (xs @ ys) s \<longleftrightarrow> legal_ops ok step xs s \<and> legal_ops ok step ys (run_ops step xs s)"
  by (induction xs arbitrary: s) simp_all

lemma stuck_inv_count:
  assumes "stuck_inv available n D s"
  shows "connection_count (ss_world s) = length (task_ids (ss_tasks s)) + length (ss_lost s)"
proof -
  have "dom (connections (ss_world s)) = set (task_ids (ss_tasks s)) \<union> set (ss_lost s)"
    and d: "distinct (task_ids (ss_tasks s))" "distinct (ss_lost s)"
    and "set (task_ids (ss_tasks s)) \<inter> set (ss_lost s) = {}"
    using assms by (auto simp: stuck_inv_def server_inv_def)
  then show ?thesis
    by (simp add: connection_count_def card_Un_disjoint distinct_card [OF d(1)] distinct_card [OF d(2)])
qed

lemma build_zero_heartbeat:
  assumes "fst (build max_permits sem cls b h
      :: ('t, 'i, 's, ('ch, 'nt, 'req, 'h, 'sem) server) ws_result outcome \<times> _) = Returned (Inr sv)"
  shows "fst (build max_permits sem cls (builder_heartbeat_interval 0 b) h
      :: ('t, 'i, 's, ('ch, 'nt, 'req, 'h, 'sem) server) ws_result outcome \<times> _)
    = Returned (Inr (sv\<lparr>sv_config := (sv_config sv)\<lparr>heartbeat_interval := 0\<rparr>\<rparr>))"
  using assms
  by (auto simp: build_def from_parts_def ok_or_def builder_heartbeat_interval_def validate_def invalid_config_def Let_def
      split: option.splits sum.splits if_splits)

section \<open>A small server at work\<close>

text \<open>
  Two slots and three streams: the second never finishes its handshake, the third finds no slot; the
  first is served.
\<close>

type_synonym sample_event = "(string list option, unit, unit, http_response option, (fifo, bool) world) server_event"

definition sample_arrivals :: "sample_event list" where
  "sample_arrivals =
     [Arrive (Some []) sample_addr, Arrive None sample_addr, Arrive (Some []) sample_addr,
      HandshakeEnds 1 ''x'' 1, HandshakeEnds 0 ''c'' 0, ConnectReturns 0 0]"

abbreviation small_sv ::
  "(fifo, bool, string list, (http_response option, unit, unit, (fifo, bool) world) handler, nat) server" where
  "small_sv \<equiv> small_server quiet_handler"

abbreviation small_run :: "sample_event list \<Rightarrow> (nat, string list option, (fifo, bool) world) server_state" where
  "small_run \<equiv> run_server (counter sample_permits) sample_http plain_accept (\<lambda>e. \<not> Option.is_none e) sample_wc
     small_sv (sample_env quiet_handler)"

abbreviation small_schedule :: "sample_event list \<Rightarrow> bool" where
  "small_schedule \<equiv> server_schedule (counter sample_permits) sample_http plain_accept (\<lambda>e. \<not> Option.is_none e) sample_wc
     small_sv (sample_env quiet_handler)"

lemmas server_evals = run_server_def server_schedule_def serve_tasks_def server_start_def server_step_simps
  small_server_def counter_def server_handshake_def server_env_def task_step_def handshake_def plain_accept_def
  handshake_callback_def admit_no_origin sample_http_def end_task_def update_task_def session_evals
  handler_evals sample_arrivals_def server_legal_def world_new_def

lemma small_arrivals:
  "small_schedule sample_arrivals" "ss_lost (small_run sample_arrivals) = []"
  "connections (ss_world (small_run sample_arrivals)) = [''c'' \<mapsto>
     \<lparr>conn_id = ''c'', remote_addr = Some sample_addr, conn_principal = principal_anonymous, conn_cell = 0\<rparr>]"
  by (simp_all add: server_evals)

lemma small_handler: "keeps_registrations (quiet_handler :: ('t, 'i, 's, ('ch, 'nt, 'z) world_scheme) handler)"
  unfolding keeps_registrations_def quiet_handler_def
  by (intro allI logging_handler_contract) simp_all

lemma small_limit: "unat (max_connections (sv_config small_sv)) = 2" "sv_authorizer small_sv = AllowAnonymous"
  by (simp_all add: small_server_def)

lemma small_iterates: "iterates (env_iter (sample_env h))"
  by (simp add: sample_env_def iterates_by_id)

section \<open>Properties\<close>

text \<open>
  C13. A connection that a server serves alone is \<open>handle_connection\<close>: cut into its steps, from the
  accepted stream over the handshake and the turns of the read loop to the end of its writer, the
  task leaves the same rooms, connections and queues, and it gives its slot back exactly when
  \<open>handle_connection\<close> returned or panicked.
\<close>

theorem lone_connection:
  fixes accept :: "('st, 'req, 'resp, 'wc, 'ws, 't) acceptor"
  assumes "sem_try_acquire sem slots = Some slots'"
  shows "let s = serve_tasks sem
          (\<lambda>st. handshake api accept is_http wca st auth (env_config env)
             :: ('t, 'i, 's, ('ws \<times> principal) option) ws_result)
          env (alone_events st addr cid ref now evs flushed)
          \<lparr>ss_slots = slots, ss_tasks = [], ss_world = w, ss_lost = []\<rparr>
    in case handle_connection api accept is_http wca auth env st addr cid ref now evs (\<lambda>w. w) flushed w
          :: (('t, 'i, 's, unit) ws_result, _) session_end of
         Running sn w1 \<Rightarrow> ss_slots s = slots' \<and> ss_world s = w1 \<and> ss_lost s = [] \<and>
           (\<exists>c p. ss_tasks s = [Serving c p sn] \<and> conn_id c = cid)
       | Ended _ w1 \<Rightarrow> s = \<lparr>ss_slots = sem_release sem slots', ss_tasks = [], ss_world = w1, ss_lost = []\<rparr>
       | Aborted w1 \<Rightarrow> s = \<lparr>ss_slots = sem_release sem slots', ss_tasks = [], ss_world = w1, ss_lost = [cid]\<rparr>"
proof -
  let ?hs = "\<lambda>st. handshake api accept is_http wca st auth (env_config env)
     :: ('t, 'i, 's, ('ws \<times> principal) option) ws_result"
  let ?rest = "HandshakeEnds 0 cid ref # ConnectReturns 0 now # map (TurnOf 0) evs @ [WriterEnds 0 flushed, DisconnectReturns 0]"
  let ?s = "\<lparr>ss_slots = slots', ss_tasks = [Handshaking st addr], ss_world = w, ss_lost = []\<rparr>"
  have start: "serve_tasks sem ?hs env (alone_events st addr cid ref now evs flushed)
      \<lparr>ss_slots = slots, ss_tasks = [], ss_world = w, ss_lost = []\<rparr> = run_ops (server_step sem ?hs env) ?rest ?s"
    by (simp add: serve_tasks_def alone_events_def server_step_simps assms)
  show ?thesis
  proof (cases "\<exists>ws p. ?hs st = Inr (Some (ws, p))")
    case True
    then obtain ws p where hs: "?hs st = Inr (Some (ws, p))" by blast
    show ?thesis
      unfolding start Let_def alone_session [of ?hs, OF hs]
      by (simp add: handle_connection_def hs split: session_end.split)
  next
    case False
    have "handle_connection api accept is_http wca auth env st addr cid ref now evs (\<lambda>w. w) flushed w =
        Ended (case ?hs st of Inl e \<Rightarrow> Inl e | Inr _ \<Rightarrow> Inr ()) w"
      using False by (auto simp: handle_connection_def split: sum.split option.split)
    then show ?thesis
      unfolding start Let_def alone_refused [of ?hs, OF False] by simp
  qed
qed

theorem lone_connection_witness:
  "ss_tasks (serve_tasks (counter sample_permits)
     (\<lambda>st. handshake sample_http plain_accept (\<lambda>e. e \<noteq> None) sample_wc st AllowAnonymous server_config_default
        :: (http_response option, unit, unit, (string list \<times> principal) option) ws_result)
     (sample_env (quiet_handler :: (http_response option, unit, unit, (fifo, bool) world) handler))
     (alone_events (Some []) sample_addr ''c'' 0 0
        ([Tick, ReadNext 1 None] :: (unit, unit, http_response option, (fifo, bool) world) event list) True)
     \<lparr>ss_slots = 2, ss_tasks = [], ss_world = world_new sample_cells, ss_lost = []\<rparr>) = []"
proof -
  let ?env = "sample_env (quiet_handler :: (http_response option, unit, unit, (fifo, bool) world) handler)"
  let ?evs = "[Tick, ReadNext 1 None] :: (unit, unit, http_response option, (fifo, bool) world) event list"
  have acq: "sem_try_acquire (counter sample_permits) 2 = Some 1" by (simp add: counter_def)
  have env: "env_config ?env = server_config_default" by (simp add: sample_env_def)
  have "\<exists>r w1. (handle_connection sample_http plain_accept (\<lambda>e. e \<noteq> None) sample_wc AllowAnonymous ?env (Some [])
      sample_addr ''c'' 0 0 ?evs (\<lambda>w. w) True (world_new sample_cells)
      :: ((http_response option, unit, unit, unit) ws_result, _) session_end) = Ended r w1"
    by (simp add: handle_connection_def handshake_def plain_accept_def handshake_callback_def admit_no_origin
        sample_http_def session_evals handler_evals)
  then show ?thesis
    using lone_connection [OF acq, where accept = plain_accept and env = ?env and st = "Some []" and evs = ?evs
        and addr = sample_addr and cid = "''c''" and ref = 0 and now = 0 and flushed = True
        and api = sample_http and is_http = "\<lambda>e. e \<noteq> None" and wca = sample_wc and auth = AllowAnonymous
        and w = "world_new sample_cells"]
    by (auto simp: Let_def env)
qed

text \<open>
  C12. At every moment of a server's run, whatever comes in and however the steps of its tasks
  interleave: the tasks are at most as many as the configured connections and the semaphore has the
  rest of the permits, so that the next stream is turned away exactly when that many run; the
  connections of running tasks are registered; and a registered connection belongs to a running
  task, or to one that panicked, so the room manager has at most \<open>max_connections\<close> connections and
  one for each panic.
\<close>

theorem server_accounts:
  assumes "counting_semaphore sem max_permits available"
    and "fst (build max_permits sem cls b h
      :: ('t, 'i, 's, ('ch, 'nt, 'req, ('t, 'i, 's, ('ch, 'nt) world) handler, 'sem) server) ws_result outcome \<times> _)
      = Returned (Inr sv)"
    and "keeps_registrations h" and "iterates (env_iter env)"
    and "server_schedule sem api accept is_http wca sv env evs"
  shows "let s = run_server sem api accept is_http wca sv env evs;
      n = unat (max_connections (sv_config sv)); w = ss_world s
    in length (ss_tasks s) \<le> n \<and> available (ss_slots s) = n - length (ss_tasks s) \<and> manager_ok w \<and>
      set (task_ids (ss_tasks s)) \<subseteq> dom (connections w) \<and>
      dom (connections w) \<subseteq> set (task_ids (ss_tasks s)) \<union> set (ss_lost s) \<and>
      connection_count w \<le> n + length (ss_lost s) \<and>
      ss_tasks (run_server sem api accept is_http wca sv env (evs @ [Arrive st addr])) =
        (if length (ss_tasks s) = n then ss_tasks s else ss_tasks s @ [Handshaking st addr])"
proof -
  let ?s = "run_server sem api accept is_http wca sv env evs"
  note inv = run_server_inv [OF assms]
  have "ss_tasks (run_server sem api accept is_http wca sv env (evs @ [Arrive st addr])) =
      (case sem_try_acquire sem (ss_slots ?s) of
         None \<Rightarrow> ss_tasks ?s | Some _ \<Rightarrow> ss_tasks ?s @ [Handshaking st addr])"
    by (simp add: run_server_def serve_tasks_def run_ops_append server_step_simps split: option.split)
  then show ?thesis
    using inv server_inv_count [OF inv]
    by (cases rule: counting_semaphore.try_acquire_cases [OF assms(1), of "ss_slots ?s"])
      (auto simp: server_inv_def Let_def)
qed

theorem server_accounts_witness:
  "length (ss_tasks (small_run sample_arrivals)) \<le> 2 \<and>
   connection_count (ss_world (small_run sample_arrivals)) \<le> 2 \<and>
   dom (connections (ss_world (small_run sample_arrivals))) = {''c''}"
  using server_accounts [OF counter.counting_semaphore_axioms small_server_build small_handler small_iterates
      small_arrivals(1), unfolded small_limit Let_def]
  by (simp add: small_arrivals(2,3))










text \<open>
  C4. Every connection in the room manager is authenticated: at every moment, whatever the tasks do,
  it comes from a stream that arrived, whose upgrade request the origin policy let through and for
  which the server's authorizer gave exactly the principal the connection carries.
\<close>

theorem server_authenticates:
  fixes accept :: "('st, 'req, 'resp, 'wc, 'ws, 't) acceptor"
  assumes "upgrade accept request_of response_of"
    and "fst (build max_permits sem cls b h
      :: ('t, 'i, 's, ('ch, 'nt, 'req, ('t, 'i, 's, ('ch, 'nt) world) handler, 'sem) server) ws_result outcome \<times> _)
      = Returned (Inr sv)"
    and "keeps_registrations h" and "iterates (env_iter env)"
    and "server_schedule sem api accept is_http wca sv env evs"
    and "connections (ss_world (run_server sem api accept is_http wca sv env evs)) cid = Some c"
  shows "\<exists>st addr. Arrive st addr \<in> set evs \<and>
    is_ok (origin_check api (config_origin_policy (sv_config sv)) (request_of st)) \<and>
    authorize (sv_authorizer sv) (request_of st) = Inr (conn_principal c)"
proof -
  let ?hs = "server_handshake api accept is_http wca sv
    :: 'st \<Rightarrow> ('t, 'i, 's, ('ws \<times> principal) option) ws_result"
  let ?A = "{st. \<exists>addr. Arrive st addr \<in> set evs}"
  have "authentic ?hs ?A (server_start sv)"
    by (simp add: authentic_def server_start_def build_server(2) [OF assms(2)] manager_ok_new)
      (simp add: world_new_def)
  moreover have "list_all (arrives_in ?A) evs"
    by (auto simp: list_all_iff arrives_in_def split: server_event.split)
  moreover have "well_behaved (server_env sv env)"
    using assms(3,4) build_server(1) [OF assms(2)] by (simp add: well_behaved_def server_env_def)
  ultimately have "authentic ?hs ?A (run_server sem api accept is_http wca sv env evs)"
    using assms(5) unfolding run_server_def serve_tasks_def server_schedule_def
    by (intro vouching.run_inv legal_ops_conj legal_ops_both)
  then have "vouched ?hs ?A (conn_principal c)" using assms(6) by (auto simp: authentic_def ran_def)
  then obtain st addr ws where st: "Arrive st addr \<in> set evs"
    and hs: "?hs st = Inr (Some (ws, conn_principal c))"
    by (auto simp: vouched_def)
  have "admit api (config_origin_policy (sv_config sv)) (sv_authorizer sv) (request_of st) = Inr (conn_principal c)"
    using upgrade.handshake_admitted [OF assms(1) hs [unfolded server_handshake_def]] .
  then show ?thesis using st by (auto simp: admit_Inr_iff)
qed

theorem server_authenticates_witness:
  "\<exists>st addr. Arrive st addr \<in> set sample_arrivals \<and> authorize AllowAnonymous (the st) = Inr principal_anonymous"
  using server_authenticates [OF plain.upgrade_axioms small_server_build small_handler small_iterates
      small_arrivals(1), of "''c''"]
  by (auto simp: small_arrivals(3) small_limit)

text \<open>
  C40. A heartbeat interval of zero is accepted by \<open>build\<close> whenever the rest of the configuration is, and
  then the server leaks every connection, provided only that tokio accepts the queue capacity and refuses
  an interval of zero, as it documents, and that the application registers and unregisters no connection
  itself.  Whatever else \<open>on_connect\<close> does, and however the tasks interleave:
  no task gets further than \<open>on_connect\<close>, so no frame is read, \<open>on_disconnect\<close> is never called and
  nothing is unregistered; the connections registered are those still in \<open>on_connect\<close> and all those
  that ever panicked, one for each, without a bound although the slots are given back; and what is
  registered at one moment still is at every later one.
\<close>

theorem zero_heartbeat_leaks:
  assumes "counting_semaphore sem max_permits available"
    and "fst (build max_permits sem cls b h
      :: ('t, 'i, 's, ('ch, 'nt, 'req, ('t, 'i, 's, ('ch, 'nt) world) handler, 'sem) server) ws_result outcome \<times> _)
      = Returned (Inr sv)"
    and "keeps_registrations h" and "iterates (env_iter env)"
    and "\<not> interval_ok (env_time env) 0" and "env_channel_ok env (outbound_queue_capacity (sv_config sv))"
    and "sv0 = sv\<lparr>sv_config := (sv_config sv)\<lparr>heartbeat_interval := 0\<rparr>\<rparr>"
    and "server_schedule sem api accept is_http wca sv0 env (evs @ later)"
  shows "fst (build max_permits sem cls (builder_heartbeat_interval 0 b) h
      :: ('t, 'i, 's, ('ch, 'nt, 'req, ('t, 'i, 's, ('ch, 'nt) world) handler, 'sem) server) ws_result outcome \<times> _)
      = Returned (Inr sv0) \<and>
    (let s = run_server sem api accept is_http wca sv0 env evs; w = ss_world s
     in (\<forall>t \<in> set (ss_tasks s). (\<exists>st addr. t = Handshaking st addr) \<or> (\<exists>c p. t = Connecting c p)) \<and>
        set (ss_lost s) \<subseteq> dom (connections w) \<and>
        connection_count w = length (task_ids (ss_tasks s)) + length (ss_lost s) \<and>
        available (ss_slots s) = unat (max_connections (sv_config sv)) - length (ss_tasks s) \<and>
        connections w \<subseteq>\<^sub>m connections (ss_world (run_server sem api accept is_http wca sv0 env (evs @ later))))"
proof -
  note b0 = build_zero_heartbeat [OF assms(2), folded assms(7)]
  let ?hs = "server_handshake api accept is_http wca sv0 :: _ \<Rightarrow> ('t, 'i, 's, (_ \<times> principal) option) ws_result"
    and ?env = "server_env sv0 env"
  let ?n = "unat (max_connections (sv_config sv0))"
  have env: "starts_nobody ?env"
    using assms(3-6) build_server(1) [OF b0] by (simp add: starts_nobody_def well_behaved_def server_env_def assms(7))
  have legal: "legal_ops server_legal (server_step sem ?hs ?env) evs (server_start sv0)"
    "legal_ops server_legal (server_step sem ?hs ?env) later (run_server sem api accept is_http wca sv0 env evs)"
    using assms(8) by (simp_all add: server_schedule_def legal_ops_append run_server_def serve_tasks_def)
  have start: "stuck_inv available ?n Map.empty (server_start sv0 :: ('sem, 'st, ('ch, 'nt) world) server_state)"
    using counting_semaphore.server_start_inv [OF assms(1) b0]
    by (simp add: stuck_inv_def server_start_def)
  have inv: "stuck_inv available ?n Map.empty (run_server sem api accept is_http wca sv0 env evs)"
    unfolding run_server_def serve_tasks_def
    by (rule counting_semaphore.stuck_run [OF assms(1) start env legal(1)])
  then have now: "stuck_inv available ?n (connections (ss_world (run_server sem api accept is_http wca sv0 env evs)))
      (run_server sem api accept is_http wca sv0 env evs)"
    by (simp add: stuck_inv_def)
  have suffix: "run_server sem api accept is_http wca sv0 env (evs @ later) =
      run_ops (server_step sem ?hs ?env) later (run_server sem api accept is_http wca sv0 env evs)"
    by (simp add: run_server_def serve_tasks_def run_ops_append)
  have "stuck_inv available ?n (connections (ss_world (run_server sem api accept is_http wca sv0 env evs)))
      (run_server sem api accept is_http wca sv0 env (evs @ later))"
    unfolding suffix by (rule counting_semaphore.stuck_run [OF assms(1) now env legal(2)])
  then have kept: "connections (ss_world (run_server sem api accept is_http wca sv0 env evs))
      \<subseteq>\<^sub>m connections (ss_world (run_server sem api accept is_http wca sv0 env (evs @ later)))"
    by (simp add: stuck_inv_def)
  let ?s = "run_server sem api accept is_http wca sv0 env evs"
  have "\<forall>t \<in> set (ss_tasks ?s). not_serving t" "set (ss_lost ?s) \<subseteq> dom (connections (ss_world ?s))"
    "available (ss_slots ?s) + length (ss_tasks ?s) = unat (max_connections (sv_config sv))"
    using inv by (simp_all add: stuck_inv_def server_inv_def list_all_iff assms(7))
  moreover from this(3) have "available (ss_slots ?s) = unat (max_connections (sv_config sv)) - length (ss_tasks ?s)"
    by linarith
  ultimately show ?thesis
    using b0 stuck_inv_count [OF inv] kept unfolding Let_def not_serving_iff by (intro conjI)
qed

text \<open>Three streams at a server with two slots: each is served in its turn, and all stay registered.\<close>

definition three_visits :: "sample_event list" where
  "three_visits =
     [Arrive (Some []) sample_addr, HandshakeEnds 0 ''a'' 0, Arrive (Some []) sample_addr, ConnectReturns 0 0,
      HandshakeEnds 0 ''b'' 1, ConnectReturns 0 0, Arrive (Some []) sample_addr, HandshakeEnds 0 ''c'' 2, ConnectReturns 0 0]"

abbreviation silent_sv ::
  "(fifo, bool, string list, (http_response option, unit, unit, (fifo, bool) world) handler, nat) server" where
  "silent_sv \<equiv> small_sv\<lparr>sv_config := (sv_config small_sv)\<lparr>heartbeat_interval := 0\<rparr>\<rparr>"

theorem zero_heartbeat_leaks_witness:
  "let s = run_server (counter sample_permits) sample_http plain_accept (\<lambda>e. \<not> Option.is_none e) sample_wc
      silent_sv (sample_env quiet_handler) three_visits
   in ss_tasks s = [] \<and> ss_lost s = [''a'', ''b'', ''c''] \<and> connection_count (ss_world s) = 3 \<and> ss_slots s = 2"
proof -
  let ?s = "run_server (counter sample_permits) sample_http plain_accept (\<lambda>e. \<not> Option.is_none e) sample_wc
      silent_sv (sample_env quiet_handler) three_visits"
  have run: "server_schedule (counter sample_permits) sample_http plain_accept (\<lambda>e. \<not> Option.is_none e) sample_wc
      silent_sv (sample_env quiet_handler) (three_visits @ [])"
    "ss_tasks ?s = []" "ss_lost ?s = [''a'', ''b'', ''c'']"
    by (simp_all add: server_evals three_visits_def panic_task_def)
  have env: "\<not> interval_ok (env_time (sample_env quiet_handler)) 0"
    "env_channel_ok (sample_env quiet_handler) (outbound_queue_capacity (sv_config small_sv))"
    by (simp_all add: sample_env_def small_server_def server_config_default_def)
  show ?thesis
    using zero_heartbeat_leaks [OF counter.counting_semaphore_axioms small_server_build small_handler small_iterates
        env refl run(1), THEN conjunct2, unfolded Let_def append_Nil2] run(2,3)
    by (simp add: small_limit)
qed

end
