(* ===== verification/Ws_Server_Protocol.thy ===== *)
theory Ws_Server_Protocol imports Ws_Server_Props begin

text \<open>
  What the application of a whole server sees: however its tasks interleave, the callbacks about one
  connection come in the order of the protocol, with one principal, which the authorizer gave.
\<close>

section \<open>The protocol of callbacks\<close>

fun callback_id :: "('t, 'i, 's) callback \<Rightarrow> string" where
  "callback_id (Connected cid _) = cid"
| "callback_id (GotMessage cid _ _) = cid"
| "callback_id (Disconnected cid _) = cid"
| "callback_id (GotError cid _) = cid"
| "callback_id (GotPing cid _) = cid"
| "callback_id (GotPong cid _) = cid"

text \<open>
  The state is whether the application takes the connection for open, and for whom; \<open>None\<close> as the
  result is a callback out of order.
\<close>

fun react :: "('t, 'i, 's) callback \<Rightarrow> principal option \<Rightarrow> principal option option" where
  "react (Connected _ p) None = Some (Some p)"
| "react (Disconnected _ p) (Some q) = (if p = q then Some None else None)"
| "react (GotMessage _ p _) (Some q) = (if p = q then Some (Some q) else None)"
| "react (GotError _ _) (Some q) = Some (Some q)"
| "react (GotPing _ _) (Some q) = Some (Some q)"
| "react (GotPong _ _) (Some q) = Some (Some q)"
| "react _ _ = None"

definition heard :: "string \<Rightarrow> ('t, 'i, 's) callback list \<Rightarrow> principal option option" where
  "heard cid es = fold (\<lambda>e st. Option.bind st (react e)) (filter (\<lambda>e. callback_id e = cid) es) (Some None)"

lemma heard_simps [simp]:
  "heard cid [] = Some None"
  "heard cid (es @ [e]) = (if callback_id e = cid then Option.bind (heard cid es) (react e) else heard cid es)"
  by (simp_all add: heard_def)

text \<open>The callback of a read leaves the connection open, and is about no other one.\<close>

lemma heard_callback_of:
  "heard cid es = Some (Some p) \<Longrightarrow> heard cid (es @ callback_of cid p r) = Some (Some p)"
  "d \<noteq> cid \<Longrightarrow> heard d (es @ callback_of cid p r) = heard d es"
  "Connected d q \<notin> set (callback_of cid p r)"
  by (auto simp: callback_of_def Let_def split: option.split sum.split)

section \<open>The parts of a session\<close>

lemma recording_keeps:
  assumes "keeps_registrations h"
  shows "keeps_registrations (recording h)"
proof -
  have m: "manager_ok (note_call e w) = manager_ok w" for e w
    by (rule manager_ok_frame) (simp_all add: note_call_def)
  have c: "connections (note_call e w) = connections w" for e w by (simp add: note_call_def)
  have "handler_contract (recording h) (\<lambda>w. manager_ok w \<and> connections w = D)" for D
  proof -
    have k: "handler_contract h (\<lambda>w. manager_ok w \<and> connections w = D)"
      using assms by (simp add: keeps_registrations_def)
    show ?thesis
      by unfold_locales
        (simp_all add: recording_def m c handler_contract.connect_keeps [OF k, simplified]
          handler_contract.message_keeps [OF k, simplified] handler_contract.disconnect_keeps [OF k, simplified]
          handler_contract.error_keeps [OF k, simplified] handler_contract.ping_keeps [OF k, simplified]
          handler_contract.pong_keeps [OF k, simplified])
  qed
  then show ?thesis by (simp add: keeps_registrations_def)
qed

lemma parts_trace:
  assumes "quiet h" "env_handler env = recording h"
  shows "trace (call_state (session_register env cid addr ref p w)) = trace w"
    and "trace (call_state (session_connected env c p w)) = trace w @ [Connected (conn_id c) p]"
    and "trace (teardown_close env c w) = trace w" "trace (teardown_closed env c flushed w) = trace w"
    and "trace (call_state (teardown_disconnect env c p w)) = trace w @ [Disconnected (conn_id c) p]"
proof -
  show "trace (call_state (session_register env cid addr ref p w)) = trace w"
    by (simp add: session_register_def Let_def frame_simps split: prod.split)
  show "trace (call_state (session_connected env c p w)) = trace w @ [Connected (conn_id c) p]"
    using quiet_calls(1) [OF assms(1), of "conn_id c" p "note_call (Connected (conn_id c) p) w"]
    by (auto simp: session_connected_def assms(2) recording_def split: call.split)
  show "trace (teardown_close env c w) = trace w" "trace (teardown_closed env c flushed w) = trace w"
    by (simp_all add: teardown_close_def teardown_closed_def Let_def)
  show "trace (call_state (teardown_disconnect env c p w)) = trace w @ [Disconnected (conn_id c) p]"
    using quiet_calls(3) [OF assms(1), of "conn_id c" p "note_call (Disconnected (conn_id c) p) w"]
    by (auto simp: teardown_disconnect_def assms(2) recording_def frame_simps split: call.split)
qed

lemma turn_trace_any:
  fixes ev :: "('c, 'f, 't, ('ch, 'nt, ('t, 'i, 's) callback, 'z) traced_scheme) event"
  assumes "quiet h" "env_handler env = recording h" "\<nexists>f. ev = Elsewhere f"
  shows "\<exists>r :: ('t + ('c, 'f) raw_message) option.
    trace (progress_world (loop_turn env c p ev s w)) = trace w @ callback_of (conn_id c) p r"
proof -
  have none: "callback_of (conn_id c) p (None :: ('t + ('c, 'f) raw_message) option) = ([] :: ('t, 'i, 's) callback list)"
    by (simp add: callback_of_def)
  show ?thesis
  proof (cases ev)
    case (ReadNext now r)
    show ?thesis
    proof (cases "add_instant (env_time env) (last_read s) (connection_timeout (env_config env))")
      case None
      then show ?thesis using none by (intro exI [of _ None]) (simp add: loop_turn_def)
    next
      case (Some d)
      then show ?thesis using read_trace [OF assms(1,2)] ReadNext assms(2)
        by (intro exI [of _ r]) (simp add: loop_turn_def)
    qed
  next
    case Tick
    then show ?thesis using none
      by (intro exI [of _ None]) (simp add: frame_simps loop_turn_def on_tick_def Let_def case_prod_unfold split: option.split)
  qed (use assms(3) none in \<open>auto simp: loop_turn_def on_evicted_def intro!: exI [of _ None] split: option.split\<close>)
qed

section \<open>Every callback\<close>

text \<open>
  The callbacks of an event: one for the frame, the error or the ping or pong that a task reads, and
  those of the two ends.
\<close>

definition told_by ::
  "('st, 'c, 'f, 't, 'w) server_event \<Rightarrow> ('sem, 'st, 'w) server_state \<Rightarrow> ('t, 'i, 's) callback list" where
  "told_by ev s =
     (if task_of_event ev < length (ss_tasks s) then
        (case (ss_tasks s ! task_of_event ev, ev) of
           (Connecting c p, ConnectReturns _ _) \<Rightarrow> [Connected (conn_id c) p]
         | (Serving c p _, TurnOf _ (ReadNext _ r)) \<Rightarrow> callback_of (conn_id c) p r
         | (Disconnecting c p, DisconnectReturns _) \<Rightarrow> [Disconnected (conn_id c) p]
         | _ \<Rightarrow> [])
      else [])"

fun all_told ::
  "'sem semaphore \<Rightarrow> ('st \<Rightarrow> ('t, 'i, 's, ('ws \<times> principal) option) ws_result)
     \<Rightarrow> ('ch, 'nt, 't, 'i, 's, ('ch, 'nt, 'z) world_scheme) session_env
     \<Rightarrow> ('st, 'c, 'f, 't, ('ch, 'nt, 'z) world_scheme) server_event list
     \<Rightarrow> ('sem, 'st, ('ch, 'nt, 'z) world_scheme) server_state \<Rightarrow> ('t, 'i, 's) callback list" where
  "all_told sem hs env [] s = []"
| "all_told sem hs env (ev # evs) s = told_by ev s @ all_told sem hs env evs (server_step sem hs env ev s)"

definition others_silent :: "('st, 'c, 'f, 't, ('ch, 'nt, 'e, 'z) traced_scheme) server_event \<Rightarrow> bool" where
  "others_silent ev \<longleftrightarrow> (case ev of OtherTask f \<Rightarrow> \<forall>w. trace (f w) = trace w | _ \<Rightarrow> True)"

lemma world_of_step [simp]:
  "ss_world (end_task sem i s) = ss_world s" "ss_world (panic_task sem i cid w s) = w"
  "ss_world (update_task i t w s) = w"
  by (simp_all add: end_task_def panic_task_def update_task_def)

lemma turn_trace_exact:
  assumes "quiet h" "env_handler env = recording h" "\<nexists>f. ev = Elsewhere f"
    and "\<And>t. add_instant (env_time env) t (connection_timeout (env_config env)) \<noteq> None"
  shows "trace (progress_world (loop_turn env c p ev s w)) =
    trace w @ (case ev of ReadNext _ r \<Rightarrow> callback_of (conn_id c) p r | _ \<Rightarrow> [])"
proof -
  obtain d where d: "add_instant (env_time env) (last_read s) (connection_timeout (env_config env)) = Some d"
    using assms(4) by blast
  show ?thesis
  proof (cases ev)
    case (ReadNext now r)
    then show ?thesis using read_trace [OF assms(1,2)] assms(2) by (simp add: loop_turn_def d)
  next
    case Tick
    then show ?thesis by (simp add: frame_simps loop_turn_def on_tick_def Let_def case_prod_unfold d)
  qed (use assms(3) in \<open>auto simp: loop_turn_def on_evicted_def d split: option.split\<close>)
qed

lemma task_step_trace:
  assumes h: "quiet h" "env_handler env = recording h"
    and time: "\<And>t. add_instant (env_time env) t (connection_timeout (env_config env)) \<noteq> None"
    and i: "i < length (ss_tasks s)" "task_of_event ev = i" and legal: "server_legal ev s"
  shows "trace (ss_world (task_step sem hs env i ev s)) = trace (ss_world s) @ told_by ev s"
proof -
  note parts = parts_trace [OF h]
  note turn = turn_trace_exact [OF h _ time]
  have register: "trace (call_state r) = trace (ss_world s)"
    if "session_register env cid addr ref p (ss_world s) = r" for cid addr ref p r
    using parts(1) that by blast
  have ends: "trace (call_state r) = trace (ss_world s) @ [Connected (conn_id c) p]"
    if "session_connected env c p (ss_world s) = r" for c p r
    using parts(2) that by blast
  have gone: "trace (call_state r) = trace (ss_world s) @ [Disconnected (conn_id c) p]"
    if "teardown_disconnect env c p (ss_world s) = r" for c p r
    using parts(5) that by blast
  show ?thesis
  proof (cases "ss_tasks s ! i")
    case (Handshaking st addr)
    then show ?thesis using i
      by (cases ev) (auto simp: task_step_def told_by_def dest: register split: sum.split option.split call.split)
  next
    case (Connecting c p)
    then show ?thesis using i
      by (cases ev) (auto simp: task_step_def told_by_def dest: ends split: call.split)
  next
    case (Serving c p sn)
    show ?thesis
    proof (cases ev)
      case (TurnOf j t)
      then have "\<nexists>f. t = Elsewhere f" using legal by (auto simp: server_legal_def)
      from turn [OF this, of c p sn "ss_world s"] show ?thesis using i
        by (cases "loop_turn env c p t sn (ss_world s)"; cases t)
          (simp_all add: TurnOf Serving task_step_def told_by_def parts(3))
    qed (use i Serving in \<open>auto simp: task_step_def told_by_def\<close>)
  next
    case (Flushing c p)
    then show ?thesis using i by (cases ev) (simp_all add: task_step_def told_by_def parts(4))
  next
    case (Disconnecting c p)
    then show ?thesis using i
      by (cases ev) (auto simp: task_step_def told_by_def dest: gone split: call.split)
  qed
qed

text \<open>Every step, and every run.\<close>

lemma server_step_trace:
  assumes "quiet h" "env_handler env = recording h"
    and "\<And>t. add_instant (env_time env) t (connection_timeout (env_config env)) \<noteq> None"
    and "others_silent ev" "server_legal ev s"
  shows "trace (ss_world (server_step sem hs env ev s)) = trace (ss_world s) @ told_by ev s"
proof -
  note task = task_step_trace [OF assms(1-3) _ refl assms(5)]
  have step: "trace (ss_world (if task_of_event ev < length (ss_tasks s)
      then task_step sem hs env (task_of_event ev) ev s else s)) = trace (ss_world s) @ told_by ev s"
    using task [of sem hs] by (cases "task_of_event ev < length (ss_tasks s)") (simp_all, simp add: told_by_def)
  show ?thesis
  proof (cases ev)
    case (Arrive st addr)
    then show ?thesis
      by (cases "ss_tasks s ! 0") (simp_all add: server_step_simps told_by_def split: option.split)
  next
    case AcceptFails
    then show ?thesis by (cases "ss_tasks s ! 0") (simp_all add: server_step_simps told_by_def)
  next
    case (OtherTask f)
    then show ?thesis using assms(4)
      by (cases "ss_tasks s ! 0") (simp_all add: server_step_simps told_by_def others_silent_def)
  qed (use step in \<open>simp_all only: server_step_def server_event.case\<close>)
qed

lemma serve_tasks_trace:
  assumes "quiet h" "env_handler env = recording h"
    and "\<And>t. add_instant (env_time env) t (connection_timeout (env_config env)) \<noteq> None"
    and "list_all others_silent evs" "legal_ops server_legal (server_step sem hs env) evs s"
  shows "trace (ss_world (serve_tasks sem hs env evs s)) = trace (ss_world s) @ all_told sem hs env evs s"
  using assms(4,5)
  by (induction evs arbitrary: s) (simp_all add: serve_tasks_def server_step_trace [OF assms(1-3)])

section \<open>What every run keeps\<close>

fun task_told :: "('ch, 'nt, ('t, 'i, 's) callback, 'z) traced_scheme \<Rightarrow> 'st task \<Rightarrow> bool" where
  "task_told w (Handshaking _ _) = True"
| "task_told w (Connecting c p) =
     (connections w (conn_id c) = Some c \<and> conn_principal c = p \<and> heard (conn_id c) (trace w) = Some None)"
| "task_told w (Serving c p _) =
     (connections w (conn_id c) = Some c \<and> conn_principal c = p \<and> heard (conn_id c) (trace w) = Some (Some p))"
| "task_told w (Flushing c p) =
     (connections w (conn_id c) = Some c \<and> conn_principal c = p \<and> heard (conn_id c) (trace w) = Some (Some p))"
| "task_told w (Disconnecting c p) =
     (connections w (conn_id c) = Some c \<and> conn_principal c = p \<and> heard (conn_id c) (trace w) = Some (Some p))"

text \<open>
  A connection the application takes for open is registered, with the principal the application was
  told; every principal it was ever told was vouched for.
\<close>

definition id_told :: "('ch, 'nt, ('t, 'i, 's) callback, 'z) traced_scheme \<Rightarrow> string \<Rightarrow> bool" where
  "id_told w cid \<longleftrightarrow> heard cid (trace w) \<noteq> None \<and>
     (\<forall>p. heard cid (trace w) = Some (Some p) \<longrightarrow> (\<exists>c. connections w cid = Some c \<and> conn_principal c = p))"

lemma id_told_gone: "id_told w cid \<Longrightarrow> connections w cid = None \<Longrightarrow> heard cid (trace w) = Some None"
  by (cases "heard cid (trace w)" rule: option.exhaust [case_names N S]; fastforce simp: id_told_def)

definition told ::
  "('st \<Rightarrow> ('t, 'i, 's, ('ws \<times> principal) option) ws_result) \<Rightarrow> 'st set \<Rightarrow> 'st task list
     \<Rightarrow> ('ch, 'nt, ('t, 'i, 's) callback, 'z) traced_scheme \<Rightarrow> bool" where
  "told hs A ts w \<longleftrightarrow>
     (\<forall>cid. id_told w cid) \<and> (\<forall>t \<in> set ts. task_told w t) \<and>
     (\<forall>cid p. Connected cid p \<in> set (trace w) \<longrightarrow> vouched hs A p)"

text \<open>A step for one connection leaves the others where they were.\<close>

lemma task_told_other:
  assumes "task_told w t" "cid \<notin> set (task_id t)"
    and "\<And>d. d \<noteq> cid \<Longrightarrow> connections w' d = connections w d"
    and "\<And>d. d \<noteq> cid \<Longrightarrow> heard d (trace w') = heard d (trace w)"
  shows "task_told w' t"
  using assms(1,2) by (cases t) (auto simp: assms(3,4))

lemma told_step:
  assumes "told hs A ts w" and "id_told w' cid"
    and "\<And>d. d \<noteq> cid \<Longrightarrow> connections w' d = connections w d"
    and "\<And>d. d \<noteq> cid \<Longrightarrow> heard d (trace w') = heard d (trace w)"
    and "\<And>d p. Connected d p \<in> set (trace w') \<Longrightarrow> Connected d p \<in> set (trace w) \<or> vouched hs A p"
    and "\<And>u. u \<in> set ts' \<Longrightarrow> task_told w' u \<or> u \<in> set ts \<and> cid \<notin> set (task_id u)"
  shows "told hs A ts' w'"
  unfolding told_def
proof (intro conjI allI ballI impI)
  fix d show "id_told w' d"
    using assms(1-4) by (cases "d = cid") (auto simp: told_def id_told_def)
next
  fix u assume "u \<in> set ts'"
  then show "task_told w' u"
    using assms(1,6) task_told_other [OF _ _ assms(3,4)] unfolding told_def by blast
next
  fix d p assume "Connected d p \<in> set (trace w')"
  then show "vouched hs A p" using assms(1,5) unfolding told_def by blast
qed

text \<open>The tasks beside one, which have other ids.\<close>

lemma others_ids:
  assumes "distinct (task_ids ts)" "i < length ts" "cid \<in> set (task_id (ts ! i))"
  shows "u \<in> set (take i ts @ drop (Suc i) ts) \<Longrightarrow> u \<in> set ts \<and> cid \<notin> set (task_id u)"
    and "u \<in> set (ts[i := t]) \<Longrightarrow> u = t \<or> u \<in> set ts \<and> cid \<notin> set (task_id u)"
proof -
  obtain xs ys where ts: "ts = xs @ ts ! i # ys" "take i ts = xs" "drop (Suc i) ts = ys" "\<And>t. ts[i := t] = xs @ t # ys"
    using task_split [OF assms(2)] by metis
  have ids: "set (task_id u) \<subseteq> set (task_ids us)" if "u \<in> set us" for u and us :: "'a task list"
    using that by (auto simp: task_ids_def)
  have "distinct (task_ids xs @ task_id (ts ! i) @ task_ids ys)" using assms(1) by (subst (asm) ts(1)) simp
  then have "cid \<notin> set (task_ids xs) \<union> set (task_ids ys)" using assms(3) by auto
  then have out: "u \<in> set xs \<union> set ys \<Longrightarrow> cid \<notin> set (task_id u)" for u using ids by blast
  have "set xs \<union> set ys \<subseteq> set ts" using ts(2,3) by (auto dest: in_set_takeD in_set_dropD)
  then show "u \<in> set (take i ts @ drop (Suc i) ts) \<Longrightarrow> u \<in> set ts \<and> cid \<notin> set (task_id u)"
    "u \<in> set (ts[i := t]) \<Longrightarrow> u = t \<or> u \<in> set ts \<and> cid \<notin> set (task_id u)"
    using out by (auto simp: ts(2-4))
qed

text \<open>A step of the task of a registered connection that makes the callbacks \<open>es\<close>, and the task's end.\<close>

lemma told_of_task:
  assumes T: "told hs A ts w" and D: "distinct (task_ids ts)" "i < length ts" "conn_id c \<in> set (task_id (ts ! i))"
    and id: "id_told w' (conn_id c)"
    and con: "\<And>d. d \<noteq> conn_id c \<Longrightarrow> connections w' d = connections w d"
    and tr: "\<And>d. d \<noteq> conn_id c \<Longrightarrow> heard d (trace w') = heard d (trace w)"
    and vouch: "\<And>d p. Connected d p \<in> set (trace w') \<Longrightarrow> Connected d p \<in> set (trace w) \<or> vouched hs A p"
  shows "told hs A (take i ts @ drop (Suc i) ts) w'" "task_told w' t \<Longrightarrow> told hs A (ts[i := t]) w'"
proof -
  note others = others_ids [OF D]
  show "told hs A (take i ts @ drop (Suc i) ts) w'"
    by (rule told_step [OF T id con tr vouch]) (use others(1) in blast)+
  show "told hs A (ts[i := t]) w'" if "task_told w' t"
    by (rule told_step [OF T id con tr vouch]) (use others(2) that in blast)+
qed

lemma told_subset: "told hs A ts w \<Longrightarrow> set ts' \<subseteq> set ts \<Longrightarrow> told hs A ts' w"
  unfolding told_def by blast

lemma told_handshake:
  assumes T: "told hs A (ss_tasks s) (ss_world s)" and inv: "server_inv available n s"
    and i: "i < length (ss_tasks s)" "ss_tasks s ! i = Handshaking st addr"
    and h: "quiet h" "env_handler env = recording h" and legal: "server_legal (HandshakeEnds i cid ref) s"
    and s': "s' = task_step sem hs env i (HandshakeEnds i cid ref) s"
  shows "told hs A (ss_tasks s') (ss_world s')"
proof -
  have m: "manager_ok (ss_world s)" using inv by (simp add: server_inv_def)
  have fresh: "cid \<notin> dom (connections (ss_world s))"
    "\<forall>d \<in> dom (connections (ss_world s)). conn_cell (the (connections (ss_world s) d)) \<noteq> ref"
    using legal by (auto simp: server_legal_def)
  have refused: "told hs A (take i (ss_tasks s) @ drop (Suc i) (ss_tasks s)) (ss_world s)"
    by (rule told_subset [OF T]) (auto dest: in_set_takeD in_set_dropD)
  have "id_told (ss_world s) cid" using T by (simp add: told_def)
  then have quiet: "heard cid (trace (ss_world s)) = Some None"
    using fresh(1) by (auto intro: id_told_gone)
  have out: "cid \<notin> set (task_id u)" if "u \<in> set (ss_tasks s)" for u
    using that inv fresh(1) by (auto simp: server_inv_def task_ids_def)
  have opened: "told hs A ((ss_tasks s)[i := Connecting c p]) w1"
    if reg: "session_register env cid addr ref p (ss_world s) = Returns c w1" for c p w1
  proof -
    have c: "conn_id c = cid" "conn_principal c = p" "connections w1 = (connections (ss_world s))(cid \<mapsto> c)"
      using session_register_keeps [OF m fresh, where env = env and addr = addr and p = p] reg by simp_all
    have tr: "trace w1 = trace (ss_world s)"
      using parts_trace(1) [OF h, of cid addr ref p "ss_world s"] reg by simp
    show ?thesis
    proof (rule told_step [OF T])
      show "id_told w1 cid" by (simp add: id_told_def tr quiet)
      fix u assume "u \<in> set ((ss_tasks s)[i := Connecting c p])"
      then have "u = Connecting c p \<or> u \<in> set (ss_tasks s)" by (auto dest: set_update_subset_insert [THEN subsetD])
      then show "task_told w1 u \<or> u \<in> set (ss_tasks s) \<and> cid \<notin> set (task_id u)"
        using out by (auto simp: c tr quiet)
    qed (simp_all add: c tr)
  qed
  have failed: "told hs A (take i (ss_tasks s) @ drop (Suc i) (ss_tasks s)) w1"
    if "session_register env cid addr ref p (ss_world s) = Panics w1" for p w1
    using session_register_keeps [OF m fresh, where env = env and addr = addr and p = p] that refused by simp
  show ?thesis
    using refused opened failed unfolding s'
    by (auto simp: task_step_def i(2) end_task_def panic_task_def update_task_def
        split: sum.split option.split call.split)
qed

text \<open>
  The premises the three kinds of steps share: task \<open>i\<close> has the connection \<open>c\<close> of \<open>p\<close>, the application
  has heard of it what \<open>st\<close> says, and the handler records.
\<close>

definition at_task ::
  "('st \<Rightarrow> ('t, 'i, 's, ('ws \<times> principal) option) ws_result) \<Rightarrow> 'st set
     \<Rightarrow> ('ch, 'nt, 't, 'i, 's, ('ch, 'nt, ('t, 'i, 's) callback, 'z) traced_scheme) session_env
     \<Rightarrow> ('sem, 'st, ('ch, 'nt, ('t, 'i, 's) callback, 'z) traced_scheme) server_state \<Rightarrow> nat
     \<Rightarrow> connection \<Rightarrow> principal \<Rightarrow> principal option \<Rightarrow> bool" where
  "at_task hs A env s i c p st \<longleftrightarrow>
     told hs A (ss_tasks s) (ss_world s) \<and> manager_ok (ss_world s) \<and> distinct (task_ids (ss_tasks s)) \<and>
     i < length (ss_tasks s) \<and> task_id (ss_tasks s ! i) = [conn_id c] \<and>
     connections (ss_world s) (conn_id c) = Some c \<and> conn_principal c = p \<and> vouched hs A p \<and>
     heard (conn_id c) (trace (ss_world s)) = Some st \<and>
     keeps_registrations (env_handler env) \<and> iterates (env_iter env) \<and> (\<exists>h. quiet h \<and> env_handler env = recording h)"

lemma told_at_task:
  assumes T: "at_task hs A env s i c p st" and "id_told w' (conn_id c)"
    and "\<And>d. d \<noteq> conn_id c \<Longrightarrow> connections w' d = connections (ss_world s) d"
    and "\<And>d. d \<noteq> conn_id c \<Longrightarrow> heard d (trace w') = heard d (trace (ss_world s))"
    and "\<And>d q. Connected d q \<in> set (trace w') \<Longrightarrow> Connected d q \<in> set (trace (ss_world s)) \<or> vouched hs A q"
  shows "told hs A (take i (ss_tasks s) @ drop (Suc i) (ss_tasks s)) w'"
    and "task_told w' t \<Longrightarrow> told hs A ((ss_tasks s)[i := t]) w'"
  using T assms(2-5) by (auto simp: at_task_def intro!: told_of_task [where c = c])

lemma told_connect:
  assumes T: "at_task hs A env s i c p None"
  defines "w \<equiv> call_state (session_connected env c p (ss_world s))"
  shows "told hs A (take i (ss_tasks s) @ drop (Suc i) (ss_tasks s)) w \<and>
    told hs A ((ss_tasks s)[i := Serving c p sn]) w"
proof -
  have "trace w = trace (ss_world s) @ [Connected (conn_id c) p]"
    using T parts_trace(2) unfolding at_task_def w_def by blast
  moreover have "connections w = connections (ss_world s)"
    using T session_connected_keeps unfolding at_task_def w_def by blast
  ultimately show ?thesis
    by (intro conjI told_at_task [OF T]) (use T in \<open>auto simp: at_task_def id_told_def\<close>)
qed

lemma told_turn:
  fixes turn :: "('c, 'f, 't, ('ch, 'nt, ('t, 'i, 's) callback, 'z) traced_scheme) event" and sn
  assumes T: "at_task hs A env s i c p (Some p)" and e: "\<nexists>f. turn = Elsewhere f"
  defines "w \<equiv> progress_world (loop_turn env c p turn sn (ss_world s))"
  shows "told hs A (take i (ss_tasks s) @ drop (Suc i) (ss_tasks s)) w \<and>
    told hs A ((ss_tasks s)[i := Serving c p sn']) w \<and>
    told hs A ((ss_tasks s)[i := Flushing c p]) (teardown_close env c w)"
proof -
  obtain h where h: "quiet h" "env_handler env = recording h" using T unfolding at_task_def by blast
  obtain r :: "('t + ('c, 'f) raw_message) option" where tr: "trace w = trace (ss_world s) @ callback_of (conn_id c) p r"
    using turn_trace_any [OF h e] unfolding w_def by blast
  have con: "connections w = connections (ss_world s)"
    using T turn_keeps_connections [OF _ _ e] unfolding at_task_def w_def by blast
  have still: "heard (conn_id c) (trace w) = Some (Some p)"
    unfolding tr by (rule heard_callback_of(1)) (use T in \<open>simp add: at_task_def\<close>)
  have others: "d \<noteq> conn_id c \<Longrightarrow> heard d (trace w) = heard d (trace (ss_world s))" for d
    unfolding tr by (rule heard_callback_of(2))
  have new: "Connected d q \<in> set (trace w) \<Longrightarrow> Connected d q \<in> set (trace (ss_world s))" for d q
    unfolding tr by (simp add: heard_callback_of(3))
  have c: "connections (ss_world s) (conn_id c) = Some c" "conn_principal c = p" using T by (simp_all add: at_task_def)
  show ?thesis
    by (intro conjI told_at_task [OF T])
      (use new others in \<open>auto simp: c con still id_told_def parts_trace(3) [OF h]\<close>)
qed

lemma told_disconnect:
  assumes T: "at_task hs A env s i c p (Some p)"
  shows "told hs A (take i (ss_tasks s) @ drop (Suc i) (ss_tasks s)) (call_state (teardown_disconnect env c p (ss_world s)))"
proof -
  let ?r = "teardown_disconnect env c p (ss_world s)"
  have "trace (call_state ?r) = trace (ss_world s) @ [Disconnected (conn_id c) p]"
    using T parts_trace(5) unfolding at_task_def by blast
  moreover have "d \<noteq> conn_id c \<Longrightarrow> connections (call_state ?r) d = connections (ss_world s) d" for d
    using T teardown_disconnect_keeps [of env "ss_world s" c p] by (simp add: at_task_def split: call.splits)
  ultimately show ?thesis
    by (intro told_at_task [OF T]) (use T in \<open>auto simp: at_task_def id_told_def\<close>)
qed

lemma told_task_step:
  assumes T: "told hs A (ss_tasks s) (ss_world s)" and inv: "server_inv available n s" and a: "authentic hs A s"
    and i: "i < length (ss_tasks s)" "task_of_event ev = i"
    and h: "quiet h" "env_handler env = recording h" "keeps_registrations h" "iterates (env_iter env)"
    and legal: "server_legal ev s" and s': "s' = task_step sem hs env i ev s"
  shows "told hs A (ss_tasks s') (ss_world s')"
proof -
  have "task_told (ss_world s) (ss_tasks s ! i)" "task_vouched hs A (ss_tasks s ! i)"
    using T a i(1) by (simp_all add: told_def authentic_def)
  then have at: "at_task hs A env s i c p st"
    if "st = None \<and> ss_tasks s ! i = Connecting c p \<or> st = Some p \<and>
      ((\<exists>sn. ss_tasks s ! i = Serving c p sn) \<or> ss_tasks s ! i = Flushing c p \<or> ss_tasks s ! i = Disconnecting c p)"
    for c p st
    using that T inv i(1) h recording_keeps [OF h(3)] by (auto simp: at_task_def server_inv_def)
  from i(2) show ?thesis
  proof (cases rule: task_step_cases [of ev i s _ sem hs env])
    case (handshake st addr cid ref)
    show ?thesis
      by (rule told_handshake [OF T inv i(1) handshake(1) h(1,2) _ s' [unfolded handshake(2)]])
        (use legal handshake in simp)
  next
    case (connect c p now)
    from told_connect [OF at [of None c p]] connect show ?thesis
      by (cases "session_connected env c p (ss_world s)")
        (simp_all add: s' task_step_def panic_task_def end_task_def update_task_def)
  next
    case (turn c p sn turn)
    then have "\<nexists>f. turn = Elsewhere f" using legal by (auto simp: server_legal_def)
    from told_turn [OF at [of "Some p" c p] this, of sn] turn show ?thesis
      by (cases "loop_turn env c p turn sn (ss_world s)")
        (simp_all add: s' task_step_def panic_task_def end_task_def update_task_def)
  next
    case (flush c p flushed)
    then have F: "at_task hs A env s i c p (Some p)" by (intro at) simp
    have "told hs A ((ss_tasks s)[i := Disconnecting c p]) (teardown_closed env c flushed (ss_world s))"
      by (rule told_at_task [OF F]) (use F in \<open>auto simp: at_task_def id_told_def parts_trace(4) [OF h(1,2)]\<close>)
    then show ?thesis by (simp add: s' flush task_step_def update_task_def)
  next
    case (disconnect c p)
    from told_disconnect [OF at [of "Some p" c p]] disconnect show ?thesis
      by (cases "teardown_disconnect env c p (ss_world s)")
        (simp_all add: s' task_step_def panic_task_def end_task_def)
  next
    case none
    then show ?thesis using T s' by simp
  qed
qed

section \<open>The server as a machine\<close>

definition recorded ::
  "('ch, 'nt, 't, 'i, 's, ('ch, 'nt, ('t, 'i, 's) callback, 'z) traced_scheme) session_env \<Rightarrow> bool" where
  "recorded env \<longleftrightarrow> (\<exists>h. env_handler env = recording h \<and> quiet h \<and> keeps_registrations h) \<and> iterates (env_iter env)"

definition telling ::
  "('sem \<Rightarrow> nat) \<Rightarrow> nat \<Rightarrow> ('st \<Rightarrow> ('t, 'i, 's, ('ws \<times> principal) option) ws_result) \<Rightarrow> 'st set
     \<Rightarrow> ('sem, 'st, ('ch, 'nt, ('t, 'i, 's) callback, 'z) traced_scheme) server_state \<Rightarrow> bool" where
  "telling available n hs A s \<longleftrightarrow>
     server_inv available n s \<and> authentic hs A s \<and> told hs A (ss_tasks s) (ss_world s)"

lemma told_other:
  assumes "told hs A ts w" "connections w' = connections w" "trace w' = trace w"
  shows "told hs A ts w'"
proof -
  have "task_told w t \<Longrightarrow> task_told w' t" for t :: "'a task" by (cases t) (simp_all add: assms(2,3))
  then show ?thesis using assms by (auto simp: told_def id_told_def)
qed

lemma told_server_step:
  assumes "telling available n hs A s" "recorded env" "others_silent ev" "server_legal ev s"
  shows "told hs A (ss_tasks (server_step sem hs env ev s)) (ss_world (server_step sem hs env ev s))"
proof -
  obtain h where h: "quiet h" "env_handler env = recording h" "keeps_registrations h" "iterates (env_iter env)"
    using assms(2) by (auto simp: recorded_def)
  have inv: "server_inv available n s" "authentic hs A s" and T: "told hs A (ss_tasks s) (ss_world s)"
    using assms(1) by (simp_all add: telling_def)
  have task: "i < length (ss_tasks s) \<Longrightarrow> task_of_event ev = i \<Longrightarrow>
      told hs A (ss_tasks (task_step sem hs env i ev s)) (ss_world (task_step sem hs env i ev s))" for i
    using told_task_step [OF T inv _ _ h assms(4) refl] by blast
  show ?thesis
  proof (cases ev)
    case (Arrive st addr)
    have "told hs A (ss_tasks s @ [Handshaking st addr]) (ss_world s)" using T by (simp add: told_def)
    then show ?thesis using T by (simp add: Arrive server_step_simps split: option.split)
  next
    case (OtherTask f)
    have "connections (f (ss_world s)) = connections (ss_world s)"
      using assms(4) inv(1) by (simp add: OtherTask server_legal_def keeps_connections_def server_inv_def)
    then show ?thesis using told_other [OF T, of "f (ss_world s)"] assms(3) by (simp add: OtherTask server_step_simps others_silent_def)
  next
    case AcceptFails
    then show ?thesis using T by (simp add: server_step_simps)
  qed (use task T in \<open>simp_all add: server_step_def\<close>)
qed

context counting_semaphore begin

lemma telling_step:
  assumes s: "telling available n hs A s"
    and ok: "recorded env \<and> (arrives_in A ev \<and> others_silent ev) \<and> server_legal ev s"
  shows "telling available n hs A (server_step sem hs env ev s)"
proof -
  have w: "well_behaved env" using ok recording_keeps by (auto simp: recorded_def well_behaved_def)
  then have "server_inv available n (server_step sem hs env ev s)" "authentic hs A (server_step sem hs env ev s)"
    using s ok by (auto simp: telling_def intro: serving.step_inv authentic_step)
  then show ?thesis using told_server_step [OF s, of env ev sem] ok by (simp add: telling_def)
qed

end

sublocale counting_semaphore \<subseteq> recounting: machine
    "\<lambda>ev s. recorded env \<and> (arrives_in A ev \<and> others_silent ev) \<and> server_legal ev s"
    "server_step sem hs env" "telling available n hs A" for hs A env n
  by unfold_locales (rule telling_step)

context counting_semaphore begin

lemma serve_tasks_telling:
  assumes "telling available n hs A s" "recorded env" "list_all (\<lambda>ev. arrives_in A ev \<and> others_silent ev) evs"
    and "legal_ops server_legal (server_step sem hs env) evs s"
  shows "telling available n hs A (serve_tasks sem hs env evs s)"
  unfolding serve_tasks_def
  by (rule recounting.run_inv [OF assms(1) legal_ops_conj [OF assms(2) legal_ops_both [OF assms(3,4)]]])

end

text \<open>A server that starts, in a world that records the callbacks.\<close>

definition traced_new :: "('ch, 'nt) cells \<Rightarrow> ('ch, 'nt, 'e) traced" where
  "traced_new cls = world.extend (world_new cls) \<lparr>trace = []\<rparr>"

definition traced_start :: "'sem \<Rightarrow> ('ch, 'nt) cells \<Rightarrow> ('sem, 'st, ('ch, 'nt, 'e) traced) server_state" where
  "traced_start slots cls = \<lparr>ss_slots = slots, ss_tasks = [], ss_world = traced_new cls, ss_lost = []\<rparr>"

lemma traced_new_simps [simp]:
  "trace (traced_new cls) = []" "connections (traced_new cls) = Map.empty" "manager_ok (traced_new cls)"
proof -
  show "trace (traced_new cls) = []" "connections (traced_new cls) = Map.empty"
    by (simp_all add: traced_new_def world_new_def world.extend_def)
  show "manager_ok (traced_new cls)"
    by (intro manager_okI) (simp_all add: traced_new_def world_new_def world.extend_def heap_ok_def rooms_of_def members_of_def)
qed

section \<open>Properties\<close>

text \<open>
  C6. In a whole server, however its tasks interleave, the application hears of each connection in the
  order of the protocol: \<open>on_connect\<close>, then its messages, pings, pongs and errors, and at most one
  \<open>on_disconnect\<close>, all with the same principal; a connection it takes for open is registered under that
  principal; every principal it hears of was given by the authorizer for an admitted request; and when
  no task is left and none has panicked, every \<open>on_connect\<close> got its \<open>on_disconnect\<close>.
\<close>

theorem server_protocol:
  fixes accept :: "('st, 'req, 'resp, 'wc, 'ws, 't) acceptor" and auth :: "'req authorizer"
    and env :: "('ch, 'nt, 't, 'i, 's, ('ch, 'nt, ('t, 'i, 's) callback) traced) session_env"
  assumes "counting_semaphore sem max_permits available" and "upgrade accept request_of response_of"
    and "recorded env" and "list_all others_silent evs"
    and "legal_ops server_legal (server_step sem (\<lambda>st. handshake api accept is_http wca st auth (env_config env)
      :: ('t, 'i, 's, ('ws \<times> principal) option) ws_result) env) evs (traced_start slots cls)"
  shows "let s = serve_tasks sem (\<lambda>st. handshake api accept is_http wca st auth (env_config env)
      :: ('t, 'i, 's, ('ws \<times> principal) option) ws_result) env evs (traced_start slots cls); w = ss_world s
    in heard cid (trace w) \<noteq> None \<and>
      (\<forall>p. heard cid (trace w) = Some (Some p) \<longrightarrow> (\<exists>c. connections w cid = Some c \<and> conn_principal c = p)) \<and>
      (\<forall>p. Connected cid p \<in> set (trace w) \<longrightarrow>
         (\<exists>st addr. Arrive st addr \<in> set evs \<and>
            is_ok (origin_check api (config_origin_policy (env_config env)) (request_of st)) \<and>
            authorize auth (request_of st) = Inr p)) \<and>
      (ss_tasks s = [] \<and> ss_lost s = [] \<longrightarrow> heard cid (trace w) = Some None) \<and>
      ((\<forall>t. add_instant (env_time env) t (connection_timeout (env_config env)) \<noteq> None) \<longrightarrow>
         trace w = all_told sem (\<lambda>st. handshake api accept is_http wca st auth (env_config env)
           :: ('t, 'i, 's, ('ws \<times> principal) option) ws_result) env evs (traced_start slots cls))"
proof -
  let ?hs = "\<lambda>st. handshake api accept is_http wca st auth (env_config env)
    :: ('t, 'i, 's, ('ws \<times> principal) option) ws_result"
  let ?A = "{st. \<exists>addr. Arrive st addr \<in> set evs}"
  let ?start = "traced_start slots cls :: (_, 'st, ('ch, 'nt, ('t, 'i, 's) callback) traced) server_state"
  let ?s = "serve_tasks sem ?hs env evs ?start"
  have "telling available (available slots) ?hs ?A ?start"
    by (simp add: telling_def server_inv_def authentic_def told_def id_told_def traced_start_def)
  moreover have "list_all (\<lambda>ev. arrives_in ?A ev \<and> others_silent ev) evs"
    using assms(4) by (auto simp: list_all_iff arrives_in_def split: server_event.split)
  ultimately have T: "telling available (available slots) ?hs ?A ?s"
    using counting_semaphore.serve_tasks_telling [OF assms(1) _ assms(3) _ assms(5)] by blast
  have "\<exists>st addr. Arrive st addr \<in> set evs \<and>
      is_ok (origin_check api (config_origin_policy (env_config env)) (request_of st)) \<and>
      authorize auth (request_of st) = Inr p" if v: "vouched ?hs ?A p" for p
  proof -
    obtain st addr ws where st: "Arrive st addr \<in> set evs" and ok: "?hs st = Inr (Some (ws, p))"
      using v by (auto simp: vouched_def)
    have "admit api (config_origin_policy (env_config env)) auth (request_of st) = Inr p"
      using upgrade.handshake_admitted [OF assms(2) ok] .
    then show ?thesis using st by (auto simp: admit_Inr_iff)
  qed
  moreover have "heard cid (trace (ss_world ?s)) = Some None" if "ss_tasks ?s = []" "ss_lost ?s = []"
    using T that by (intro id_told_gone) (simp_all add: telling_def told_def server_inv_def)
  moreover have "trace (ss_world ?s) = all_told sem ?hs env evs ?start"
    if clock: "\<forall>t. add_instant (env_time env) t (connection_timeout (env_config env)) \<noteq> None"
  proof -
    obtain h where "quiet h" "env_handler env = recording h" using assms(3) by (auto simp: recorded_def)
    from serve_tasks_trace [OF this _ assms(4,5)] clock show ?thesis by (simp add: traced_start_def)
  qed
  ultimately show ?thesis using T by (auto simp: telling_def told_def id_told_def Let_def)
qed

text \<open>Two streams at a server whose handler is recorded: their tasks take turns, one comes to its end.\<close>

type_synonym heard_world = "(fifo, bool, (http_response option, unit, unit) callback) traced"

definition heard_events :: "(string list option, unit, unit, http_response option, heard_world) server_event list" where
  "heard_events =
     [Arrive (Some []) sample_addr, Arrive (Some []) sample_addr, HandshakeEnds 1 ''d'' 1, HandshakeEnds 0 ''c'' 0,
      ConnectReturns 0 0, ConnectReturns 1 0, TurnOf 0 (ReadNext 1 (Some (Inr (RawText ''hi'')))),
      TurnOf 1 (ReadNext 1 (Some (Inr (RawText ''ho'')))), TurnOf 0 (ReadNext 2 None), WriterEnds 0 True, DisconnectReturns 0]"

definition heard_calls :: "(http_response option, unit, unit) callback list" where
  "heard_calls =
     [Connected ''c'' principal_anonymous, Connected ''d'' principal_anonymous,
      GotMessage ''c'' principal_anonymous (text_msg ''hi''), GotMessage ''d'' principal_anonymous (text_msg ''ho''),
      Disconnected ''c'' principal_anonymous]"

theorem server_protocol_witness:
  "\<exists>w :: heard_world. Connected ''d'' principal_anonymous \<in> set (trace w) \<and>
     heard ''c'' (trace w) = Some None \<and> heard ''d'' (trace w) = Some (Some principal_anonymous) \<and>
     connections w ''d'' \<noteq> None \<and>
     trace w = heard_calls"
proof -
  let ?env = "sample_env (recording quiet_handler) :: (fifo, bool, http_response option, unit, unit, heard_world) session_env"
  let ?start = "traced_start 2 sample_cells :: (nat, string list option, heard_world) server_state"
  let ?hs = "\<lambda>st. handshake sample_http plain_accept (\<lambda>e. \<not> Option.is_none e) sample_wc st AllowAnonymous (env_config ?env)
    :: (http_response option, unit, unit, (string list \<times> principal) option) ws_result"
  let ?s = "serve_tasks (counter sample_permits) ?hs ?env heard_events ?start"
  note evals = serve_tasks_def heard_events_def server_step_simps counter_def task_step_def handshake_def plain_accept_def
    handshake_callback_def admit_no_origin sample_http_def end_task_def update_task_def session_evals handler_evals
    server_legal_def traced_start_def recording_def note_call_def traced_new_def world_new_def world.extend_def
  have rec: "recorded ?env"
    using quiet_quiet_handler small_handler by (auto simp: recorded_def sample_env_def iterates_by_id)
  have silent: "list_all others_silent heard_events" by (simp add: heard_events_def others_silent_def)
  have legal: "legal_ops server_legal (server_step (counter sample_permits) ?hs ?env) heard_events ?start"
    by (simp add: evals)
  have P: "(\<forall>p. heard cid (trace (ss_world ?s)) = Some (Some p) \<longrightarrow>
      (\<exists>c. connections (ss_world ?s) cid = Some c \<and> conn_principal c = p)) \<and>
      ((\<forall>t. add_instant (env_time ?env) t (connection_timeout (env_config ?env)) \<noteq> None) \<longrightarrow>
        trace (ss_world ?s) = all_told (counter sample_permits) ?hs ?env heard_events ?start)" for cid
    using server_protocol [OF counter.counting_semaphore_axioms plain.upgrade_axioms rec silent legal, unfolded Let_def]
    by blast
  have tr: "trace (ss_world ?s) = heard_calls"
  proof -
    have "\<forall>t. add_instant (env_time ?env) t (connection_timeout (env_config ?env)) \<noteq> None"
      by (simp add: session_evals)
    then have "trace (ss_world ?s) = all_told (counter sample_permits) ?hs ?env heard_events ?start"
      using P by blast
    also have "\<dots> = heard_calls"
      by (simp add: evals told_by_def callback_of_def heard_calls_def)
    finally show ?thesis .
  qed
  then have "heard ''d'' (trace (ss_world ?s)) = Some (Some principal_anonymous)"
    "heard ''c'' (trace (ss_world ?s)) = Some None"
    by (simp_all add: heard_def heard_calls_def)
  then show ?thesis using P [of "''d''"] tr by (intro exI [of _ "ss_world ?s"]) (auto simp: heard_calls_def)
qed

end
