(* ===== verification/Ws_Server_Refines.thy ===== *)
theory Ws_Server_Refines imports Ws_Server begin

text \<open>
  The whole server implements the accept loop: whatever its tasks do inside, to the listener and the
  semaphore they are tasks that run and end, and the task in each place serves the stream accepted
  for that place.
\<close>

section \<open>What the accept loop sees\<close>

definition accept_events ::
  "('st, 'c, 'f, 't, 'w) server_event \<Rightarrow> ('sem, 'st, 'w) server_state \<Rightarrow> ('sem, 'st, 'w) server_state
     \<Rightarrow> 'st accept_event list" where
  "accept_events ev s s1 =
     (case ev of
        Arrive st addr \<Rightarrow> [Incoming st addr]
      | AcceptFails \<Rightarrow> [AcceptError]
      | OtherTask _ \<Rightarrow> []
      | _ \<Rightarrow> if length (ss_tasks s1) < length (ss_tasks s) then [TaskEnds (task_of_event ev)] else [])"

fun accept_trace ::
  "'sem semaphore \<Rightarrow> ('st \<Rightarrow> ('t, 'i, 's, ('ws \<times> principal) option) ws_result)
     \<Rightarrow> ('ch, 'nt, 't, 'i, 's, ('ch, 'nt, 'z) world_scheme) session_env
     \<Rightarrow> ('st, 'c, 'f, 't, ('ch, 'nt, 'z) world_scheme) server_event list
     \<Rightarrow> ('sem, 'st, ('ch, 'nt, 'z) world_scheme) server_state \<Rightarrow> 'st accept_event list" where
  "accept_trace sem hs env [] s = []"
| "accept_trace sem hs env (ev # evs) s =
     accept_events ev s (server_step sem hs env ev s) @ accept_trace sem hs env evs (server_step sem hs env ev s)"

text \<open>A task for an accepted stream: it is in its handshake, or its connection came out of it.\<close>

definition served ::
  "('st \<Rightarrow> ('t, 'i, 's, ('ws \<times> principal) option) ws_result) \<Rightarrow> 'st \<times> socket_addr
     \<Rightarrow> connection \<Rightarrow> principal \<Rightarrow> bool" where
  "served hs a c p \<longleftrightarrow>
     remote_addr c = Some (snd a) \<and> conn_principal c = p \<and> (\<exists>ws. hs (fst a) = Inr (Some (ws, p)))"

fun task_from ::
  "('st \<Rightarrow> ('t, 'i, 's, ('ws \<times> principal) option) ws_result) \<Rightarrow> 'st \<times> socket_addr \<Rightarrow> 'st task \<Rightarrow> bool" where
  "task_from hs a (Handshaking st addr) = (a = (st, addr))"
| "task_from hs a (Connecting c p) = served hs a c p"
| "task_from hs a (Serving c p _) = served hs a c p"
| "task_from hs a (Flushing c p) = served hs a c p"
| "task_from hs a (Disconnecting c p) = served hs a c p"

definition simulates ::
  "('st \<Rightarrow> ('t, 'i, 's, ('ws \<times> principal) option) ws_result) \<Rightarrow> ('sem, 'st) accept_state
     \<Rightarrow> ('sem, 'st, 'w) server_state \<Rightarrow> bool" where
  "simulates hs a s \<longleftrightarrow> ac_slots a = ss_slots s \<and> list_all2 (task_from hs) (ac_tasks a) (ss_tasks s)"

section \<open>The simulation\<close>

lemma serve_Nil: "serve sem [] a = a" and serve_one: "serve sem [ev] a = serve_step sem ev a"
  by (simp_all add: serve_def)

lemma simulates_end:
  assumes "simulates hs a s" "i < length (ss_tasks s)"
  shows "simulates hs (serve_step sem (TaskEnds i) a) (end_task sem i (s\<lparr>ss_world := w, ss_lost := l\<rparr>))"
  using assms by (auto simp: simulates_def end_task_def dest: list_all2_lengthD
      intro!: list_all2_appendI list_all2_takeI list_all2_dropI)

lemma simulates_panic:
  assumes "simulates hs a s" "i < length (ss_tasks s)"
  shows "simulates hs (serve_step sem (TaskEnds i) a) (panic_task sem i cid w s)"
  unfolding panic_task_def using assms by (rule simulates_end)

lemma simulates_end_same:
  assumes "simulates hs a s" "i < length (ss_tasks s)"
  shows "simulates hs (serve_step sem (TaskEnds i) a) (end_task sem i s)"
  using simulates_end [OF assms, where sem = sem and w = "ss_world s" and l = "ss_lost s"] by simp

lemma simulates_update:
  assumes "simulates hs a s" "task_from hs (ac_tasks a ! i) t"
  shows "simulates hs a (update_task i t w s)"
proof (cases "i < length (ss_tasks s)")
  case True
  then have "list_all2 (task_from hs) ((ac_tasks a)[i := ac_tasks a ! i]) ((ss_tasks s)[i := t])"
    using assms by (intro list_all2_update_cong) (simp_all add: simulates_def)
  then show ?thesis using assms(1) by (simp add: simulates_def update_task_def)
qed (use assms(1) in \<open>simp add: simulates_def update_task_def not_less list_update_beyond\<close>)

lemma shorter [simp]:
  "i < length (ss_tasks s) \<Longrightarrow> length (ss_tasks (end_task sem i s)) < length (ss_tasks s)"
  "i < length (ss_tasks s) \<Longrightarrow> length (ss_tasks (panic_task sem i cid w s)) < length (ss_tasks s)"
  "length (ss_tasks (update_task i t w s)) = length (ss_tasks s)"
  by (simp_all add: end_task_def panic_task_def update_task_def)

lemma task_step_simulates:
  assumes S: "simulates hs a s" and i: "i < length (ss_tasks s)" "task_of_event ev = i"
  shows "let s1 = task_step sem hs env i ev s
    in simulates hs (serve sem (if length (ss_tasks s1) < length (ss_tasks s) then [TaskEnds i] else []) a) s1"
proof -
  have t: "task_from hs (ac_tasks a ! i) (ss_tasks s ! i)"
    using S i(1) by (simp add: simulates_def list_all2_nthD2)
  note ends = simulates_end_same [OF S i(1), of sem] simulates_panic [OF S i(1), of sem] simulates_update [OF S]
  from i(2) show ?thesis
  proof (cases rule: task_step_cases [of ev i s _ sem hs env])
    case (handshake st addr cid ref)
    have "remote_addr c = Some addr \<and> conn_principal c = p"
      if "session_register env cid addr ref p (ss_world s) = Returns c w" for c p w
      using that by (auto simp: session_register_def connection_new_def Let_def split: if_splits)
    then have opened: "task_from hs (ac_tasks a ! i) (Connecting c p)"
      if "session_register env cid addr ref p (ss_world s) = Returns c w" "hs st = Inr (Some (ws, p))" for c p w ws
      using that t handshake(1) by (auto simp: served_def)
    show ?thesis
      using ends opened i(1) handshake
      by (simp add: task_step_def serve_Nil serve_one Let_def del: serve_step.simps split: sum.split option.split call.split)
  next
    case (connect c p now)
    then show ?thesis using ends t i(1)
      by (cases "session_connected env c p (ss_world s)") (simp_all add: task_step_def serve_Nil serve_one del: serve_step.simps)
  next
    case (turn c p sn turn)
    then show ?thesis using ends t i(1)
      by (cases "loop_turn env c p turn sn (ss_world s)") (simp_all add: task_step_def serve_Nil serve_one del: serve_step.simps)
  next
    case (flush c p flushed)
    then show ?thesis using ends t i(1) by (simp add: task_step_def serve_Nil serve_one del: serve_step.simps)
  next
    case (disconnect c p)
    have "simulates hs (serve_step sem (TaskEnds i) a) (end_task sem i (s\<lparr>ss_world := w\<rparr>))" for w
      using simulates_end [OF S i(1), where sem = sem and w = w and l = "ss_lost s"] by simp
    moreover have "length (ss_tasks (end_task sem i (s\<lparr>ss_world := w\<rparr>))) < length (ss_tasks s)" for w
      using shorter(1) [of i "s\<lparr>ss_world := w\<rparr>"] i(1) by simp
    ultimately show ?thesis using ends t i(1) disconnect
      by (cases "teardown_disconnect env c p (ss_world s)") (simp_all add: task_step_def serve_Nil serve_one del: serve_step.simps)
  next
    case none
    then show ?thesis using S by (simp add: serve_Nil serve_one del: serve_step.simps)
  qed
qed

lemma server_step_simulates:
  assumes "simulates hs a s"
  shows "simulates hs (serve sem (accept_events ev s (server_step sem hs env ev s)) a) (server_step sem hs env ev s)"
proof -
  have task: ?thesis if "\<nexists>st addr. ev = Arrive st addr" "ev \<noteq> AcceptFails" "\<nexists>f. ev = OtherTask f"
    using that task_step_simulates [OF assms _ refl, of ev sem env] assms
    by (cases ev) (auto simp: server_step_def accept_events_def serve_Nil Let_def split: if_splits)
  show ?thesis
  proof (cases ev)
    case (Arrive st addr)
    then show ?thesis using assms
      by (auto simp: server_step_simps accept_events_def serve_def simulates_def
          intro!: list_all2_appendI split: option.split)
  next
    case AcceptFails
    then show ?thesis using assms by (simp add: server_step_simps accept_events_def serve_def)
  next
    case (OtherTask f)
    then show ?thesis using assms by (simp add: server_step_simps accept_events_def serve_def simulates_def)
  qed (use task in simp_all)
qed

lemma serve_tasks_simulates:
  "simulates hs a s \<Longrightarrow>
     simulates hs (serve sem (accept_trace sem hs env evs s) a) (serve_tasks sem hs env evs s)"
proof (induction evs arbitrary: a s)
  case Nil
  then show ?case by (simp add: serve_def serve_tasks_def)
next
  case (Cons ev evs)
  from Cons.IH [OF server_step_simulates [OF Cons.prems, of sem ev env]] show ?case
    by (simp add: serve_def serve_tasks_def run_ops_append)
qed

text \<open>The streams that come in, in order, are those of the server.\<close>

fun incoming :: "'st accept_event \<Rightarrow> ('st \<times> socket_addr) list" where
  "incoming (Incoming st addr) = [(st, addr)]"
| "incoming _ = []"

fun arrival :: "('st, 'c, 'f, 't, 'w) server_event \<Rightarrow> ('st \<times> socket_addr) list" where
  "arrival (Arrive st addr) = [(st, addr)]"
| "arrival _ = []"

lemma accept_events_incoming: "concat (map incoming (accept_events ev s s1)) = arrival ev"
  by (cases ev) (simp_all add: accept_events_def)

lemma accept_trace_incoming:
  "concat (map incoming (accept_trace sem hs env evs s)) = concat (map arrival evs)"
  by (induction evs arbitrary: s) (simp_all add: accept_events_incoming)

section \<open>Properties\<close>

text \<open>
  C14. The whole server implements the accept loop: every run of a server and its tasks is, seen from the
  listener, a run of \<open>serve\<close> with the same streams coming in, in the same order, in which tasks end
  when the connections do; both have the same permits left, and the task in each place serves the
  stream and address accepted there, with the principal that the handshake of that stream gave.
\<close>

theorem server_implements_accept_loop:
  fixes sv :: "('ch, 'nt, 'req, ('t, 'i, 's, ('ch, 'nt) world) handler, 'sem) server"
    and accept :: "('st, 'req, 'resp, 'wc, 'ws, 't) acceptor"
  shows "let hs = server_handshake api accept is_http wca sv :: 'st \<Rightarrow> ('t, 'i, 's, ('ws \<times> principal) option) ws_result;
      s = run_server sem api accept is_http wca sv env evs;
      aevs = accept_trace sem hs (server_env sv env) evs (server_start sv)
    in concat (map incoming aevs) = concat (map arrival evs) \<and>
      (case server_run bind sv :: ('t, 'i, 's, 'l \<times> ('sem, 'st) accept_state) ws_result of
         Inl e \<Rightarrow> True
       | Inr (listener, a0) \<Rightarrow>
           ac_slots (serve sem aevs a0) = ss_slots s \<and>
           list_all2 (task_from hs) (ac_tasks (serve sem aevs a0)) (ss_tasks s))"
proof -
  let ?hs = "server_handshake api accept is_http wca sv :: 'st \<Rightarrow> ('t, 'i, 's, ('ws \<times> principal) option) ws_result"
  have start: "simulates ?hs \<lparr>ac_slots = sv_slots sv, ac_tasks = [], ac_dropped = []\<rparr> (server_start sv)"
    by (simp add: simulates_def server_start_def)
  from serve_tasks_simulates [OF start, of sem "server_env sv env" evs] show ?thesis
    by (cases "bind (bind_addr (sv_config sv))")
      (simp_all add: accept_trace_incoming server_run_def run_server_def simulates_def from_error_defs Let_def)
qed

end
