(* ===== verification/Ws_Wire.thy ===== *)
theory Ws_Wire imports Ws_Writer Ws_Machine begin

text \<open>
  A connection's queue and its writer task together, in any interleaving: the holders of handles
  and the server loop act on the cell (\<open>Connection\<close> of \<open>connection.rs\<close>), and the writer task takes
  one turn of the loop of \<open>ConnectionWriter::run\<close> at a time, sees its channel end when the last
  handle is gone, or is aborted by the teardown of \<open>server.rs\<close>, between two messages or in the
  middle of a send.
\<close>

datatype ('sk, 't) writer_task =
    Writing 'sk
  | Finished "'t + unit" 'sk
  | WriterAborted 'sk

datatype wire_op =
    ByHolder conn_op
  | WriterTurn
  | ChannelEnds
  | AbortWriter
  | AbortInSend

type_synonym ('ch, 'nt, 'sk, 't) wired = "('ch, 'nt) conn_run \<times> ('sk, 't) writer_task"

definition writer_sink :: "('sk, 't) writer_task \<Rightarrow> 'sk" where
  "writer_sink wr = (case wr of Writing sk \<Rightarrow> sk | Finished _ sk \<Rightarrow> sk | WriterAborted sk \<Rightarrow> sk)"

text \<open>One turn of the loop: a message, if there is one; the receiver is dropped with the task.\<close>

definition loop_body ::
  "('ch, 'nt) runtime \<Rightarrow> ('sk, 'c, 'f, 't) sink_api \<Rightarrow> ('ch, 'nt) conn_run \<Rightarrow> 'sk
     \<Rightarrow> ('ch, 'nt, 'sk, 't) wired" where
  "loop_body rt api s sk =
     (case cell_recv rt (r_cell s) of
        None \<Rightarrow> (s, Writing sk)
      | Some (m, _) \<Rightarrow>
          (let s1 = conn_step rt OpRecv s
           in case raw_of_message m of
                Inl _ \<Rightarrow> (s1, Writing sk)
              | Inr raw \<Rightarrow>
                  (case sink_send api raw sk of
                     (Inl e, sk1) \<Rightarrow> (conn_step rt OpDropRx s1, Finished (Inl e) sk1)
                   | (Inr _, sk1) \<Rightarrow>
                       if is_close m
                       then (conn_step rt OpDropRx s1, Finished (Inr ()) (sink_close api sk1))
                       else (s1, Writing sk1))))"

definition wire_step ::
  "('ch, 'nt) runtime \<Rightarrow> ('sk, 'c, 'f, 't) sink_api \<Rightarrow> wire_op \<Rightarrow> ('ch, 'nt, 'sk, 't) wired
     \<Rightarrow> ('ch, 'nt, 'sk, 't) wired" where
  "wire_step rt api op st =
     (let (s, wr) = st in
      case op of
        ByHolder cop \<Rightarrow> (conn_step rt cop s, wr)
      | _ \<Rightarrow>
          (case wr of
             Writing sk \<Rightarrow>
               (case op of
                  WriterTurn \<Rightarrow> loop_body rt api s sk
                | ChannelEnds \<Rightarrow>
                    (case cell_recv rt (r_cell s) of
                       None \<Rightarrow> (conn_step rt OpDropRx s, Finished (Inr ()) (sink_close api sk))
                     | Some _ \<Rightarrow> st)
                | AbortWriter \<Rightarrow> (conn_step rt OpDropRx s, WriterAborted sk)
                | AbortInSend \<Rightarrow> (conn_step rt OpDropRx (conn_step rt OpRecv s), WriterAborted sk))
           | _ \<Rightarrow> st))"

text \<open>Only the writer task receives and drops the receiver.\<close>

definition holder_op :: "conn_op \<Rightarrow> bool" where
  "holder_op op \<longleftrightarrow> op \<noteq> OpRecv \<and> op \<noteq> OpDropRx"

definition wire_legal :: "wire_op \<Rightarrow> bool" where
  "wire_legal op \<longleftrightarrow> (case op of ByHolder cop \<Rightarrow> holder_op cop | _ \<Rightarrow> True)"

definition wire_run ::
  "('ch, 'nt) runtime \<Rightarrow> ('sk, 'c, 'f, 't) sink_api \<Rightarrow> wire_op list \<Rightarrow> ('ch, 'nt, 'sk, 't) wired
     \<Rightarrow> ('ch, 'nt, 'sk, 't) wired" where
  "wire_run rt api ops st = run_ops (wire_step rt api) ops st"

section \<open>The invariant\<close>

abbreviation no_close :: "message list \<Rightarrow> bool" where
  "no_close ms \<equiv> list_all (\<lambda>m. \<not> is_close m) ms"

context mpsc_channel begin

lemma holder_step:
  assumes "holder_op op"
  shows "r_received (conn_step rt op s) = r_received s"
    and "rx_alive (c_tx (r_cell (conn_step rt op s))) = rx_alive (c_tx (r_cell s))"
    and "\<not> rx_alive (c_tx (r_cell s)) \<Longrightarrow> r_accepted (conn_step rt op s) = r_accepted s"
proof -
  have alive: "rx_alive (snd (rt_try_send rt m ch)) = rx_alive ch" for m ch
    by (rule try_send_cases [of ch m]) auto
  show "r_received (conn_step rt op s) = r_received s"
    using assms by (cases op) (auto simp: holder_op_def case_prod_unfold Let_def split: option.split)
  show "rx_alive (c_tx (r_cell (conn_step rt op s))) = rx_alive (c_tx (r_cell s))"
    using assms by (cases op)
      (auto simp: holder_op_def case_prod_unfold Let_def cell_send_tx cell_close_tx alive
        cell_set_state_def dest!: cell_evicted_Some split: option.split)
  show "r_accepted (conn_step rt op s) = r_accepted s" if "\<not> rx_alive (c_tx (r_cell s))"
    using assms that try_send_closed [OF that]
    by (cases op) (auto simp: holder_op_def case_prod_unfold Let_def cell_send_ok_iff split: option.split)
qed

lemma recv_step:
  assumes "cell_recv rt (r_cell s) = Some (m, cl)"
  shows "r_received (conn_step rt OpRecv s) = r_received s @ [m]"
    and "rx_alive (c_tx (r_cell (conn_step rt OpRecv s))) = rx_alive (c_tx (r_cell s))"
    and "queued (c_tx (r_cell s)) = m # queued (c_tx (r_cell (conn_step rt OpRecv s)))"
    and "r_accepted (conn_step rt OpRecv s) = r_accepted s"
  using assms cell_recv_Some [OF assms]
  by (cases rule: recv_cases [of "c_tx (r_cell s)"]; simp)+

lemma no_recv_step: "cell_recv rt (r_cell s) = None \<Longrightarrow> queued (c_tx (r_cell s)) = []"
  by (cases rule: recv_cases [of "c_tx (r_cell s)"]) (auto simp: cell_recv_def)

lemma drop_step [simp]:
  "r_received (conn_step rt OpDropRx s) = r_received s"
  "r_accepted (conn_step rt OpDropRx s) = r_accepted s"
  "\<not> rx_alive (c_tx (r_cell (conn_step rt OpDropRx s)))"
  by (simp_all add: cell_drop_rx_def drop_rx)

end

locale wired_connection = mpsc_channel rt queued capacity rx_alive + message_sink api written
  for rt :: "('ch, 'nt) runtime" and queued capacity rx_alive
    and api :: "('sk, 'c, 'f, 't) sink_api" and written
begin

text \<open>
  What is on the wire: all of the received messages while the writer lives, which then had no Close
  among them, and when it ended well; a part of them otherwise.
\<close>

definition wire_ok :: "('c, 'f) raw_message list \<Rightarrow> ('ch, 'nt, 'sk, 't) wired \<Rightarrow> bool" where
  "wire_ok before st \<longleftrightarrow>
     (let (s, wr) = st; alive = rx_alive (c_tx (r_cell s)) in
      run_ok s \<and>
      (case wr of
         Writing sk \<Rightarrow> alive \<and> no_close (r_received s) \<and> written sk = before @ wire (r_received s)
       | Finished (Inr _) sk \<Rightarrow> \<not> alive \<and> written sk = before @ wire (r_received s) \<and>
           (no_close (r_received s) \<longrightarrow> r_accepted s = r_received s)
       | Finished (Inl _) sk \<Rightarrow>
           \<not> alive \<and> (\<exists>out. prefix out (wire (r_received s)) \<and> written sk = before @ out)
       | WriterAborted sk \<Rightarrow>
           \<not> alive \<and> (\<exists>out. prefix out (wire (r_received s)) \<and> written sk = before @ out)))"

lemma wire_ok_simps:
  "wire_ok before (s, Writing sk) \<longleftrightarrow> run_ok s \<and> rx_alive (c_tx (r_cell s)) \<and>
     no_close (r_received s) \<and> written sk = before @ wire (r_received s)"
  "wire_ok before (s, Finished (Inr u) sk) \<longleftrightarrow> run_ok s \<and> \<not> rx_alive (c_tx (r_cell s)) \<and>
     written sk = before @ wire (r_received s) \<and> (no_close (r_received s) \<longrightarrow> r_accepted s = r_received s)"
  "wire_ok before (s, Finished (Inl e) sk) \<longleftrightarrow> run_ok s \<and> \<not> rx_alive (c_tx (r_cell s)) \<and>
     (\<exists>out. prefix out (wire (r_received s)) \<and> written sk = before @ out)"
  "wire_ok before (s, WriterAborted sk) \<longleftrightarrow> run_ok s \<and> \<not> rx_alive (c_tx (r_cell s)) \<and>
     (\<exists>out. prefix out (wire (r_received s)) \<and> written sk = before @ out)"
  by (simp_all add: wire_ok_def Let_def)

lemma wire_ok_start [inv_intros]: "0 < n \<Longrightarrow> wire_ok (written sk) (conn_start rt n, Writing sk)"
  using run_ok_start [of n]
  by (simp add: wire_ok_simps conn_start_def cell_new_def channel_new)

lemma wire_ok_holder [inv_intros]:
  assumes "wire_ok before (s, wr)" "holder_op op"
  shows "wire_ok before (conn_step rt op s, wr)"
proof (cases wr)
  case (Finished r sk)
  then show ?thesis
    using assms(1) run_ok_step [of s op] holder_step [OF assms(2), of s]
    by (cases r) (auto simp: wire_ok_simps)
qed (use assms(1) run_ok_step [of s op] holder_step [OF assms(2), of s] in \<open>auto simp: wire_ok_simps\<close>)

lemma wire_ok_body [inv_intros]:
  assumes "wire_ok before (s, Writing sk)"
  shows "wire_ok before (loop_body rt api s sk)"
proof (cases "cell_recv rt (r_cell s)")
  case None
  then show ?thesis using assms by (simp add: loop_body_def)
next
  case (Some mc)
  then obtain m cl where r: "cell_recv rt (r_cell s) = Some (m, cl)" by (cases mc) auto
  let ?s1 = "conn_step rt OpRecv s" and ?s2 = "conn_step rt OpDropRx (conn_step rt OpRecv s)"
  have ok: "run_ok ?s1" "run_ok ?s2" using assms by (simp_all add: wire_ok_simps run_ok_step del: conn_step.simps)
  have w: "no_close (r_received s)" "written sk = before @ wire (r_received s)" "rx_alive (c_tx (r_cell s))"
    using assms by (simp_all add: wire_ok_simps)
  note recv = recv_step [OF r]
  show ?thesis
  proof (cases "raw_of_message m :: invalid_text_payload + ('c, 'f) raw_message")
    case (Inl e)
    then have "\<not> is_close m" by (auto simp: raw_of_message_close)
    then show ?thesis
      using r ok w recv by (simp add: wire_snoc Inl loop_body_def wire_ok_simps del: conn_step.simps)
  next
    case (Inr raw)
    have snoc: "wire (r_received s @ [m]) = wire (r_received s) @ [raw]"
      using w(1) Inr by (simp add: wire_snoc)
    obtain res sk1 where snd: "sink_send api raw sk = (res, sk1)" by (cases "sink_send api raw sk")
    show ?thesis
    proof (cases res)
      case (Inl e)
      have "written sk1 = before @ wire (r_received s) \<or> written sk1 = before @ wire (r_received s @ [m])"
        using send_err snd Inl w(2) snoc by force
      then have "\<exists>out. prefix out (wire (r_received s @ [m])) \<and> written sk1 = before @ out"
        using snoc by auto
      then show ?thesis
        using Inl snd r ok recv \<open>raw_of_message m = Inr raw\<close>
        by (simp add: loop_body_def wire_ok_simps del: conn_step.simps)
    next
      case (Inr u)
      then have "written sk1 = before @ wire (r_received s @ [m])" using send_ok snd w(2) snoc by force
      then show ?thesis
        using Inr snd r ok w recv \<open>raw_of_message m = Inr raw\<close>
        by (simp add: loop_body_def Let_def wire_ok_simps close_written del: conn_step.simps)
    qed
  qed
qed

lemma wire_ok_end [inv_intros]:
  assumes "wire_ok before (s, Writing sk)" "cell_recv rt (r_cell s) = None"
  shows "wire_ok before (conn_step rt OpDropRx s, Finished (Inr ()) (sink_close api sk))"
proof -
  have "r_accepted s = r_received s"
    using assms(1) no_recv_step [OF assms(2)] by (auto simp: wire_ok_simps run_ok_def)
  then show ?thesis
    using assms(1) run_ok_step [of s OpDropRx]
    by (simp add: wire_ok_simps close_written del: conn_step.simps)
qed

lemma wire_ok_abort [inv_intros]:
  assumes "wire_ok before (s, Writing sk)" "s' = s \<or> s' = conn_step rt OpRecv s"
  shows "wire_ok before (conn_step rt OpDropRx s', WriterAborted sk)"
proof -
  have "prefix (r_received s) (r_received s')"
    using assms(2) by (auto split: option.split)
  then have "prefix (wire (r_received s)) (wire (r_received s'))" by (rule wire_prefix)
  then show ?thesis
    using assms run_ok_step by (auto simp: wire_ok_simps simp del: conn_step.simps)
qed

lemma wire_ok_step:
  assumes "wire_ok before st" "wire_legal op"
  shows "wire_ok before (wire_step rt api op st)"
proof (cases st)
  case (Pair s wr)
  show ?thesis
  proof (cases op)
    case (ByHolder cop)
    then show ?thesis using assms Pair by (simp add: wire_step_def wire_legal_def inv_intros del: conn_step.simps)
  next
    case ChannelEnds
    then show ?thesis using assms Pair
      by (auto simp: wire_step_def simp del: conn_step.simps intro: inv_intros split: writer_task.split option.split)
  qed (use assms Pair in
      \<open>auto simp: wire_step_def simp del: conn_step.simps intro: inv_intros split: writer_task.split\<close>)
qed

end

sublocale wired_connection \<subseteq> wiring: machine "\<lambda>op _. wire_legal op" "wire_step rt api" "wire_ok before" for before
  by unfold_locales (rule wire_ok_step)

text \<open>The writer's turns after it ended, and while it lives.\<close>

lemma wire_run_simps [simp]:
  "wire_run rt api [] st = st"
  "wire_run rt api (op # ops) st = wire_run rt api ops (wire_step rt api op st)"
  by (simp_all add: wire_run_def)

lemma wire_run_append: "wire_run rt api (xs @ ys) st = wire_run rt api ys (wire_run rt api xs st)"
  by (simp add: wire_run_def run_ops_append)

lemma wire_turn: "wire_step rt api WriterTurn (s, Writing sk) = loop_body rt api s sk"
  by (simp add: wire_step_def)

lemma finished_run:
  "wire_run rt api (replicate k WriterTurn) (s, Finished r sk) = (s, Finished r sk)"
  "wire_step rt api ChannelEnds (s, Finished r sk) = (s, Finished r sk)"
  by (induction k) (simp_all add: wire_step_def)

context wired_connection begin

lemma wire_ok_run:
  assumes "0 < n" "list_all wire_legal ops"
  shows "wire_ok (written sk) (wire_run rt api ops (conn_start rt n, Writing sk))"
  unfolding wire_run_def
  by (rule wiring.run_inv) (simp_all add: assms wire_ok_start legal_ops_list_all)

lemma wire_part:
  assumes "wire_ok before (s, wr)"
  shows "\<exists>out. prefix out (wire (r_accepted s)) \<and> written (writer_sink wr) = before @ out"
proof -
  have "prefix (r_received s) (r_accepted s)"
    using assms by (auto simp: wire_ok_def run_ok_def Let_def)
  then have p: "prefix (wire (r_received s)) (wire (r_accepted s))" by (rule wire_prefix)
  show ?thesis
  proof (cases wr)
    case (Finished r sk)
    then show ?thesis using assms p prefix_order.trans
      by (cases r) (auto simp: wire_ok_simps writer_sink_def)
  qed (use assms p prefix_order.trans in \<open>auto simp: wire_ok_simps writer_sink_def\<close>)
qed

lemma wire_whole:
  assumes "wire_ok before (s, wr)"
    and "case wr of Writing _ \<Rightarrow> queued (c_tx (r_cell s)) = [] | Finished r _ \<Rightarrow> is_ok r
      | WriterAborted _ \<Rightarrow> False"
  shows "written (writer_sink wr) = before @ wire (r_accepted s)"
proof (cases wr)
  case (Writing sk)
  then show ?thesis using assms by (auto simp: wire_ok_simps run_ok_def writer_sink_def)
next
  case (Finished r sk)
  then obtain u where "r = Inr u" using assms(2) by (auto simp: is_ok_iff)
  moreover obtain rest where "r_accepted s = r_received s @ rest"
    using assms(1) by (auto simp: wire_ok_def run_ok_def Let_def)
  ultimately show ?thesis
    using assms(1) Finished
    by (cases "no_close (r_received s)") (auto simp: wire_ok_simps wire_append_close writer_sink_def)
qed (use assms in simp)

text \<open>The writer catches up when its sends succeed.\<close>

lemma body_reliable:
  assumes "\<And>raw sk. is_ok (fst (sink_send api raw sk))" and "queued (c_tx (r_cell s)) = m # ms"
  obtains s1 sk1 where "r_accepted s1 = r_accepted s"
    "loop_body rt api s sk = (s1, Writing sk1) \<and> queued (c_tx (r_cell s1)) = ms \<or>
     loop_body rt api s sk = (s1, Finished (Inr ()) sk1)"
proof -
  obtain ch where "rt_recv rt (c_tx (r_cell s)) = Some (m, ch)"
    using recv_head [OF assms(2)] by blast
  then have r: "cell_recv rt (r_cell s) = Some (m, (r_cell s)\<lparr>c_tx := ch\<rparr>)" by (simp add: cell_recv_def)
  note recv = recv_step [OF r]
  show ?thesis
  proof (cases "raw_of_message m :: invalid_text_payload + ('c, 'f) raw_message")
    case (Inl e)
    show ?thesis
      by (rule that [of "conn_step rt OpRecv s" sk])
        (use Inl r recv assms(2) in \<open>simp_all add: loop_body_def Let_def del: conn_step.simps\<close>)
  next
    case (Inr raw)
    obtain sk1 where snd: "sink_send api raw sk = (Inr (), sk1)"
      using assms(1) [of raw sk] by (cases "sink_send api raw sk") (auto simp: is_ok_iff)
    show ?thesis
    proof (cases "is_close m")
      case True
      show ?thesis
        by (rule that [of "conn_step rt OpDropRx (conn_step rt OpRecv s)" "sink_close api sk1"])
          (use Inr snd True r recv in \<open>simp_all add: loop_body_def Let_def del: conn_step.simps\<close>)
    next
      case False
      show ?thesis
        by (rule that [of "conn_step rt OpRecv s" sk1])
          (use Inr snd False r recv assms(2) in \<open>simp_all add: loop_body_def Let_def del: conn_step.simps\<close>)
    qed
  qed
qed

lemma drains:
  assumes "\<And>raw sk. is_ok (fst (sink_send api raw sk))"
  shows "queued (c_tx (r_cell s)) = ms \<Longrightarrow> \<exists>s1 wr.
    wire_run rt api (replicate (length ms) WriterTurn) (s, Writing sk) = (s1, wr) \<and>
    r_accepted s1 = r_accepted s \<and>
    (case wr of Writing _ \<Rightarrow> queued (c_tx (r_cell s1)) = [] | Finished r _ \<Rightarrow> is_ok r
      | WriterAborted _ \<Rightarrow> False)"
proof (induction ms arbitrary: s sk)
  case Nil
  then show ?case by simp
next
  case (Cons m ms)
  obtain s1 sk1 where "r_accepted s1 = r_accepted s"
    "loop_body rt api s sk = (s1, Writing sk1) \<and> queued (c_tx (r_cell s1)) = ms \<or>
     loop_body rt api s sk = (s1, Finished (Inr ()) sk1)"
    using body_reliable [OF assms Cons.prems] by blast
  then show ?case using Cons.IH [of s1 sk1] by (auto simp: wire_turn finished_run)
qed

text \<open>Turn by turn, the writer does what \<open>writer_run\<close> does with the whole queue.\<close>

lemma turns_run:
  "queued (c_tx (r_cell s)) = ms \<Longrightarrow> \<exists>s1 r sk1 rest.
    wire_run rt api (replicate (length ms) WriterTurn @ [ChannelEnds]) (s, Writing sk) = (s1, Finished r sk1) \<and>
    (writer_run api ms sk :: ('t, 'i, 's, unit) ws_result \<times> _) = (map_sum Protocol id r, sk1, rest)"
proof (induction ms arbitrary: s sk)
  case Nil
  then have "cell_recv rt (r_cell s) = None" by (simp add: cell_recv_def recv_empty)
  then show ?case by (simp add: wire_step_def del: conn_step.simps)
next
  case (Cons m ms)
  obtain ch where "rt_recv rt (c_tx (r_cell s)) = Some (m, ch)"
    using recv_head [OF Cons.prems] by blast
  then have r: "cell_recv rt (r_cell s) = Some (m, (r_cell s)\<lparr>c_tx := ch\<rparr>)" by (simp add: cell_recv_def)
  have q: "queued (c_tx (r_cell (conn_step rt OpRecv s))) = ms" using recv_step(3) [OF r] Cons.prems by simp
  show ?case
    using Cons.IH [OF q] r
    by (auto simp: wire_turn loop_body_def Let_def wire_run_append finished_run
        simp del: conn_step.simps split: sum.split prod.split)
qed

end

interpretation wired_fifo: wired_connection fifo_runtime f_buf f_cap f_alive wire_api ws_out
  by (intro wired_connection.intro fifo.mpsc_channel_axioms wire.message_sink_axioms)

lemma wire_run_prefix:
  assumes "mpsc_channel rt queued capacity rx_alive" and "message_sink api written"
    and "0 < n" and "list_all wire_legal ops"
  shows "\<exists>out. written (writer_sink (snd (wire_run rt api ops (conn_start rt n, Writing sk)))) = written sk @ out \<and>
    prefix out (wire (r_accepted (fst (wire_run rt api ops (conn_start rt n, Writing sk)))))"
proof -
  have w: "wired_connection rt queued capacity rx_alive api written"
    using assms(1,2) by (rule wired_connection.intro)
  obtain s wr where st: "wire_run rt api ops (conn_start rt n, Writing sk) = (s, wr)" by fastforce
  have "wired_connection.wire_ok queued capacity rx_alive written (written sk) (s, wr)"
    using wired_connection.wire_ok_run [OF w assms(3,4), of sk] by (simp add: st)
  from wired_connection.wire_part [OF w this] show ?thesis by (auto simp: st)
qed

section \<open>Properties\<close>

text \<open>
  C2. From \<open>send\<close> to the wire: in every interleaving of a connection's holders with its writer
  task, what is on the wire is a prefix of the wire image of the messages the connection accepted,
  in the order it accepted them, with at most one Close, as the last.  It is all of it whenever the
  writer ended well or waits with an empty queue: an accepted message is left out only when a send
  failed, the writer was aborted, or it came after a Close.
\<close>

theorem server_wire:
  assumes "mpsc_channel rt queued capacity rx_alive" and "message_sink api written"
    and "0 < n" and "list_all wire_legal ops"
  shows "let st = wire_run rt api ops (conn_start rt n, Writing sk); s = fst st; wr = snd st in
    \<exists>out. written (writer_sink wr) = written sk @ out \<and> prefix out (wire (r_accepted s)) \<and>
      (\<forall>r \<in> set (butlast out). \<not> raw_is_close r) \<and>
      ((case wr of Writing _ \<Rightarrow> queued (c_tx (r_cell s)) = [] | Finished r _ \<Rightarrow> is_ok r
         | WriterAborted _ \<Rightarrow> False) \<longrightarrow> out = wire (r_accepted s))"
proof -
  have w: "wired_connection rt queued capacity rx_alive api written"
    using assms(1,2) by (rule wired_connection.intro)
  obtain s wr where st: "wire_run rt api ops (conn_start rt n, Writing sk) = (s, wr)" by fastforce
  have ok: "wired_connection.wire_ok queued capacity rx_alive written (written sk) (s, wr)"
    using wired_connection.wire_ok_run [OF w assms(3,4), of sk] by (simp add: st)
  from wired_connection.wire_part [OF w ok] obtain out where
    out: "prefix out (wire (r_accepted s))" "written (writer_sink wr) = written sk @ out" by blast
  show ?thesis
    unfolding st Let_def fst_conv snd_conv
    using out wire_part_no_close [OF out(1)] wired_connection.wire_whole [OF w ok]
    by (intro exI [of _ out]) simp
qed

definition sample_wire_start :: "wire_op list" where
  "sample_wire_start =
     [ByHolder (OpSend (ping_msg [1])), ByHolder (OpSend (text_msg ''a'')), WriterTurn,
      ByHolder OpClose]"

definition sample_wire_ops :: "wire_op list" where
  "sample_wire_ops =
     sample_wire_start @ [WriterTurn, WriterTurn, ByHolder (OpSend (ping_msg [2])), WriterTurn]"

definition sample_wire_sink :: "(unit, unit) wire_sink" where
  "sample_wire_sink = \<lparr>ws_out = [], ws_credit = Suc (Suc (Suc (Suc 0))), ws_closed = False\<rparr>"

lemma raw_of_a: "raw_of_message (text_msg ''a'') =
    (Inr (RawText ''a'') :: invalid_text_payload + (unit, unit) raw_message)"
  by code_simp

lemmas wire_evals = wire_step_def loop_body_def wire_api_def wire_send_def conn_start_def cell_op_defs
  fifo_defs raw_of_a Let_def

theorem server_wire_witness:
  "let st = wire_run fifo_runtime wire_api sample_wire_ops (conn_start fifo_runtime 4, Writing sample_wire_sink)
   in ws_out (writer_sink (snd st)) = wire (r_accepted (fst st)) \<and>
      ws_out (writer_sink (snd st)) = [RawPing [1], RawText ''a'', RawClose None]"
proof -
  let ?st = "wire_run fifo_runtime wire_api sample_wire_ops (conn_start fifo_runtime 4, Writing sample_wire_sink)"
  have legal: "list_all wire_legal sample_wire_ops"
    by (simp add: sample_wire_ops_def sample_wire_start_def wire_legal_def holder_op_def)
  have "case snd ?st of Writing _ \<Rightarrow> f_buf (c_tx (r_cell (fst ?st))) = [] | Finished r _ \<Rightarrow> is_ok r
      | WriterAborted _ \<Rightarrow> False"
    "ws_out (writer_sink (snd ?st)) = [RawPing [1], RawText ''a'', RawClose None]"
    by (simp_all add: sample_wire_ops_def sample_wire_start_def sample_wire_sink_def writer_sink_def wire_evals)
  then show ?thesis
    using server_wire [OF fifo.mpsc_channel_axioms wire.message_sink_axioms _ legal, of 4 sample_wire_sink]
    by (simp add: Let_def) (simp add: sample_wire_sink_def)
qed

text \<open>
  C27. The writer catches up: on a sink whose sends succeed, from any state with the writer alive, as
  many turns of its loop as there are queued messages put the whole wire image of what the connection
  accepted on the wire: every deliverable message up to and with the first Close.  Text that is not
  UTF-8 and whatever was accepted behind a Close is never written.
\<close>

theorem writer_catches_up:
  assumes "mpsc_channel rt queued capacity rx_alive" and "message_sink api written"
    and "0 < n" and "list_all wire_legal ops" and "\<And>raw sk. is_ok (fst (sink_send api raw sk))"
    and "wire_run rt api ops (conn_start rt n, Writing sk) = (s, Writing sk1)"
  shows "let wr = snd (wire_run rt api (replicate (length (queued (c_tx (r_cell s)))) WriterTurn)
      (s, Writing sk1)) in
    written (writer_sink wr) = written sk @ wire (r_accepted s)"
proof -
  have w: "wired_connection rt queued capacity rx_alive api written"
    using assms(1,2) by (rule wired_connection.intro)
  let ?k = "length (queued (c_tx (r_cell s)))"
  obtain s2 wr where st: "wire_run rt api (replicate ?k WriterTurn) (s, Writing sk1) = (s2, wr)"
    "r_accepted s2 = r_accepted s"
    "case wr of Writing _ \<Rightarrow> queued (c_tx (r_cell s2)) = [] | Finished r _ \<Rightarrow> is_ok r
      | WriterAborted _ \<Rightarrow> False"
    using wired_connection.drains [OF w assms(5) refl, of s sk1] by blast
  have "list_all wire_legal (ops @ replicate ?k WriterTurn)"
    using assms(4) by (auto simp: list_all_iff wire_legal_def)
  from wired_connection.wire_ok_run [OF w assms(3) this, of sk]
  have "wired_connection.wire_ok queued capacity rx_alive written (written sk) (s2, wr)"
    by (simp add: wire_run_append assms(6) st)
  from wired_connection.wire_whole [OF w this st(3)] show ?thesis by (simp add: st)
qed

text \<open>A sink that never fails.\<close>

definition list_api :: "(('c, 'f) raw_message list, 'c, 'f, string) sink_api" where
  "list_api = \<lparr>sink_send = (\<lambda>raw sk. (Inr (), sk @ [raw])), sink_close = (\<lambda>sk. sk)\<rparr>"

interpretation list_sink: message_sink list_api "\<lambda>sk. sk"
  by unfold_locales (auto simp: list_api_def)

theorem writer_catches_up_witness:
  "let (s, wr) = wire_run fifo_runtime list_api sample_wire_start
      (conn_start fifo_runtime 4, Writing ([] :: (unit, unit) raw_message list))
   in writer_sink (snd (wire_run fifo_runtime list_api (replicate (length (f_buf (c_tx (r_cell s)))) WriterTurn)
        (s, wr))) = wire (r_accepted s)"
proof -
  let ?st = "wire_run fifo_runtime list_api sample_wire_start
      (conn_start fifo_runtime 4, Writing ([] :: (unit, unit) raw_message list))"
  have legal: "list_all wire_legal sample_wire_start"
    by (simp add: sample_wire_start_def wire_legal_def holder_op_def)
  have "snd ?st = Writing [RawPing [1]]"
    by (simp add: sample_wire_start_def list_api_def wire_evals)
  then have st: "?st = (fst ?st, Writing [RawPing [1]])" by (metis prod.collapse)
  have ok: "is_ok (fst (sink_send list_api raw (sk :: (unit, unit) raw_message list)))" for raw sk
    by (simp add: list_api_def)
  show ?thesis
    using writer_catches_up [OF fifo.mpsc_channel_axioms list_sink.message_sink_axioms _ legal ok st] st
    by (simp add: case_prod_unfold Let_def)
qed

text \<open>
  The writer, turn by turn over the channel, is the loop \<open>writer_run\<close> over the queued messages:
  as many turns as there are messages and then the end of the channel give the same result and the
  same sink.
\<close>

theorem writer_turns_are_run:
  assumes "mpsc_channel rt queued capacity rx_alive" and "message_sink api written"
  shows "let ms = queued (c_tx (r_cell s));
      p = writer_run api ms sk :: ('t, 'i, 's, unit) ws_result \<times> _ in
    \<exists>r. snd (wire_run rt api (replicate (length ms) WriterTurn @ [ChannelEnds]) (s, Writing sk)) =
        Finished r (fst (snd p)) \<and> fst p = map_sum Protocol id r"
proof -
  have w: "wired_connection rt queued capacity rx_alive api written"
    using assms by (rule wired_connection.intro)
  show ?thesis
    using wired_connection.turns_run [OF w refl, of s sk, where ?'i = 'i and ?'s = 's]
    by (auto simp: Let_def)
qed

theorem writer_turns_are_run_witness:
  "\<exists>r. snd (wire_run fifo_runtime wire_api [ChannelEnds] (conn_start fifo_runtime 4, Writing sample_wire_sink))
      = Finished r (sample_wire_sink\<lparr>ws_closed := True\<rparr>)"
  using writer_turns_are_run [OF fifo.mpsc_channel_axioms wire.message_sink_axioms,
      of "conn_start fifo_runtime 4" sample_wire_sink, where ?'i = unit and ?'s = unit]
  by (auto simp: conn_start_def cell_new_def fifo_new_def fifo_runtime_def wire_api_def simp del: wire_run_simps)

end
