(* ===== verification/Ws_Client.thy ===== *)
theory Ws_Client imports Ws_Writer Ws_Config begin

text \<open>
  \<open>client.rs\<close>: the builder, connecting, and a connected client with its writer and reader tasks.

  Parameters: the \<open>url\<close> crate (the record \<open>url_api\<close>), \<open>connect_async_with_config\<close> under its
  timeout, tokio's unbounded channel (the record \<open>unbounded\<close>) and, as for the server, the
  bounded channel and the sink.  \<open>tx.send(..).await\<close> on the bounded channel is an attempt that
  stays pending while the queue is full.
\<close>

section \<open>URLs\<close>

record 'u url_api =
  url_parse :: "string \<Rightarrow> string + 'u"
  url_username :: "'u \<Rightarrow> string"
  url_password :: "'u \<Rightarrow> string option"
  url_query :: "'u \<Rightarrow> string option"
  url_set_username :: "string \<Rightarrow> 'u \<Rightarrow> 'u"
  url_set_password :: "string option \<Rightarrow> 'u \<Rightarrow> 'u"
  url_set_query :: "string option \<Rightarrow> 'u \<Rightarrow> 'u"
  url_set_fragment :: "string option \<Rightarrow> 'u \<Rightarrow> 'u"
  url_to_string :: "'u \<Rightarrow> string"

definition redact_url :: "'u url_api \<Rightarrow> string \<Rightarrow> string" where
  "redact_url api raw =
     (case url_parse api raw of
        Inl _ \<Rightarrow> ''[unparseable URL]''
      | Inr url \<Rightarrow>
          (let url1 =
             (if url_username api url \<noteq> [] \<or> url_password api url \<noteq> None
              then url_set_password api None (url_set_username api ''[REDACTED]'' url) else url);
             url2 =
             (if url_query api url1 \<noteq> None then url_set_query api (Some ''[REDACTED]'') url1 else url1)
           in url_to_string api (url_set_fragment api None url2)))"

section \<open>The builder\<close>

record client_builder =
  cb_url :: "string option"
  cb_connect_timeout :: duration
  cb_max_message_size :: "usize option"
  cb_inbound_queue_capacity :: usize

definition default_inbound_queue_capacity :: usize where
  "default_inbound_queue_capacity = 1024"

definition client_builder_default :: client_builder where
  "client_builder_default =
     \<lparr>cb_url = None, cb_connect_timeout = seconds 30, cb_max_message_size = None,
      cb_inbound_queue_capacity = default_inbound_queue_capacity\<rparr>"

text \<open>\<open>WebSocketClient::builder\<close>.\<close>

definition client_new_builder :: client_builder where
  "client_new_builder = client_builder_default"

definition client_builder_debug ::
  "'u url_api \<Rightarrow> client_builder \<Rightarrow> string option \<times> duration \<times> usize option \<times> usize" where
  "client_builder_debug api b =
     (map_option (redact_url api) (cb_url b), cb_connect_timeout b, cb_max_message_size b,
      cb_inbound_queue_capacity b)"

definition client_builder_url :: "string \<Rightarrow> client_builder \<Rightarrow> client_builder" where
  "client_builder_url u b = b\<lparr>cb_url := Some u\<rparr>"

definition client_builder_connect_timeout :: "duration \<Rightarrow> client_builder \<Rightarrow> client_builder" where
  "client_builder_connect_timeout d b = b\<lparr>cb_connect_timeout := d\<rparr>"

definition client_builder_max_message_size :: "usize \<Rightarrow> client_builder \<Rightarrow> client_builder" where
  "client_builder_max_message_size n b = b\<lparr>cb_max_message_size := Some n\<rparr>"

definition client_builder_inbound_queue_capacity :: "usize \<Rightarrow> client_builder \<Rightarrow> client_builder" where
  "client_builder_inbound_queue_capacity n b = b\<lparr>cb_inbound_queue_capacity := n\<rparr>"

section \<open>A connected client\<close>

record 'ub unbounded =
  ub_new :: 'ub
  ub_send :: "message \<Rightarrow> 'ub \<Rightarrow> bool \<times> 'ub"
  ub_send_error :: string
  ub_recv :: "'ub \<Rightarrow> (message \<times> 'ub) option"
  ub_drop_rx :: "'ub \<Rightarrow> 'ub"

text \<open>What the reader task is doing: reading, delivering a message (its last one?), or done.\<close>

datatype reader_state = Reading | Delivering message bool | ReaderDone

record ('ch, 'ub, 'sk) client =
  cl_closed :: bool
  cl_tx :: 'ub
  cl_tx_dropped :: bool
  cl_rx :: 'ch
  cl_sink :: 'sk
  cl_writer_done :: bool
  cl_reader :: reader_state

datatype ('sk, 't) connected = ConnectTimeout | ConnectFailed 't | ConnectedTo 'sk

definition client_start ::
  "('ch, 'nt) runtime \<Rightarrow> 'ub unbounded \<Rightarrow> usize \<Rightarrow> 'sk \<Rightarrow> ('ch, 'ub, 'sk) client" where
  "client_start rt ub n sk =
     \<lparr>cl_closed = False, cl_tx = ub_new ub, cl_tx_dropped = False, cl_rx = rt_channel rt n,
      cl_sink = sk, cl_writer_done = False, cl_reader = Reading\<rparr>"

definition connect_with_config ::
  "'u url_api \<Rightarrow> 'wc ws_config_api \<Rightarrow> (duration \<Rightarrow> string \<Rightarrow> 'wc option \<Rightarrow> bool \<Rightarrow> ('sk, 't) connected)
     \<Rightarrow> ('ch, 'nt) runtime \<Rightarrow> (usize \<Rightarrow> bool) \<Rightarrow> 'ub unbounded
     \<Rightarrow> string \<Rightarrow> duration \<Rightarrow> usize option \<Rightarrow> usize
     \<Rightarrow> ('t, 'i, 's, ('ch, 'ub, 'sk) client) ws_result outcome" where
  "connect_with_config api wca connector rt channel_ok ub url timeout max_size capacity =
     (if capacity = 0
      then Returned (Inl (Connection ''inbound_queue_capacity must be non-zero''))
      else
        (case url_parse api url of
           Inl e \<Rightarrow> Returned (Inl (InvalidUrl e))
         | Inr u \<Rightarrow>
             (let wsc = map_option (\<lambda>size.
                wc_max_frame_size wca (Some size)
                  (wc_max_message_size wca (Some size) (wc_default wca))) max_size
              in case connector timeout (url_to_string api u) wsc False of
                   ConnectTimeout \<Rightarrow> Returned (Inl Timeout)
                 | ConnectFailed e \<Rightarrow> Returned (Inl (Protocol e))
                 | ConnectedTo sk \<Rightarrow>
                     if channel_ok capacity then Returned (Inr (client_start rt ub capacity sk))
                     else Panicked)))"

definition client_connect_with_timeout ::
  "'u url_api \<Rightarrow> 'wc ws_config_api \<Rightarrow> (duration \<Rightarrow> string \<Rightarrow> 'wc option \<Rightarrow> bool \<Rightarrow> ('sk, 't) connected)
     \<Rightarrow> ('ch, 'nt) runtime \<Rightarrow> (usize \<Rightarrow> bool) \<Rightarrow> 'ub unbounded \<Rightarrow> string \<Rightarrow> duration
     \<Rightarrow> ('t, 'i, 's, ('ch, 'ub, 'sk) client) ws_result outcome" where
  "client_connect_with_timeout api wca connector rt channel_ok ub url timeout =
     connect_with_config api wca connector rt channel_ok ub url timeout None
       default_inbound_queue_capacity"

definition client_connect ::
  "'u url_api \<Rightarrow> 'wc ws_config_api \<Rightarrow> (duration \<Rightarrow> string \<Rightarrow> 'wc option \<Rightarrow> bool \<Rightarrow> ('sk, 't) connected)
     \<Rightarrow> ('ch, 'nt) runtime \<Rightarrow> (usize \<Rightarrow> bool) \<Rightarrow> 'ub unbounded \<Rightarrow> string
     \<Rightarrow> ('t, 'i, 's, ('ch, 'ub, 'sk) client) ws_result outcome" where
  "client_connect api wca connector rt channel_ok ub url =
     client_connect_with_timeout api wca connector rt channel_ok ub url (seconds 30)"

definition client_builder_connect ::
  "'u url_api \<Rightarrow> 'wc ws_config_api \<Rightarrow> (duration \<Rightarrow> string \<Rightarrow> 'wc option \<Rightarrow> bool \<Rightarrow> ('sk, 't) connected)
     \<Rightarrow> ('ch, 'nt) runtime \<Rightarrow> (usize \<Rightarrow> bool) \<Rightarrow> 'ub unbounded \<Rightarrow> client_builder
     \<Rightarrow> ('t, 'i, 's, ('ch, 'ub, 'sk) client) ws_result outcome" where
  "client_builder_connect api wca connector rt channel_ok ub b =
     (case cb_url b of
        None \<Rightarrow> Returned (Inl (InvalidUrl ''URL not provided''))
      | Some url \<Rightarrow>
          connect_with_config api wca connector rt channel_ok ub url (cb_connect_timeout b)
            (cb_max_message_size b) (cb_inbound_queue_capacity b))"

section \<open>The writer task\<close>

definition writer_finish ::
  "('sk, 'c, 'f, 't) sink_api \<Rightarrow> 'ub unbounded \<Rightarrow> ('ch, 'ub, 'sk) client \<Rightarrow> ('ch, 'ub, 'sk) client" where
  "writer_finish api ub c =
     c\<lparr>cl_sink := sink_close api (cl_sink c), cl_closed := True, cl_writer_done := True,
       cl_tx := ub_drop_rx ub (cl_tx c)\<rparr>"

text \<open>One turn of its loop; it waits while the queue is empty and a sender is left.\<close>

definition writer_turn ::
  "('sk, 'c, 'f, 't) sink_api \<Rightarrow> 'ub unbounded \<Rightarrow> ('ch, 'ub, 'sk) client \<Rightarrow> ('ch, 'ub, 'sk) client" where
  "writer_turn api ub c =
     (if cl_writer_done c then c
      else
        (case ub_recv ub (cl_tx c) of
           None \<Rightarrow> if cl_tx_dropped c then writer_finish api ub c else c
         | Some (m, q) \<Rightarrow>
             (let c1 = c\<lparr>cl_tx := q\<rparr>
              in case raw_of_message m of
                   Inl _ \<Rightarrow> c1
                 | Inr raw \<Rightarrow>
                     (case sink_send api raw (cl_sink c1) of
                        (Inl _, sk) \<Rightarrow> writer_finish api ub (c1\<lparr>cl_sink := sk\<rparr>)
                      | (Inr _, sk) \<Rightarrow>
                          if is_close m then writer_finish api ub (c1\<lparr>cl_sink := sk\<rparr>)
                          else c1\<lparr>cl_sink := sk\<rparr>))))"

section \<open>The reader task\<close>

definition reader_finish :: "('ch, 'ub, 'sk) client \<Rightarrow> ('ch, 'ub, 'sk) client" where
  "reader_finish c = c\<lparr>cl_reader := ReaderDone, cl_closed := True\<rparr>"

definition reader_take ::
  "('t + ('c, 'f) raw_message) option \<Rightarrow> ('ch, 'ub, 'sk) client \<Rightarrow> ('ch, 'ub, 'sk) client" where
  "reader_take result c =
     (if cl_reader c \<noteq> Reading then c
      else
        (case result of
           Some (Inr raw) \<Rightarrow>
             if raw_is_close raw then c\<lparr>cl_reader := Delivering close_msg True\<rparr>
             else c\<lparr>cl_reader := Delivering (message_of_raw raw) False\<rparr>
         | Some (Inl _) \<Rightarrow> reader_finish c
         | None \<Rightarrow> reader_finish c))"

definition reader_deliver ::
  "('ch, 'nt) runtime \<Rightarrow> ('ch, 'ub, 'sk) client \<Rightarrow> ('ch, 'ub, 'sk) client" where
  "reader_deliver rt c =
     (case cl_reader c of
        Delivering m final \<Rightarrow>
          (case rt_try_send rt m (cl_rx c) of
             (Sent, ch) \<Rightarrow>
               if final then reader_finish (c\<lparr>cl_rx := ch\<rparr>)
               else c\<lparr>cl_rx := ch, cl_reader := Reading\<rparr>
           | (QueueFull, ch) \<Rightarrow> c\<lparr>cl_rx := ch\<rparr>
           | (QueueClosed, ch) \<Rightarrow> reader_finish (c\<lparr>cl_rx := ch\<rparr>))
      | _ \<Rightarrow> c)"

section \<open>The methods of a client\<close>

definition client_is_closed :: "('ch, 'ub, 'sk) client \<Rightarrow> bool" where
  "client_is_closed c = cl_closed c"

text \<open>The second half of \<open>send\<close>, after the check of the flag.\<close>

definition client_push ::
  "'ub unbounded \<Rightarrow> message \<Rightarrow> ('ch, 'ub, 'sk) client
     \<Rightarrow> ('t, 'i, 's, unit) ws_result \<times> ('ch, 'ub, 'sk) client" where
  "client_push ub m c =
     (let (sent, q) = ub_send ub m (cl_tx c)
      in (if sent then Inr () else Inl (Send (ub_send_error ub)), c\<lparr>cl_tx := q\<rparr>))"

definition client_send ::
  "'ub unbounded \<Rightarrow> message \<Rightarrow> ('ch, 'ub, 'sk) client
     \<Rightarrow> ('t, 'i, 's, unit) ws_result \<times> ('ch, 'ub, 'sk) client" where
  "client_send ub m c = (if cl_closed c then (Inl ConnectionClosed, c) else client_push ub m c)"

definition client_send_text ::
  "'ub unbounded \<Rightarrow> string \<Rightarrow> ('ch, 'ub, 'sk) client
     \<Rightarrow> ('t, 'i, 's, unit) ws_result \<times> ('ch, 'ub, 'sk) client" where
  "client_send_text ub s = client_send ub (text_msg s)"

definition client_send_binary ::
  "'ub unbounded \<Rightarrow> bytes \<Rightarrow> ('ch, 'ub, 'sk) client
     \<Rightarrow> ('t, 'i, 's, unit) ws_result \<times> ('ch, 'ub, 'sk) client" where
  "client_send_binary ub d = client_send ub (binary_msg d)"

definition client_send_json ::
  "'ub unbounded \<Rightarrow> ('v \<Rightarrow> 's + string) \<Rightarrow> 'v \<Rightarrow> ('ch, 'ub, 'sk) client
     \<Rightarrow> ('t, 'i, 's, unit) ws_result \<times> ('ch, 'ub, 'sk) client" where
  "client_send_json ub to_json v c =
     (case from_serialization (json_msg to_json v) of
        Inl e \<Rightarrow> (Inl e, c)
      | Inr m \<Rightarrow> client_send ub m c)"

text \<open>\<open>try_recv\<close>, and \<open>recv\<close>: pending while the queue is empty and the reader is there.\<close>

datatype received = Pending | Ready "message option"

definition client_try_recv ::
  "('ch, 'nt) runtime \<Rightarrow> ('ch, 'ub, 'sk) client \<Rightarrow> message option \<times> ('ch, 'ub, 'sk) client" where
  "client_try_recv rt c =
     (case rt_recv rt (cl_rx c) of
        None \<Rightarrow> (None, c)
      | Some (m, ch) \<Rightarrow> (Some m, c\<lparr>cl_rx := ch\<rparr>))"

definition client_recv ::
  "('ch, 'nt) runtime \<Rightarrow> ('ch, 'ub, 'sk) client \<Rightarrow> received \<times> ('ch, 'ub, 'sk) client" where
  "client_recv rt c =
     (case rt_recv rt (cl_rx c) of
        Some (m, ch) \<Rightarrow> (Ready (Some m), c\<lparr>cl_rx := ch\<rparr>)
      | None \<Rightarrow> (if cl_reader c = ReaderDone then Ready None else Pending, c))"

text \<open>The two halves of \<open>close\<close>: the compare-and-exchange, which says whether it won, and the send.\<close>

definition client_cas :: "('ch, 'ub, 'sk) client \<Rightarrow> bool \<times> ('ch, 'ub, 'sk) client" where
  "client_cas c = (if cl_closed c then (False, c) else (True, c\<lparr>cl_closed := True\<rparr>))"

definition client_push_close :: "'ub unbounded \<Rightarrow> ('ch, 'ub, 'sk) client \<Rightarrow> ('ch, 'ub, 'sk) client" where
  "client_push_close ub c = c\<lparr>cl_tx := snd (ub_send ub close_msg (cl_tx c))\<rparr>"

definition client_close :: "'ub unbounded \<Rightarrow> ('ch, 'ub, 'sk) client \<Rightarrow> ('ch, 'ub, 'sk) client" where
  "client_close ub c = (let (won, c1) = client_cas c in if won then client_push_close ub c1 else c1)"

definition client_drop ::
  "('ch, 'nt) runtime \<Rightarrow> 'ub unbounded \<Rightarrow> ('ch, 'ub, 'sk) client \<Rightarrow> ('ch, 'ub, 'sk) client" where
  "client_drop rt ub c =
     (let c1 = client_close ub c
      in c1\<lparr>cl_tx_dropped := True, cl_rx := rt_drop_rx rt (cl_rx c1)\<rparr>)"

end
