(* ===== verification/Ws_Client_Props.thy ===== *)
theory Ws_Client_Props imports Ws_Client Ws_Machine Ws_Handshake begin

text \<open>
  A client under every interleaving of its users and its two tasks: \<open>send\<close> and \<open>close\<close> are two
  steps each (the access to the flag, the access to the queue), so several of them can be in
  flight at once.
\<close>

section \<open>The contract of the unbounded channel\<close>

locale unbounded_channel =
  fixes ub :: "'ub unbounded" and items :: "'ub \<Rightarrow> message list" and open_rx :: "'ub \<Rightarrow> bool"
  assumes new: "items (ub_new ub) = []" "open_rx (ub_new ub)"
    and send_open: "open_rx q \<Longrightarrow> \<exists>q'. ub_send ub m q = (True, q') \<and> items q' = items q @ [m] \<and> open_rx q'"
    and send_closed: "\<not> open_rx q \<Longrightarrow> ub_send ub m q = (False, q)"
    and recv_none: "items q = [] \<Longrightarrow> ub_recv ub q = None"
    and recv_some: "items q = m # ms \<Longrightarrow>
      \<exists>q'. ub_recv ub q = Some (m, q') \<and> items q' = ms \<and> open_rx q' = open_rx q"
    and drop_rx: "items (ub_drop_rx ub q) = []" "\<not> open_rx (ub_drop_rx ub q)"
begin

lemma send_cases:
  obtains (sent) q' where "ub_send ub m q = (True, q')" "items q' = items q @ [m]" "open_rx q" "open_rx q'"
  | (failed) "ub_send ub m q = (False, q)" "\<not> open_rx q"
  using send_open [of q m] send_closed [of q m] by (cases "open_rx q") auto

lemma recv_cases:
  obtains (none) "ub_recv ub q = None" "items q = []"
  | (some) m q' where "ub_recv ub q = Some (m, q')" "items q = m # items q'" "open_rx q' = open_rx q"
  using recv_none [of q] recv_some [of q] by (cases "items q") auto

end

definition list_channel :: "(message list \<times> bool) unbounded" where
  "list_channel =
     \<lparr>ub_new = ([], True),
      ub_send = (\<lambda>m q. if snd q then (True, (fst q @ [m], True)) else (False, q)),
      ub_send_error = ''channel closed'',
      ub_recv = (\<lambda>q. case fst q of [] \<Rightarrow> None | m # ms \<Rightarrow> Some (m, (ms, snd q))),
      ub_drop_rx = (\<lambda>_. ([], False))\<rparr>"

interpretation list_channel: unbounded_channel list_channel fst snd
  by unfold_locales (auto simp: list_channel_def split: if_splits)

section \<open>Steps\<close>

datatype ('c, 'f, 't) client_op =
    CheckSend message
  | PushSend nat
  | CasClose
  | PushClose
  | DropHandles
  | Receive
  | WriterTurn
  | ReadFrame "('t + ('c, 'f) raw_message) option"
  | Deliver

text \<open>
  The client with the sends and closes in flight, and what was accepted for sending, read from
  the socket and received by the application so far.
\<close>

record ('ch, 'ub, 'sk) client_run =
  cr_client :: "('ch, 'ub, 'sk) client"
  cr_sending :: "message list"
  cr_closing :: nat
  cr_closes :: nat
  cr_accepted :: "message list"
  cr_read :: "message list"
  cr_received :: "message list"

definition client_run_start ::
  "('ch, 'nt) runtime \<Rightarrow> 'ub unbounded \<Rightarrow> usize \<Rightarrow> 'sk \<Rightarrow> ('ch, 'ub, 'sk) client_run" where
  "client_run_start rt ub n sk =
     \<lparr>cr_client = client_start rt ub n sk, cr_sending = [], cr_closing = 0, cr_closes = 0,
      cr_accepted = [], cr_read = [], cr_received = []\<rparr>"

text \<open>The message a reader hands on for a frame, if it is in the state to read one.\<close>

definition read_message ::
  "('ch, 'ub, 'sk) client \<Rightarrow> ('t + ('c, 'f) raw_message) option \<Rightarrow> message list" where
  "read_message c r =
     (case r of
        Some (Inr raw) \<Rightarrow>
          if cl_reader c = Reading then [if raw_is_close raw then close_msg else message_of_raw raw] else []
      | _ \<Rightarrow> [])"

fun client_step ::
  "('ch, 'nt) runtime \<Rightarrow> 'ub unbounded \<Rightarrow> ('sk, 'c, 'f, 't) sink_api \<Rightarrow> ('c, 'f, 't) client_op
     \<Rightarrow> ('ch, 'ub, 'sk) client_run \<Rightarrow> ('ch, 'ub, 'sk) client_run" where
  "client_step rt ub api (CheckSend m) s =
     (if cl_closed (cr_client s) then s else s\<lparr>cr_sending := cr_sending s @ [m]\<rparr>)"
| "client_step rt ub api (PushSend i) s =
     (if i < length (cr_sending s)
      then
        (let m = cr_sending s ! i;
             (r, c) = (client_push ub m (cr_client s) :: (unit, unit, unit, unit) ws_result \<times> _)
         in s\<lparr>cr_client := c, cr_sending := take i (cr_sending s) @ drop (Suc i) (cr_sending s),
              cr_accepted := cr_accepted s @ (if is_ok r then [m] else [])\<rparr>)
      else s)"
| "client_step rt ub api CasClose s =
     (let (won, c) = client_cas (cr_client s)
      in s\<lparr>cr_client := c, cr_closing := cr_closing s + (if won then 1 else 0)\<rparr>)"
| "client_step rt ub api PushClose s =
     (if 0 < cr_closing s
      then s\<lparr>cr_client := client_push_close ub (cr_client s), cr_closing := cr_closing s - 1,
             cr_closes := cr_closes s + 1,
             cr_accepted := cr_accepted s @
               (if fst (ub_send ub close_msg (cl_tx (cr_client s))) then [close_msg] else [])\<rparr>
      else s)"
| "client_step rt ub api DropHandles s =
     s\<lparr>cr_client := (cr_client s)\<lparr>cl_tx_dropped := True, cl_rx := rt_drop_rx rt (cl_rx (cr_client s))\<rparr>\<rparr>"
| "client_step rt ub api Receive s =
     (let (r, c) = client_try_recv rt (cr_client s)
      in s\<lparr>cr_client := c, cr_received := cr_received s @ (case r of None \<Rightarrow> [] | Some m \<Rightarrow> [m])\<rparr>)"
| "client_step rt ub api WriterTurn s = s\<lparr>cr_client := writer_turn api ub (cr_client s)\<rparr>"
| "client_step rt ub api (ReadFrame r) s =
     s\<lparr>cr_client := reader_take r (cr_client s), cr_read := cr_read s @ read_message (cr_client s) r\<rparr>"
| "client_step rt ub api Deliver s = s\<lparr>cr_client := reader_deliver rt (cr_client s)\<rparr>"

definition client_run ::
  "('ch, 'nt) runtime \<Rightarrow> 'ub unbounded \<Rightarrow> ('sk, 'c, 'f, 't) sink_api \<Rightarrow> ('c, 'f, 't) client_op list
     \<Rightarrow> ('ch, 'ub, 'sk) client_run \<Rightarrow> ('ch, 'ub, 'sk) client_run" where
  "client_run rt ub api ops s = run_ops (client_step rt ub api) ops s"

text \<open>The methods are their steps, run without interruption.\<close>

lemma client_methods_are_steps:
  assumes "cr_sending s = []" "cr_closing s = 0"
  shows "cr_client (client_run rt ub api [CheckSend m, PushSend 0] s) =
      snd (client_send ub m (cr_client s) :: (unit, unit, unit, unit) ws_result \<times> _)"
    and "cr_client (client_run rt ub api [CasClose, PushClose] s) = client_close ub (cr_client s)"
    and "cr_client (client_run rt ub api [CasClose, PushClose, DropHandles] s) =
      client_drop rt ub (cr_client s)"
  using assms
  by (auto simp: client_run_def client_send_def client_close_def client_cas_def client_drop_def
      case_prod_unfold Let_def)

section \<open>The closed flag\<close>

lemma writer_turn_closed: "cl_closed c \<Longrightarrow> cl_closed (writer_turn api ub c)"
  by (auto simp: writer_turn_def writer_finish_def Let_def split: option.split sum.split prod.split)

lemma reader_take_closed: "cl_closed c \<Longrightarrow> cl_closed (reader_take r c)"
  by (auto simp: reader_take_def reader_finish_def split: option.split sum.split)

lemma reader_deliver_closed: "cl_closed c \<Longrightarrow> cl_closed (reader_deliver rt c)"
  by (auto simp: reader_deliver_def reader_finish_def
      split: reader_state.split prod.split try_send_result.split)

text \<open>
  The flag never goes back; a task that is done has set it; at most one \<open>close\<close> has won it.
\<close>

definition flag_ok :: "('ch, 'ub, 'sk) client_run \<Rightarrow> bool" where
  "flag_ok s \<longleftrightarrow>
     (cl_writer_done (cr_client s) \<or> cl_reader (cr_client s) = ReaderDone \<longrightarrow> cl_closed (cr_client s)) \<and>
     cr_closes s + cr_closing s \<le> 1 \<and>
     (0 < cr_closes s + cr_closing s \<longrightarrow> cl_closed (cr_client s))"

lemma client_step_closed:
  "cl_closed (cr_client s) \<Longrightarrow> cl_closed (cr_client (client_step rt ub api op s))"
  by (cases op)
    (auto simp: client_push_def client_cas_def client_push_close_def client_try_recv_def
      writer_turn_closed reader_take_closed reader_deliver_closed case_prod_unfold Let_def
      split: option.split)

lemma writer_turn_flag:
  assumes "flag_ok s" shows "flag_ok (s\<lparr>cr_client := writer_turn api ub (cr_client s)\<rparr>)"
  using assms
  by (auto simp: flag_ok_def writer_turn_def writer_finish_def Let_def split: option.split sum.split prod.split)

lemma reader_flag:
  assumes "flag_ok s"
  shows "flag_ok (s\<lparr>cr_client := reader_deliver rt (cr_client s)\<rparr>)"
    and "flag_ok (s\<lparr>cr_client := reader_take r (cr_client s), cr_read := x\<rparr>)"
  using assms
  by (auto simp: flag_ok_def reader_deliver_def reader_take_def reader_finish_def
      split: reader_state.split prod.split try_send_result.split option.split sum.split)

lemma client_step_flag:
  assumes "flag_ok s" shows "flag_ok (client_step rt ub api op s)"
proof (cases op)
  case WriterTurn
  then show ?thesis using writer_turn_flag [OF assms] by simp
next
  case Deliver
  then show ?thesis using reader_flag(1) [OF assms] by simp
next
  case (ReadFrame r)
  then show ?thesis using reader_flag(2) [OF assms] by simp
qed (use assms in \<open>auto simp: flag_ok_def client_push_def client_cas_def client_push_close_def
      client_try_recv_def case_prod_unfold Let_def split: option.splits if_splits\<close>)

interpretation client_flag: machine "\<lambda>_ _. True" "client_step rt ub api" flag_ok for rt ub api
  by unfold_locales (rule client_step_flag)

section \<open>The inbound queue\<close>

definition held :: "('ch, 'ub, 'sk) client \<Rightarrow> message list" where
  "held c = (case cl_reader c of Delivering m _ \<Rightarrow> [m] | _ \<Rightarrow> [])"

context mpsc_channel begin

definition inbound_ok :: "('ch, 'ub, 'sk) client_run \<Rightarrow> bool" where
  "inbound_ok s \<longleftrightarrow>
     (let rx = cl_rx (cr_client s)
      in length (queued rx) \<le> capacity rx \<and>
         (if rx_alive rx then cr_read s = cr_received s @ queued rx @ held (cr_client s)
          else queued rx = [] \<and> prefix (cr_received s) (cr_read s)))"

lemma inbound_ok_start: "0 < n \<Longrightarrow> inbound_ok (client_run_start rt ub n sk)"
  by (simp add: inbound_ok_def client_run_start_def client_start_def held_def channel_new)

text \<open>Steps that touch neither the queue nor the reader.\<close>

lemma inbound_ok_frame:
  assumes "inbound_ok s" "cl_rx (cr_client s') = cl_rx (cr_client s)"
    "cl_reader (cr_client s') = cl_reader (cr_client s)" "cr_read s' = cr_read s"
    "cr_received s' = cr_received s"
  shows "inbound_ok s'"
  using assms by (simp add: inbound_ok_def held_def Let_def)

lemma writer_turn_frame:
  "cl_rx (writer_turn api ub c) = cl_rx c" "cl_reader (writer_turn api ub c) = cl_reader c"
  by (auto simp: writer_turn_def writer_finish_def Let_def split: option.split sum.split prod.split)

lemma inbound_ok_deliver:
  assumes "inbound_ok s"
  shows "inbound_ok (s\<lparr>cr_client := reader_deliver rt (cr_client s)\<rparr>)"
proof (cases "cl_reader (cr_client s)")
  case (Delivering m final)
  show ?thesis
    by (cases rule: try_send_cases [of "cl_rx (cr_client s)" m])
      (use assms Delivering in \<open>auto simp: inbound_ok_def reader_deliver_def reader_finish_def held_def
        Let_def split: if_splits\<close>)
qed (use assms in \<open>simp_all add: reader_deliver_def\<close>)

lemma inbound_ok_take:
  assumes "inbound_ok s"
  shows "inbound_ok (s\<lparr>cr_client := reader_take r (cr_client s),
    cr_read := cr_read s @ read_message (cr_client s) r\<rparr>)"
  using assms
  by (auto simp: inbound_ok_def reader_take_def reader_finish_def read_message_def held_def Let_def
      split: option.splits sum.splits reader_state.splits if_splits)

lemma inbound_ok_receive:
  assumes "inbound_ok s"
  shows "inbound_ok (client_step rt ub api Receive s)"
  by (cases rule: recv_cases [of "cl_rx (cr_client s)"])
    (use assms in \<open>auto simp: inbound_ok_def client_try_recv_def held_def Let_def split: if_splits\<close>)

lemma inbound_ok_step:
  assumes "inbound_ok s" shows "inbound_ok (client_step rt ub api op s)"
proof (cases op)
  case (PushSend i)
  show ?thesis using assms by (rule inbound_ok_frame)
    (simp_all add: PushSend client_push_def case_prod_unfold Let_def)
next
  case CasClose
  show ?thesis using assms by (rule inbound_ok_frame)
    (simp_all add: CasClose client_cas_def case_prod_unfold Let_def)
next
  case WriterTurn
  show ?thesis using assms by (rule inbound_ok_frame) (simp_all add: WriterTurn writer_turn_frame)
next
  case DropHandles
  then show ?thesis using assms
    by (auto simp: inbound_ok_def drop_rx Let_def split: if_splits)
next
  case Receive
  then show ?thesis using inbound_ok_receive [OF assms] by simp
next
  case (ReadFrame r)
  then show ?thesis using inbound_ok_take [OF assms] by simp
next
  case Deliver
  then show ?thesis using inbound_ok_deliver [OF assms] by simp
qed (use assms in \<open>simp_all add: inbound_ok_def client_push_close_def held_def Let_def\<close>)

end

sublocale mpsc_channel \<subseteq> client_inbound: machine "\<lambda>_ _. True" "client_step rt ub api" inbound_ok for ub api
  by unfold_locales (rule inbound_ok_step)

context mpsc_channel begin

lemma inbound_ok_run: "inbound_ok s \<Longrightarrow> inbound_ok (client_run rt ub api ops s)"
  unfolding client_run_def by (rule client_inbound.run_inv) (simp_all add: legal_ops_True)

lemma client_step_capacity:
  "capacity (cl_rx (cr_client (client_step rt ub api op s))) = capacity (cl_rx (cr_client s))"
  by (cases op)
    (auto simp: client_push_def client_cas_def client_push_close_def client_try_recv_def
      writer_turn_frame reader_take_def reader_deliver_def reader_finish_def drop_rx
      case_prod_unfold Let_def try_send_capacity dest: recv_capacity
      split: option.split sum.split reader_state.split prod.split try_send_result.split)

lemma client_run_capacity:
  "capacity (cl_rx (cr_client (client_run rt ub api ops s))) = capacity (cl_rx (cr_client s))"
  unfolding client_run_def by (induction ops arbitrary: s) (simp_all add: client_step_capacity)

end

section \<open>The outbound wire\<close>

locale client_transport = unbounded_channel ub items open_rx + message_sink api written
  for ub :: "'ub unbounded" and items and open_rx
    and api :: "('sk, 'c, 'f, 't) sink_api" and written
begin

definition transport_ok ::
  "('c, 'f) raw_message list \<Rightarrow> message list \<Rightarrow> ('ch, 'ub, 'sk) client
     \<Rightarrow> message list \<Rightarrow> message list \<Rightarrow> ('c, 'f) raw_message list \<Rightarrow> bool" where
  "transport_ok w0 acc c popped lost out \<longleftrightarrow>
     acc = popped @ items (cl_tx c) @ lost \<and> written (cl_sink c) = w0 @ out \<and> prefix out (wire popped) \<and>
     (if cl_writer_done c then \<not> open_rx (cl_tx c) \<and> items (cl_tx c) = []
      else open_rx (cl_tx c) \<and> lost = [] \<and> out = wire popped \<and> list_all (\<lambda>m. \<not> is_close m) popped)"

definition outbound_ok :: "('c, 'f) raw_message list \<Rightarrow> ('ch, 'ub, 'sk) client_run \<Rightarrow> bool" where
  "outbound_ok w0 s \<longleftrightarrow>
     (\<exists>popped lost out. transport_ok w0 (cr_accepted s) (cr_client s) popped lost out)"

lemma transport_ok_cong:
  "cl_tx c' = cl_tx c \<Longrightarrow> cl_sink c' = cl_sink c \<Longrightarrow> cl_writer_done c' = cl_writer_done c \<Longrightarrow>
     transport_ok w0 acc c' popped lost out = transport_ok w0 acc c popped lost out"
  by (simp add: transport_ok_def)

lemma outbound_ok_start: "outbound_ok (written sk) (client_run_start rt ub n sk)"
  by (simp add: outbound_ok_def transport_ok_def client_run_start_def client_start_def new)

text \<open>An attempt to put a message on the queue.\<close>

lemma outbound_ok_push:
  assumes "outbound_ok w0 s" and "cl_tx (cr_client s') = snd (ub_send ub m (cl_tx (cr_client s)))"
    and "cl_sink (cr_client s') = cl_sink (cr_client s)"
      "cl_writer_done (cr_client s') = cl_writer_done (cr_client s)"
      "cr_accepted s' = cr_accepted s @ (if fst (ub_send ub m (cl_tx (cr_client s))) then [m] else [])"
  shows "outbound_ok w0 s'"
proof -
  obtain popped lost out where ok: "transport_ok w0 (cr_accepted s) (cr_client s) popped lost out"
    using assms(1) by (auto simp: outbound_ok_def)
  show ?thesis
  proof (cases rule: send_cases [of m "cl_tx (cr_client s)"])
    case (sent q)
    then have "transport_ok w0 (cr_accepted s') (cr_client s') popped lost out"
      using ok assms(2-5) by (simp add: transport_ok_def split: if_splits)
    then show ?thesis by (auto simp: outbound_ok_def)
  next
    case failed
    then have "transport_ok w0 (cr_accepted s') (cr_client s') popped lost out"
      using ok assms(2-5) by (simp add: transport_ok_def split: if_splits)
    then show ?thesis by (auto simp: outbound_ok_def)
  qed
qed

lemma outbound_ok_frame:
  assumes "outbound_ok w0 s" "cl_tx (cr_client s') = cl_tx (cr_client s)"
    "cl_sink (cr_client s') = cl_sink (cr_client s)"
    "cl_writer_done (cr_client s') = cl_writer_done (cr_client s)" "cr_accepted s' = cr_accepted s"
  shows "outbound_ok w0 s'"
  using assms by (simp add: outbound_ok_def transport_ok_cong [OF assms(2-4)])

lemma outbound_okI:
  assumes "cr_accepted s = popped @ items (cl_tx c) @ lost" "written (cl_sink c) = w0 @ out"
    "prefix out (wire popped)"
    "if cl_writer_done c then \<not> open_rx (cl_tx c) \<and> items (cl_tx c) = []
     else open_rx (cl_tx c) \<and> lost = [] \<and> out = wire popped \<and> list_all (\<lambda>m. \<not> is_close m) popped"
  shows "outbound_ok w0 (s\<lparr>cr_client := c\<rparr>)"
  unfolding outbound_ok_def transport_ok_def
  by (rule exI [of _ popped], rule exI [of _ lost], rule exI [of _ out]) (use assms in simp)

text \<open>The writer sends the first message of the queue.\<close>

lemma outbound_ok_send:
  fixes raw :: "('c, 'f) raw_message"
  assumes acc: "cr_accepted s = wired @ items (cl_tx (cr_client s))"
    and out: "written (cl_sink (cr_client s)) = w0 @ wire wired"
    and run: "\<not> cl_writer_done (cr_client s)" "open_rx (cl_tx (cr_client s))"
      "list_all (\<lambda>m. \<not> is_close m) wired"
    and some: "ub_recv ub (cl_tx (cr_client s)) = Some (m, q)" "items (cl_tx (cr_client s)) = m # items q"
      "open_rx q = open_rx (cl_tx (cr_client s))"
    and raw: "raw_of_message m = Inr raw"
  shows "outbound_ok w0 (s\<lparr>cr_client := writer_turn api ub (cr_client s)\<rparr>)"
proof -
  let ?c = "cr_client s"
  obtain r sk where send: "sink_send api raw (cl_sink ?c) = (r, sk)" by (cases "sink_send api raw (cl_sink ?c)")
  have snoc: "wire (wired @ [m]) = wire wired @ [raw]" using raw run(3) by (simp add: wire_snoc)
  note defs = writer_turn_def writer_finish_def drop_rx close_written Let_def
  show ?thesis
  proof (cases r)
    case (Inl e)
    with send send_err have "written sk = written (cl_sink ?c) \<or> written sk = written (cl_sink ?c) @ [raw]"
      by blast
    then obtain out' where "written sk = w0 @ out'" "prefix out' (wire (wired @ [m]))"
      using out snoc by auto
    then show ?thesis
      by (intro outbound_okI [of s "wired @ [m]" _ "items q" w0 out'])
        (use Inl raw send some run acc in \<open>auto simp: defs\<close>)
  next
    case (Inr u)
    with send send_ok have w: "written sk = w0 @ wire (wired @ [m])" using out snoc by auto
    show ?thesis
      by (rule outbound_okI [of s "wired @ [m]" _ "if is_close m then items q else []" w0 "wire (wired @ [m])"])
        (use w Inr raw send some run acc in \<open>auto simp: defs\<close>)
  qed
qed

lemma outbound_ok_writer:
  assumes "outbound_ok w0 s"
  shows "outbound_ok w0 (s\<lparr>cr_client := writer_turn api ub (cr_client s)\<rparr>)"
proof (cases "cl_writer_done (cr_client s)")
  case True
  with assms show ?thesis by (simp add: writer_turn_def)
next
  case False
  let ?c = "cr_client s"
  obtain wired where ok: "cr_accepted s = wired @ items (cl_tx ?c)" "written (cl_sink ?c) = w0 @ wire wired"
    "open_rx (cl_tx ?c)" "list_all (\<lambda>m. \<not> is_close m) wired"
    using assms False unfolding outbound_ok_def transport_ok_def by auto
  show ?thesis
  proof (cases rule: recv_cases [of "cl_tx ?c"])
    case none
    show ?thesis
      by (rule outbound_okI [of s wired _ "[]" w0 "wire wired"])
        (use none ok False in \<open>auto simp: writer_turn_def writer_finish_def drop_rx close_written\<close>)
  next
    case (some m q)
    show ?thesis
    proof (cases "raw_of_message m :: invalid_text_payload + ('c, 'f) raw_message")
      case (Inl e)
      then have "\<not> is_close m" by (auto simp: raw_of_message_close)
      then show ?thesis
        by (intro outbound_okI [of s "wired @ [m]" _ "[]" w0 "wire wired"])
          (use Inl some ok False in \<open>auto simp: writer_turn_def wire_snoc\<close>)
    next
      case (Inr raw)
      show ?thesis by (rule outbound_ok_send [OF ok(1,2) False ok(3,4) some Inr])
    qed
  qed
qed

lemma outbound_ok_step:
  assumes "outbound_ok w0 s" shows "outbound_ok w0 (client_step rt ub api op s)"
proof (cases op)
  case (PushSend i)
  show ?thesis
  proof (cases "i < length (cr_sending s)")
    case True
    then show ?thesis
      by (intro outbound_ok_push [OF assms, of _ "cr_sending s ! i"])
        (simp_all add: PushSend client_push_def case_prod_unfold Let_def)
  qed (use assms in \<open>simp add: PushSend\<close>)
next
  case PushClose
  show ?thesis
  proof (cases "0 < cr_closing s")
    case True
    then show ?thesis
      by (intro outbound_ok_push [OF assms, of _ close_msg])
        (simp_all add: PushClose client_push_close_def)
  qed (use assms in \<open>simp add: PushClose\<close>)
next
  case WriterTurn
  then show ?thesis using outbound_ok_writer [OF assms] by simp
next
  case CasClose
  show ?thesis using assms by (rule outbound_ok_frame)
    (simp_all add: CasClose client_cas_def case_prod_unfold Let_def)
next
  case Receive
  show ?thesis using assms by (rule outbound_ok_frame)
    (simp_all add: Receive client_try_recv_def case_prod_unfold Let_def split: option.split)
next
  case Deliver
  show ?thesis using assms by (rule outbound_ok_frame)
    (auto simp: Deliver reader_deliver_def reader_finish_def
      split: reader_state.split prod.split try_send_result.split)
next
  case (ReadFrame r)
  show ?thesis using assms by (rule outbound_ok_frame)
    (auto simp: ReadFrame reader_take_def reader_finish_def split: option.split sum.split)
qed (auto intro: outbound_ok_frame [OF assms])

end

sublocale client_transport \<subseteq> client_outbound: machine "\<lambda>_ _. True" "client_step rt ub api" "outbound_ok w0"
  for rt :: "('ch, 'nt) runtime" and w0
  by unfold_locales (rule outbound_ok_step)

context client_transport begin

lemma outbound_ok_run: "outbound_ok w0 s \<Longrightarrow> outbound_ok w0 (client_run rt ub api ops s)"
  unfolding client_run_def by (rule client_outbound.run_inv) (simp_all add: legal_ops_True)

end

interpretation plain_transport: client_transport list_channel fst snd wire_api ws_out
  by unfold_locales

section \<open>A run as a whole\<close>

lemma client_wire_prefix:
  assumes "unbounded_channel ub items open_rx" and "message_sink api written"
  shows "\<exists>out. written (cl_sink (cr_client (client_run rt ub api ops (client_run_start rt ub n sk))))
      = written sk @ out \<and>
    prefix out (wire (cr_accepted (client_run rt ub api ops (client_run_start rt ub n sk))))"
proof -
  let ?s = "client_run rt ub api ops (client_run_start rt ub n sk)"
  have t: "client_transport ub items open_rx api written"
    using assms by (simp add: client_transport_def)
  have "client_transport.outbound_ok items open_rx written (written sk) ?s"
    by (intro client_transport.outbound_ok_run [OF t] client_transport.outbound_ok_start [OF t])
  then obtain popped lost out where ok: "cr_accepted ?s = popped @ items (cl_tx (cr_client ?s)) @ lost"
    "written (cl_sink (cr_client ?s)) = written sk @ out" "prefix out (wire popped)"
    by (auto simp: client_transport.outbound_ok_def [OF t] client_transport.transport_ok_def [OF t])
  have "prefix popped (cr_accepted ?s)" by (simp add: ok(1))
  then have "prefix out (wire (cr_accepted ?s))" using ok(3) wire_prefix prefix_order.trans by blast
  with ok(2) show ?thesis by blast
qed

lemma client_inbound:
  assumes "mpsc_channel rt queued capacity rx_alive" and "0 < n"
  shows "mpsc_channel.inbound_ok queued capacity rx_alive (client_run rt ub api ops (client_run_start rt ub n sk)) \<and>
    capacity (cl_rx (cr_client (client_run rt ub api ops (client_run_start rt ub n sk)))) = unat n"
proof
  show "mpsc_channel.inbound_ok queued capacity rx_alive (client_run rt ub api ops (client_run_start rt ub n sk))"
    by (intro mpsc_channel.inbound_ok_run [OF assms(1)] mpsc_channel.inbound_ok_start [OF assms])
  show "capacity (cl_rx (cr_client (client_run rt ub api ops (client_run_start rt ub n sk)))) = unat n"
    unfolding mpsc_channel.client_run_capacity [OF assms(1)]
    by (simp add: client_run_start_def client_start_def mpsc_channel.channel_new [OF assms(1,2)])
qed

section \<open>Properties\<close>

text \<open>
  C22. Closing a client: whatever its users and its two tasks do, in any interleaving, at most one
  call of \<open>close\<close> (or drop) sends a Close message; a writer or reader that is done has marked the
  client closed; and once closed it stays closed, every later \<open>send\<close> failing with
  \<open>ConnectionClosed\<close> and changing nothing.
\<close>

theorem client_close_protocol:
  "let s = client_run rt ub api ops (client_run_start rt ub n sk) in
     cr_closes s + cr_closing s \<le> 1 \<and>
     (cl_writer_done (cr_client s) \<or> cl_reader (cr_client s) = ReaderDone \<longrightarrow>
        client_is_closed (cr_client s)) \<and>
     (client_is_closed (cr_client s) \<longrightarrow>
        (let c = cr_client (client_run rt ub api ops' s) in
           client_is_closed c \<and>
           client_send ub m c = (Inl ConnectionClosed :: ('t, 'i, 's, unit) ws_result, c)))"
proof -
  let ?s = "client_run rt ub api ops (client_run_start rt ub n sk)"
  have "flag_ok (client_run_start rt ub n sk)"
    by (simp add: flag_ok_def client_run_start_def client_start_def)
  then have "flag_ok ?s"
    unfolding client_run_def by (rule client_flag.run_inv) (simp add: legal_ops_True)
  moreover have "cl_closed (cr_client (client_run rt ub api ops' s))" if "cl_closed (cr_client s)" for s
    using that unfolding client_run_def by (induction ops' arbitrary: s) (simp_all add: client_step_closed)
  ultimately show ?thesis
    by (auto simp: flag_ok_def client_is_closed_def client_send_def Let_def)
qed

definition sample_sink :: "(unit, unit) wire_sink" where
  "sample_sink = \<lparr>ws_out = [], ws_credit = 9, ws_closed = False\<rparr>"

definition sample_client_ops :: "(unit, unit, string) client_op list" where
  "sample_client_ops =
     [CheckSend (ping_msg [1]), CasClose, PushSend 0, CasClose, PushClose, WriterTurn, WriterTurn,
      ReadFrame (Some (Inr (RawPong []))), Deliver, Receive]"

abbreviation sample_client_run :: "(fifo, message list \<times> bool, (unit, unit) wire_sink) client_run" where
  "sample_client_run \<equiv> client_run fifo_runtime list_channel wire_api sample_client_ops
     (client_run_start fifo_runtime list_channel 2 sample_sink)"

lemmas client_evals = client_run_def sample_client_ops_def client_run_start_def client_start_def
  client_push_def client_cas_def client_push_close_def client_try_recv_def writer_turn_def
  writer_finish_def reader_take_def reader_deliver_def reader_finish_def read_message_def
  list_channel_def wire_api_def wire_send_def sample_sink_def Let_def

theorem client_close_protocol_witness:
  "client_is_closed (cr_client (client_run fifo_runtime list_channel wire_api [WriterTurn] sample_client_run)) \<and>
   cr_closes sample_client_run = 1"
proof -
  have "cl_writer_done (cr_client sample_client_run)" "cr_closes sample_client_run = 1"
    by (simp_all add: client_evals fifo_defs)
  then show ?thesis
    using client_close_protocol [of fifo_runtime list_channel wire_api sample_client_ops 2 sample_sink
        "[WriterTurn]" "ping_msg []", where ?'t = unit and ?'i = unit and ?'s = unit]
    by (simp add: Let_def)
qed

text \<open>
  C21. Receiving loses nothing and is bounded: the application receives the messages read from the
  socket in order (a Close frame as a Close message), each once; while it keeps its handle,
  those not yet received are in the queue, of at most the configured capacity, or the one the
  reader holds while it waits for room.
\<close>

theorem client_inbound_lossless:
  assumes "mpsc_channel rt queued capacity rx_alive" and "0 < n"
  shows "let s = client_run rt ub api ops (client_run_start rt ub n sk); rx = cl_rx (cr_client s) in
    length (queued rx) \<le> unat n \<and> prefix (cr_received s) (cr_read s) \<and>
    (rx_alive rx \<longrightarrow> cr_read s = cr_received s @ queued rx @ held (cr_client s) \<and>
       length (held (cr_client s)) \<le> 1)"
  using client_inbound [OF assms, of ub api ops sk]
  by (auto simp: mpsc_channel.inbound_ok_def [OF assms(1)] held_def Let_def
      split: if_splits reader_state.split)

theorem client_inbound_lossless_witness:
  "prefix (cr_received sample_client_run) (cr_read sample_client_run) \<and>
   cr_received sample_client_run = [pong_msg []]"
proof -
  have "mpsc_channel fifo_runtime f_buf f_cap f_alive"
    using fifo.tokio_runtime_axioms by (rule tokio_runtime.axioms)
  moreover have "cr_received sample_client_run = [pong_msg []]"
    by (simp add: client_evals fifo_defs)
  ultimately show ?thesis
    using client_inbound_lossless [of fifo_runtime f_buf f_cap f_alive 2 list_channel wire_api
        sample_client_ops sample_sink] by (simp add: Let_def)
qed

text \<open>
  What a client puts on the wire is, in every interleaving, a prefix of the wire image of the
  messages it accepted, in the order it accepted them: unsendable text is skipped, and nothing
  follows the first Close.
\<close>

theorem client_outbound_wire:
  assumes "unbounded_channel ub items open_rx" and "message_sink api written"
  shows "let s = client_run rt ub api ops (client_run_start rt ub n sk) in
    \<exists>out. written (cl_sink (cr_client s)) = written sk @ out \<and> prefix out (wire (cr_accepted s)) \<and>
      (\<forall>r \<in> set (butlast out). \<not> raw_is_close r)"
proof -
  obtain out where "written (cl_sink (cr_client (client_run rt ub api ops (client_run_start rt ub n sk))))
      = written sk @ out"
    and p: "prefix out (wire (cr_accepted (client_run rt ub api ops (client_run_start rt ub n sk))))"
    using client_wire_prefix [OF assms] by blast
  with wire_part_no_close [OF p] show ?thesis by (auto simp: Let_def)
qed

theorem client_outbound_wire_witness:
  "prefix (ws_out (cl_sink (cr_client sample_client_run))) (wire (cr_accepted sample_client_run)) \<and>
   ws_out (cl_sink (cr_client sample_client_run)) = [RawPing [1], RawClose None]"
proof -
  have "ws_out (cl_sink (cr_client sample_client_run)) = [RawPing [1], RawClose None]"
    by (simp add: client_evals fifo_defs)
  then show ?thesis
    using client_outbound_wire [OF list_channel.unbounded_channel_axioms wire.message_sink_axioms,
        of fifo_runtime sample_client_ops 2 sample_sink]
    by (simp add: Let_def) (simp add: sample_sink_def)
qed

text \<open>
  C31. Connecting checks its inputs before it touches the network: without a URL, with an inbound
  capacity of zero, or with a URL that does not parse, the result is the error of the first of these
  that applies, whatever the network would do.  Otherwise the attempt, made with the parsed URL and the
  builder's timeout and limits, decides: a timeout, a protocol error, or an open client on the
  connected stream with fresh queues, the inbound one of the requested capacity.  Only for a capacity
  that tokio refuses does the call panic, and then with the connection already made.
\<close>

theorem connect_checks_first:
  "let result = (client_builder_connect api wca connector rt channel_ok ub b
         :: ('t, 'i, 's, ('ch, 'ub, 'sk) client) ws_result outcome);
       n = cb_inbound_queue_capacity b
   in (cb_url b = None \<longrightarrow> result = Returned (Inl (InvalidUrl ''URL not provided''))) \<and>
      (\<forall>raw. cb_url b = Some raw \<longrightarrow>
         (n = 0 \<longrightarrow> result = Returned (Inl (Connection ''inbound_queue_capacity must be non-zero''))) \<and>
         (\<forall>e. n \<noteq> 0 \<and> url_parse api raw = Inl e \<longrightarrow> result = Returned (Inl (InvalidUrl e))) \<and>
         (\<forall>u. n \<noteq> 0 \<and> url_parse api raw = Inr u \<longrightarrow>
            (case connector (cb_connect_timeout b) (url_to_string api u)
                (map_option (\<lambda>m. wc_max_frame_size wca (Some m) (wc_max_message_size wca (Some m) (wc_default wca)))
                   (cb_max_message_size b)) False of
               ConnectTimeout \<Rightarrow> result = Returned (Inl Timeout)
             | ConnectFailed t \<Rightarrow> result = Returned (Inl (Protocol t))
             | ConnectedTo sk \<Rightarrow>
                 if channel_ok n
                 then \<exists>c. result = Returned (Inr c) \<and> cl_sink c = sk \<and> \<not> client_is_closed c \<and>
                   cl_tx c = ub_new ub \<and> cl_rx c = rt_channel rt n \<and> \<not> cl_writer_done c \<and> cl_reader c = Reading
                 else result = Panicked)))"
  by (auto simp: client_builder_connect_def connect_with_config_def client_start_def client_is_closed_def Let_def
      split: connected.split)

text \<open>URLs as records of their components; the text is the user name and the query.\<close>

record url_record =
  ur_host :: string
  ur_user :: string
  ur_pass :: "string option"
  ur_query :: "string option"
  ur_fragment :: "string option"

definition record_urls :: "url_record url_api" where
  "record_urls =
     \<lparr>url_parse = (\<lambda>s. if s = [] then Inl ''empty'' else
        Inr \<lparr>ur_host = ''h'', ur_user = s, ur_pass = Some s, ur_query = Some s, ur_fragment = None\<rparr>),
      url_username = ur_user, url_password = ur_pass, url_query = ur_query,
      url_set_username = (\<lambda>s u. u\<lparr>ur_user := s\<rparr>), url_set_password = (\<lambda>s u. u\<lparr>ur_pass := s\<rparr>),
      url_set_query = (\<lambda>s u. u\<lparr>ur_query := s\<rparr>), url_set_fragment = (\<lambda>s u. u\<lparr>ur_fragment := s\<rparr>),
      url_to_string = (\<lambda>u. concat [ur_user u, ''@'', ur_host u, ''?'', case ur_query u of None \<Rightarrow> [] | Some q \<Rightarrow> q])\<rparr>"

text \<open>A network where every attempt succeeds, and tokio's bound on the capacity of a channel.\<close>

abbreviation sample_connect ::
  "client_builder \<Rightarrow> (unit, unit, unit, (fifo, message list \<times> bool, (unit, unit) wire_sink) client) ws_result outcome" where
  "sample_connect b \<equiv> client_builder_connect record_urls sample_wc (\<lambda>_ _ _ _. ConnectedTo sample_sink)
     fifo_runtime (\<lambda>n. n \<noteq> 0 \<and> unat n \<le> 2 ^ 61 - 1) list_channel b"

theorem connect_checks_first_witness:
  "sample_connect (client_builder_url [] (client_builder_inbound_queue_capacity 0 client_builder_default))
     = Returned (Inl (Connection ''inbound_queue_capacity must be non-zero'')) \<and>
   sample_connect (client_builder_url [] client_builder_default) = Returned (Inl (InvalidUrl ''empty'')) \<and>
   (\<exists>c. sample_connect (client_builder_url ''u'' client_builder_default) = Returned (Inr c) \<and>
      cl_sink c = sample_sink \<and> \<not> client_is_closed c) \<and>
   sample_connect (client_builder_url ''u'' (client_builder_inbound_queue_capacity (2 ^ 61) client_builder_default))
     = Panicked"
proof (intro conjI)
  note outcome = connect_checks_first [where ?'t = unit and ?'i = unit and ?'s = unit and api = record_urls
      and wca = sample_wc and connector = "\<lambda>_ _ _ _. ConnectedTo sample_sink" and rt = fifo_runtime
      and channel_ok = "\<lambda>n. n \<noteq> 0 \<and> unat n \<le> 2 ^ 61 - 1" and ub = list_channel, unfolded Let_def]
  note defs = client_builder_default_def client_builder_url_def client_builder_inbound_queue_capacity_def
    record_urls_def default_inbound_queue_capacity_def
  show "sample_connect (client_builder_url [] (client_builder_inbound_queue_capacity 0 client_builder_default))
     = Returned (Inl (Connection ''inbound_queue_capacity must be non-zero''))"
    using outcome [of "client_builder_url [] (client_builder_inbound_queue_capacity 0 client_builder_default)"]
    by (simp add: defs)
  show "sample_connect (client_builder_url [] client_builder_default) = Returned (Inl (InvalidUrl ''empty''))"
    using outcome [of "client_builder_url [] client_builder_default"] by (simp add: defs)
  show "\<exists>c. sample_connect (client_builder_url ''u'' client_builder_default) = Returned (Inr c) \<and>
      cl_sink c = sample_sink \<and> \<not> client_is_closed c"
    using outcome [of "client_builder_url ''u'' client_builder_default"] by (auto simp: defs)
  show "sample_connect (client_builder_url ''u'' (client_builder_inbound_queue_capacity (2 ^ 61) client_builder_default))
     = Panicked"
    using outcome [of "client_builder_url ''u'' (client_builder_inbound_queue_capacity (2 ^ 61) client_builder_default)"]
    by (simp add: defs)
qed

text \<open>
  The contract of the \<open>url\<close> crate for redaction: the setters change their component and no
  other, URLs that cannot carry credentials have none, and the text is made of the components.
\<close>

locale url_library =
  fixes api :: "'u url_api" and public :: "'u \<Rightarrow> 'r" and fragment :: "'u \<Rightarrow> string option"
    and encode_user :: "string \<Rightarrow> string" and encode_query :: "string \<Rightarrow> string"
    and render :: "'r \<Rightarrow> string \<Rightarrow> string option \<Rightarrow> string option \<Rightarrow> string option \<Rightarrow> string"
  assumes set_username: "url_username api u \<noteq> [] \<or> url_password api u \<noteq> None \<Longrightarrow>
      url_username api (url_set_username api s u) = encode_user s \<and>
      url_password api (url_set_username api s u) = url_password api u \<and>
      url_query api (url_set_username api s u) = url_query api u \<and>
      fragment (url_set_username api s u) = fragment u \<and> public (url_set_username api s u) = public u"
    and set_password: "url_username api u \<noteq> [] \<or> url_password api u \<noteq> None \<Longrightarrow>
      url_username api (url_set_password api p u) = url_username api u \<and>
      url_password api (url_set_password api p u) = p \<and>
      url_query api (url_set_password api p u) = url_query api u \<and>
      fragment (url_set_password api p u) = fragment u \<and> public (url_set_password api p u) = public u"
    and encode_user: "s \<noteq> [] \<Longrightarrow> encode_user s \<noteq> []"
    and set_query: "url_username api (url_set_query api (Some q) u) = url_username api u"
      "url_password api (url_set_query api (Some q) u) = url_password api u"
      "url_query api (url_set_query api (Some q) u) = Some (encode_query q)"
      "fragment (url_set_query api (Some q) u) = fragment u" "public (url_set_query api (Some q) u) = public u"
    and set_fragment: "url_username api (url_set_fragment api None u) = url_username api u"
      "url_password api (url_set_fragment api None u) = url_password api u"
      "url_query api (url_set_fragment api None u) = url_query api u"
      "fragment (url_set_fragment api None u) = None" "public (url_set_fragment api None u) = public u"
    and to_string: "url_to_string api u =
      render (public u) (url_username api u) (url_password api u) (url_query api u) (fragment u)"
begin

lemma redact_url_render:
  assumes "url_parse api raw = Inr u"
  shows "redact_url api raw =
    render (public u)
      (if url_username api u \<noteq> [] \<or> url_password api u \<noteq> None then encode_user ''[REDACTED]'' else [])
      None (if url_query api u = None then None else Some (encode_query ''[REDACTED]'')) None"
proof -
  let ?u1 = "if url_username api u \<noteq> [] \<or> url_password api u \<noteq> None
     then url_set_password api None (url_set_username api ''[REDACTED]'' u) else u"
  have u1: "public ?u1 = public u" "url_password api ?u1 = None" "url_query api ?u1 = url_query api u"
    "url_username api ?u1 =
      (if url_username api u \<noteq> [] \<or> url_password api u \<noteq> None then encode_user ''[REDACTED]'' else [])"
    using set_username [of u "''[REDACTED]''"]
      set_password [of "url_set_username api ''[REDACTED]'' u" None] encode_user [of "''[REDACTED]''"]
    by (auto simp del: encode_user)
  let ?u2 = "if url_query api ?u1 \<noteq> None then url_set_query api (Some ''[REDACTED]'') ?u1 else ?u1"
  have u2: "public ?u2 = public u" "url_password api ?u2 = None"
    "url_username api ?u2 = url_username api ?u1"
    "url_query api ?u2 = (if url_query api u = None then None else Some (encode_query ''[REDACTED]''))"
    using u1(1-3) set_query [of "''[REDACTED]''" ?u1] by auto
  have "redact_url api raw = url_to_string api (url_set_fragment api None ?u2)"
    using assms by (simp add: redact_url_def Let_def)
  then show ?thesis unfolding to_string set_fragment u2 u1(4) by simp
qed

end

interpretation record_urls: url_library record_urls ur_host ur_fragment "\<lambda>s. s" "\<lambda>s. s"
  "\<lambda>h user p q f. concat [user, ''@'', h, ''?'', case q of None \<Rightarrow> [] | Some q \<Rightarrow> q]"
  by unfold_locales (simp_all add: record_urls_def)

text \<open>
  The \<open>Debug\<close> output of a client builder hides what may be secret in its URL: it is the same
  for every two URLs with the same scheme, host, port and path that agree on whether there are
  credentials and whether there is a query; user name, password, query text and fragment do not
  show.
\<close>

theorem debug_hides_secrets:
  assumes "url_library api public fragment encode_user encode_query render"
    and "url_parse api raw1 = Inr u" "url_parse api raw2 = Inr v" "public u = public v"
    and "(url_username api u \<noteq> [] \<or> url_password api u \<noteq> None) =
      (url_username api v \<noteq> [] \<or> url_password api v \<noteq> None)"
    and "(url_query api u = None) = (url_query api v = None)"
  shows "client_builder_debug api (client_builder_url raw1 b) =
    client_builder_debug api (client_builder_url raw2 b)"
  using url_library.redact_url_render [OF assms(1,2)] url_library.redact_url_render [OF assms(1,3)]
    assms(4-6)
  by (simp add: client_builder_debug_def client_builder_url_def)

theorem debug_hides_secrets_witness:
  "client_builder_debug record_urls (client_builder_url ''secret'' client_builder_default) =
   client_builder_debug record_urls (client_builder_url ''other'' client_builder_default)"
proof (rule debug_hides_secrets [OF record_urls.url_library_axioms])
  let ?u = "\<lambda>s. \<lparr>ur_host = ''h'', ur_user = s, ur_pass = Some s, ur_query = Some s, ur_fragment = None\<rparr>"
  show "url_parse record_urls ''secret'' = Inr (?u ''secret'')"
    "url_parse record_urls ''other'' = Inr (?u ''other'')"
    "ur_host (?u ''secret'') = ur_host (?u ''other'')"
    "(url_username record_urls (?u ''secret'') \<noteq> [] \<or> url_password record_urls (?u ''secret'') \<noteq> None) =
     (url_username record_urls (?u ''other'') \<noteq> [] \<or> url_password record_urls (?u ''other'') \<noteq> None)"
    "(url_query record_urls (?u ''secret'') = None) = (url_query record_urls (?u ''other'') = None)"
    by (simp_all add: record_urls_def)
qed

end
