(* ===== verification/Ws_End_To_End.thy ===== *)
theory Ws_End_To_End imports Ws_Wire Ws_Client_Props Ws_Session_Props begin

text \<open>
  A client and a server connected by a network that delivers, in order, a part of what was written:
  from \<open>send\<close> on one side to the callbacks or \<open>recv\<close> on the other.
\<close>

section \<open>What can be delivered\<close>

text \<open>
  Of the messages a side accepted for sending: those that can be sent, in order, up to the first
  Close, which arrives without its payload.
\<close>

fun deliverable :: "message list \<Rightarrow> message list" where
  "deliverable [] = []"
| "deliverable (m # ms) =
     (if is_close m then [close_msg]
      else if sendable m then m # deliverable ms
      else deliverable ms)"

lemma wire_deliverable:
  "map message_of_raw (wire ms :: ('c, 'f) raw_message list) = deliverable ms"
proof (induction ms)
  case (Cons m ms)
  show ?case
  proof (cases "raw_of_message m :: invalid_text_payload + ('c, 'f) raw_message")
    case (Inl e)
    then have "\<not> sendable m" "\<not> is_close m"
      using raw_of_message_ok [of m, where ?'a = 'c and ?'b = 'f]
        raw_of_message_close [of m, where ?'a = 'c and ?'b = 'f] by auto
    then show ?thesis using Inl Cons.IH by simp
  next
    case (Inr raw)
    then have "sendable m" using raw_of_message_ok [of m, where ?'a = 'c and ?'b = 'f] by simp
    then show ?thesis using Inr Cons.IH message_of_raw_of_message [OF Inr] by simp
  qed
qed simp

lemma wire_wf: "list_all wf_raw (wire ms :: ('c, 'f) raw_message list)"
proof (induction ms)
  case (Cons m ms)
  have "wf_raw raw" if "raw_of_message m = Inr raw" for raw :: "('c, 'f) raw_message"
    using that by (auto simp: raw_of_message_def from_utf8_def valid_utf8_def
        split: message_type.splits option.splits sum.splits)
  then show ?case using Cons.IH by (auto split: sum.split)
qed simp

section \<open>What arrives\<close>

text \<open>The frames among the reads of a session, and the messages among its callbacks.\<close>

fun frames_of :: "('t + ('c, 'f) raw_message) option list \<Rightarrow> ('c, 'f) raw_message list" where
  "frames_of [] = []"
| "frames_of (Some (Inr raw) # rs) = raw # frames_of rs"
| "frames_of (_ # rs) = frames_of rs"

fun messages_in :: "('t, 'i, 's) callback list \<Rightarrow> message list" where
  "messages_in [] = []"
| "messages_in (GotMessage _ _ m # cs) = m # messages_in cs"
| "messages_in (_ # cs) = messages_in cs"

definition is_data :: "message \<Rightarrow> bool" where
  "is_data m \<longleftrightarrow> is_text m \<or> is_binary m"

lemma messages_in_append [simp]: "messages_in (xs @ ys) = messages_in xs @ messages_in ys"
  by (induction xs rule: messages_in.induct) simp_all

lemma frames_of_append: "frames_of (xs @ ys) = frames_of xs @ frames_of ys"
  by (induction xs rule: frames_of.induct) simp_all

lemma messages_of_reads:
  "messages_in (concat (map (callback_of cid p) rs)) = filter is_data (map message_of_raw (frames_of rs))"
proof (induction rs rule: frames_of.induct)
  case (2 raw rs)
  then show ?case
    by (cases raw) (simp_all add: callback_of_def is_data_def message_ctor_defs message_pred_defs Let_def)
qed (simp_all add: callback_of_def)

lemma prefix_filter: "prefix xs ys \<Longrightarrow> prefix (filter P xs) (filter P ys)"
  by (auto simp: prefix_def)

section \<open>Properties\<close>

text \<open>
  C26. Everything either side writes is a well-formed WebSocket message: whatever byte strings the
  application passes as text, and in every interleaving, a text message on the wire is UTF-8.
\<close>

theorem wire_well_formed:
  fixes api :: "('sk, 'c, 'f, 't) sink_api"
  assumes "message_sink api written" and "written sk = []"
    and "unbounded_channel ub items open_rx"
    and "mpsc_channel rt queued capacity rx_alive" and "0 < n" and "list_all wire_legal ops"
  shows "list_all wf_raw (written (cl_sink (cr_client (client_run rt' ub api cops (client_run_start rt' ub n' sk))))) \<and>
    list_all wf_raw (written (writer_sink (snd (wire_run rt api ops (conn_start rt n, Writing sk)))))"
proof -
  have "list_all wf_raw out" if "prefix out (wire ms)" for out :: "('c, 'f) raw_message list" and ms
    using that wire_wf [of ms, where ?'c = 'c and ?'f = 'f] by (auto simp: prefix_def)
  then show ?thesis
    using client_wire_prefix [OF assms(3,1), of rt' cops n' sk] wire_run_prefix [OF assms(4,1,5,6), of sk]
    by (auto simp: assms(2))
qed

theorem wire_well_formed_witness:
  "list_all wf_raw (ws_out (cl_sink (cr_client (client_run fifo_runtime list_channel wire_api sample_client_ops
     (client_run_start fifo_runtime list_channel 2 sample_wire_sink)))))"
proof -
  have legal: "list_all wire_legal sample_wire_ops"
    by (simp add: sample_wire_ops_def sample_wire_start_def wire_legal_def holder_op_def)
  have empty: "ws_out sample_wire_sink = []" by (simp add: sample_wire_sink_def)
  show ?thesis
    using wire_well_formed [OF wire.message_sink_axioms empty list_channel.unbounded_channel_axioms
        fifo.mpsc_channel_axioms _ legal, where n = 4 and rt' = fifo_runtime
        and cops = sample_client_ops and n' = 2] by simp
qed

text \<open>
  C8. From a client to the application on the server: when the frames a session reads are, in order,
  ones that the client wrote, the application gets a prefix of the client's deliverable data messages,
  each unchanged, in the order \<open>send\<close> accepted them, whatever sends, closes and tasks interleave on
  the client's side and however the session ends; nothing sent after a Close arrives.
\<close>

theorem client_to_application:
  fixes accept :: "('st, 'req, 'resp, 'wc, 'ws, 't) acceptor" and r :: "('t, 'i, 's, unit) ws_result"
    and api :: "('sk, 'c, 'f, 'u) sink_api"
  assumes "unbounded_channel ub items open_rx" and "message_sink api written" and "written sk = []"
    and "quiet h" and "env_handler env = recording h" and "others_quiet evs"
    and "\<And>w. trace (drain w) = trace w"
    and "handle_connection http accept is_http wca auth env st addr cid ref now evs drain flushed w = Ended r w'"
    and "prefix (frames_of (reads_of evs))
      (written (cl_sink (cr_client (client_run rt ub api ops (client_run_start rt ub n sk)))))"
  shows "\<exists>tr. trace w' = trace w @ tr \<and>
    prefix (messages_in tr)
      (filter is_data (deliverable (cr_accepted (client_run rt ub api ops (client_run_start rt ub n sk)))))"
proof (cases "w' = w")
  case False
  let ?ms = "cr_accepted (client_run rt ub api ops (client_run_start rt ub n sk))"
  obtain p where "run_session env cid addr ref p now evs drain flushed w = Ended r w'"
    using assms(8) False by (auto simp: handle_connection_def split: sum.splits option.splits prod.splits)
  then obtain pre ev post where evs: "evs = pre @ ev # post"
    and tr: "trace w' = trace w @ [Connected cid p] @
      concat (map (callback_of cid p) (reads_of (pre @ [ev]))) @ [Disconnected cid p]"
    using session_trace [OF assms(4-7)] by blast
  have "prefix (frames_of (reads_of (pre @ [ev]))) (frames_of (reads_of evs))"
    using reads_of_append [of "pre @ [ev]" post] by (simp add: evs frames_of_append)
  also have "prefix (frames_of (reads_of evs)) (wire ?ms)"
    using client_wire_prefix [OF assms(1,2), of rt ops n sk] assms(3,9) prefix_order.trans by fastforce
  finally have "prefix (filter is_data (map message_of_raw (frames_of (reads_of (pre @ [ev])))))
      (filter is_data (map message_of_raw (wire ?ms :: ('c, 'f) raw_message list)))"
    by (rule prefix_filter [OF map_mono_prefix])
  then have "prefix (messages_in (concat (map (callback_of cid p) (reads_of (pre @ [ev])))))
      (filter is_data (deliverable ?ms))"
    by (simp only: messages_of_reads wire_deliverable)
  then show ?thesis using tr by simp
qed simp

text \<open>A client that says hello, and a session that reads it.\<close>

definition hello_ops :: "(unit, unit, string) client_op list" where
  "hello_ops = [CheckSend (text_msg ''hi''), PushSend 0, WriterTurn, CasClose, PushClose, WriterTurn]"

definition hello_events ::
  "(unit, unit, http_response option, (fifo, bool, (http_response option, unit, unit) callback) traced) event list" where
  "hello_events = [ReadNext 1 (Some (Inr (RawText ''hi''))), Tick, ReadNext 2 (Some (Inr (RawClose None)))]"

abbreviation hello_run :: "(fifo, message list \<times> bool, (unit, unit) wire_sink) client_run" where
  "hello_run \<equiv> client_run fifo_runtime list_channel wire_api hello_ops
     (client_run_start fifo_runtime list_channel 2 sample_wire_sink)"

abbreviation hello_handler ::
  "(http_response option, unit, unit, (fifo, bool, (http_response option, unit, unit) callback) traced) handler" where
  "hello_handler \<equiv> quiet_handler"

abbreviation hello_session ::
  "((http_response option, unit, unit, unit) ws_result,
    (fifo, bool, (http_response option, unit, unit) callback) traced) session_end" where
  "hello_session \<equiv> handle_connection sample_http plain_accept (\<lambda>e. \<not> Option.is_none e) sample_wc AllowAnonymous
     (sample_env (recording hello_handler)) (Some []) sample_addr ''c'' 0 0 hello_events (\<lambda>w. w) True
     \<lparr>cells = sample_cells, room_heap = (\<lambda>_. room_new []), next_room = 0, rooms = Map.empty,
      connection_rooms = Map.empty, connections = Map.empty, trace = []\<rparr>"

lemma hello_session_ends:
  "\<exists>w'. hello_session = Ended (Inr ()) w' \<and> messages_in (trace w') = [text_msg ''hi'']"
proof -
  have "handshake sample_http plain_accept (\<lambda>e. \<not> Option.is_none e) sample_wc (Some []) AllowAnonymous
      server_config_default = (Inr (Some ([], principal_anonymous))
        :: (http_response option, unit, unit, (string list \<times> principal) option) ws_result)"
    by (simp add: handshake_def plain_accept_def handshake_callback_def admit_no_origin sample_http_def)
  then show ?thesis
    by (simp add: handle_connection_def session_evals recording_def note_call_def handler_evals frame_simps
        hello_events_def message_ctor_defs message_pred_defs)
qed

lemma hello_wire:
  "ws_out (cl_sink (cr_client hello_run)) = [RawText ''hi'', RawClose None]"
  "deliverable (cr_accepted hello_run) = [text_msg ''hi'', close_msg]"
proof -
  have hi: "sendable (text_msg ''hi'')" by code_simp
  then have raw: "raw_of_message (text_msg ''hi'') = (Inr (RawText ''hi'') :: invalid_text_payload + (unit, unit) raw_message)"
    by (simp add: sendable_def)
  show "ws_out (cl_sink (cr_client hello_run)) = [RawText ''hi'', RawClose None]"
    using raw by (simp add: client_evals fifo_defs hello_ops_def sample_wire_sink_def)
  show "deliverable (cr_accepted hello_run) = [text_msg ''hi'', close_msg]"
    using raw hi by (simp add: client_evals fifo_defs hello_ops_def sample_wire_sink_def)
qed

theorem client_to_application_witness:
  "\<exists>w' tr. hello_session = Ended (Inr ()) w' \<and> trace w' = tr \<and> messages_in tr = [text_msg ''hi''] \<and>
     prefix (messages_in tr) (filter is_data [text_msg ''hi'', close_msg])"
proof -
  obtain w' where w': "hello_session = Ended (Inr ()) w'" and tr: "messages_in (trace w') = [text_msg ''hi'']"
    using hello_session_ends by blast
  have empty: "ws_out sample_wire_sink = []" by (simp add: sample_wire_sink_def)
  have env: "env_handler (sample_env (recording hello_handler)) = recording hello_handler"
    by (simp add: sample_env_def)
  have oq: "others_quiet hello_events" by (simp add: others_quiet_def hello_events_def)
  have net: "prefix (frames_of (reads_of hello_events)) (ws_out (cl_sink (cr_client hello_run)))"
    by (simp add: hello_wire(1) hello_events_def)
  have "\<exists>tr. trace w' = tr \<and> prefix (messages_in tr) (filter is_data [text_msg ''hi'', close_msg])"
    using client_to_application [OF list_channel.unbounded_channel_axioms wire.message_sink_axioms empty
        quiet_quiet_handler env oq refl w' net] by (simp add: hello_wire(2))
  then show ?thesis using w' tr by blast
qed

text \<open>
  C9. From the server to a client: when what the client's reader reads are, in order, frames that the
  writer of the connection wrote, the application receives a prefix of what the connection accepted
  and could deliver, in order and unchanged, whatever holders, writer, reader and receiver interleave.
\<close>

theorem server_to_client:
  fixes api :: "('sk, 'c, 'f, 't) sink_api"
  assumes "mpsc_channel rt queued capacity rx_alive" and "message_sink api written" and "written sk = []"
    and "0 < n" and "list_all wire_legal ops"
    and "mpsc_channel rt' queued' capacity' rx_alive'" and "0 < n'"
    and "prefix (cr_read (client_run rt' ub api' cops (client_run_start rt' ub n' sk')))
      (map message_of_raw (written (writer_sink (snd (wire_run rt api ops (conn_start rt n, Writing sk))))))"
  shows "prefix (cr_received (client_run rt' ub api' cops (client_run_start rt' ub n' sk')))
    (deliverable (r_accepted (fst (wire_run rt api ops (conn_start rt n, Writing sk)))))"
proof -
  let ?s = "client_run rt' ub api' cops (client_run_start rt' ub n' sk')"
  let ?c = "wire_run rt api ops (conn_start rt n, Writing sk)"
  have "prefix (cr_received ?s) (cr_read ?s)"
    using client_inbound [OF assms(6,7), of ub api' cops sk']
    by (auto simp: mpsc_channel.inbound_ok_def [OF assms(6)] Let_def split: if_splits)
  also note assms(8)
  also have "prefix (map message_of_raw (written (writer_sink (snd ?c)))) (deliverable (r_accepted (fst ?c)))"
    using wire_run_prefix [OF assms(1,2,4,5), of sk]
    unfolding wire_deliverable [where ?'c = 'c and ?'f = 'f, symmetric]
    by (auto simp: assms(3) intro!: map_mono_prefix)
  finally show ?thesis .
qed

definition sample_reads_of_client :: "(unit, unit, string) client_op list" where
  "sample_reads_of_client =
     [ReadFrame (Some (Inr (RawPing [1]))), Deliver, ReadFrame (Some (Inr (RawText ''a''))), Receive,
      Deliver, Receive]"

theorem server_to_client_witness:
  "cr_received (client_run fifo_runtime list_channel wire_api sample_reads_of_client
      (client_run_start fifo_runtime list_channel 2 sample_sink)) = [ping_msg [1], text_msg ''a''] \<and>
   prefix [ping_msg [1], text_msg ''a'']
     (deliverable (r_accepted (fst (wire_run fifo_runtime wire_api sample_wire_ops
        (conn_start fifo_runtime 4, Writing sample_wire_sink)))))"
proof -
  let ?st = "wire_run fifo_runtime wire_api sample_wire_ops (conn_start fifo_runtime 4, Writing sample_wire_sink)"
  let ?c = "client_run fifo_runtime list_channel wire_api sample_reads_of_client
      (client_run_start fifo_runtime list_channel 2 sample_sink)"
  have legal: "list_all wire_legal sample_wire_ops"
    by (simp add: sample_wire_ops_def sample_wire_start_def wire_legal_def holder_op_def)
  have empty: "ws_out sample_wire_sink = []" by (simp add: sample_wire_sink_def)
  have out: "ws_out (writer_sink (snd ?st)) = [RawPing [1], RawText ''a'', RawClose None]"
    by (simp add: sample_wire_ops_def sample_wire_start_def sample_wire_sink_def writer_sink_def wire_evals)
  have recv: "cr_received ?c = [ping_msg [1], text_msg ''a'']" "cr_read ?c = [ping_msg [1], text_msg ''a'']"
    by (simp_all add: client_evals fifo_defs sample_reads_of_client_def)
  have net: "prefix (cr_read ?c) (map message_of_raw (ws_out (writer_sink (snd ?st))))"
    by (simp add: recv out)
  show ?thesis
    using server_to_client [OF fifo.mpsc_channel_axioms wire.message_sink_axioms empty _ legal
        fifo.mpsc_channel_axioms _ net] by (simp add: recv)
qed

end
