(* ===== verification/Spec2Isabelle.thy ===== *)
theory Spec2Isabelle
  imports Ws_Broadcast_Props Ws_Locks Ws_Lives Ws_Send_Races Ws_Session_Time Ws_Server_Protocol Ws_Server_Refines Ws_End_To_End
begin

text \<open>
  A verification library for armature-websocket: a WebSocket server with rooms, and a client, on
  tokio and tokio-tungstenite.  All sources are under \<open>src/src/\<close>.

  \<^bold>\<open>The program and its model.\<close>  A server (\<open>server.rs\<close>) accepts connections, at most so many at
  once; each goes through a handshake with an origin policy and an authorizer (\<open>auth.rs\<close>), gets
  a \<open>Connection\<close> handle with a bounded outbound queue and a writer task (\<open>connection.rs\<close>), is
  registered in the room manager (\<open>room.rs\<close>), and runs a read loop that calls the application's
  handler (\<open>handler.rs\<close>) until the peer, a read error, the heartbeat, the idle deadline or an
  eviction ends it.  The client (\<open>client.rs\<close>) has a builder, a writer and a reader task.

  \<^item> \<open>Ws_Prelude\<close>: bytes, strings as the bytes of their UTF-8 encoding, results as sums.
  \<^item> \<open>Ws_Machine\<close>: components as machines (the locales \<open>machine\<close> and \<open>refining_machine\<close>) and threads
    that take turns on a shared state (\<open>interleave\<close>).
  \<^item> \<open>Ws_Error\<close>, \<open>Ws_Utf8\<close>, \<open>Ws_Message\<close>: \<open>error.rs\<close>, \<open>std::str::from_utf8\<close> and \<open>message.rs\<close>.
  \<^item> \<open>Ws_Auth\<close>: \<open>auth.rs\<close>, and the admission of a request as \<open>handshake\<close> composes it.
  \<^item> \<open>Ws_Runtime\<close>: the interface of tokio's channels and \<open>Notify\<close> (the record \<open>runtime\<close>, the locales
    \<open>mpsc_channel\<close> and \<open>tokio_runtime\<close>), with a first-in first-out buffer as an instance.
  \<^item> \<open>Ws_Connection\<close>: \<open>Connection\<close>.  Its \<open>Arc\<close>ed fields are a \<open>cell\<close>; a handle has the address of
    its cell in a store.  \<open>Ws_Send_Races\<close> splits \<open>send\<close> and \<open>close\<close> into their shared accesses.
  \<^item> \<open>Ws_Writer\<close>, \<open>Ws_Wire\<close>: \<open>ConnectionWriter::run\<close>, as a loop over a list and turn by turn
    beside the holders of the connection; the sink is the record \<open>sink_api\<close> with the locale
    \<open>message_sink\<close>.
  \<^item> \<open>Ws_Room\<close>, \<open>Ws_Registry\<close>, \<open>Ws_Races\<close>: \<open>Room\<close> and \<open>RoomManager\<close> over the record \<open>world\<close> (cells,
    a heap of rooms, and the three maps); an abstract registry they refine; and every operation that
    changes the maps split into its accesses.
  \<^item> \<open>Ws_Lives\<close>: the calls that the task of one connection makes, from its registration to its
    unregistration, in that order, and any number of such tasks interleaved access by access.
  \<^item> \<open>Ws_Locks\<close>: the locks of shards and states that each call takes and drops, and threads that
    wait for them.
  \<^item> \<open>Ws_Broadcast\<close>, \<open>Ws_Broadcast_Props\<close>: the three broadcasts, shard by shard and access by
    access, among the other operations, other broadcasts, sends, closes and writers.
  \<^item> \<open>Ws_Config\<close>, \<open>Ws_Accept\<close>, \<open>Ws_Handshake\<close>: the configuration and builder, the accept loop, and
    \<open>handshake\<close> of \<open>server.rs\<close>, over the semaphore (\<open>counting_semaphore\<close>) and the upgrade
    (\<open>upgrade\<close>) as interfaces.
  \<^item> \<open>Ws_Handler\<close>, \<open>Ws_Session\<close>: the handler trait (a record of callbacks that may panic; the
    locale \<open>handler_contract\<close>) and \<open>handle_connection\<close>.  Each branch of \<open>select!\<close> is a definition,
    and the read loop runs over a list of events, one per turn.  \<open>Ws_Session_Props\<close> has what
    holds for every list of events, \<open>Ws_Session_Time\<close> what holds for those that the clock allows.
  \<^item> \<open>Ws_Server\<close>, \<open>Ws_Server_Props\<close>: a whole server, its accept loop and the tasks it spawned,
    which take their steps in any order over one room manager and one semaphore; a task is
    \<open>handle_connection\<close>, cut where it waits.  \<open>Ws_Lobby\<close> has handlers that work on rooms through the
    room manager, \<open>Ws_Server_Protocol\<close> what the application of a whole server hears, and
    \<open>Ws_Server_Refines\<close> the simulation of a server by its accept loop.
  \<^item> \<open>Ws_Client\<close>, \<open>Ws_Client_Props\<close>: \<open>client.rs\<close>, and a client in every interleaving of its users
    and its two tasks.
  \<^item> \<open>Ws_End_To_End\<close>: a client and a server over a network that delivers in order.

  \<^bold>\<open>What the theorems show.\<close>  As long as every registration has a fresh id and a cell of its own,
  which is what the server gives it, the room manager refines a registry of connections, rooms and
  memberships, whatever the iteration order of its maps, as a sequence of whole operations and, one
  operation at a time, access by access; it keeps its invariant through every
  operation and every interleaving of joins; three interleavings in which it does not are shown.
  They all need two calls about one connection at once: connections whose handlers join and leave
  rooms only for themselves leave no trace, however their accesses are interleaved.  The locks
  of the maps never deadlock, unless a closure of \<open>for_each_member\<close> changes other rooms.  A
  broadcast that nothing interrupts sends once to each connection it is addressed to and counts those
  sends that succeeded; interrupted or not, it reaches, once, everybody whom no concurrent call takes away, and nobody who was neither
  there nor added meanwhile; no message is lost or made up on the way.
  A connection's queue is bounded and first-in first-out, and what is on the wire is the image of
  the accepted messages up to the first Close, in every interleaving with the writer.  The
  origin policy is characterised by what an allowed origin looks like, apart from the functions that
  normalise it.  The
  handshake yields a connection only for a request both policy and authorizer accept, and the
  application sees one callback per frame, between \<open>on_connect\<close> and \<open>on_disconnect\<close>.  The
  heartbeat counter cannot overflow, idle means idle, a silent peer is found out within the bound
  the configuration gives and four times the delay with which the task gets its turns, and a session
  that ended leaves nothing behind.  In a running server,
  however its tasks interleave, every registered connection has an authorized principal and belongs
  to a running task or to one that panicked, the limit on connections holds, and without panics
  nothing is left when the last task has ended, while with a heartbeat interval of zero, which the
  builder accepts, every connection is left behind; the application hears of each connection in the order
  of the protocol, with one principal, and no callback more than the events call for; to the
  listener the server is its accept loop, and a
  connection served alone is \<open>handle_connection\<close>.  A client sends at most one Close, loses no inbound
  message and keeps the order of its outbound ones; end to end, what one side gets is a prefix of
  what the other accepted and could deliver.

  \<^bold>\<open>Bounds and fuel.\<close>  Sizes are 64-bit words and the heartbeat counter a 32-bit word, as in the
  code; lengths of lists are natural numbers.  Times are natural numbers of nanoseconds, and the
  addition that gives the idle deadline is a parameter that may fail, as \<open>Instant\<close> addition
  panics.  There is no fuel: loops that wait for events recurse over the list of events, the
  others have termination proofs.  The delay of a turn (\<open>late\<close> in \<open>Ws_Session_Time\<close>) is a promise of
  the runtime about single turns: once a branch of \<open>select!\<close> is ready and the task is free, some
  branch that is ready is taken within it.

  \<^bold>\<open>Not modelled.\<close>  Code outside \<open>src/\<close> is a parameter: tokio (channels, \<open>Notify\<close>, semaphore,
  timers, tasks), tungstenite (frames, upgrade, sink), \<open>http\<close>, \<open>url\<close>, \<open>serde_json\<close>, \<open>uuid\<close> (the
  fresh id is an argument).  Logging is modelled where the text of the documentation promises it
  (the warnings of a starting server, \<open>LoggingHandler\<close>).  The test modules, \<open>lib.rs\<close> (re-exports)
  and the build files have no logic of the library.  Accesses to a \<open>DashMap\<close>, an \<open>RwLock\<close> or an
  atomic are single steps; memory orderings weaker than sequential consistency are not modelled.
  In \<open>Ws_Server\<close> the accesses of a callback to the room manager are whole operations that register
  and unregister no connection; the races between the parts of two operations, with what can go
  wrong there, are in \<open>Ws_Races\<close> and \<open>Ws_Lives\<close>.  A broadcast may overlap with changes of the maps
  it iterates (\<open>Ws_Broadcast\<close>); the listings, that of the members in \<open>delete_room\<close> included, see a
  map at one moment.
\<close>

section \<open>From the network to the application\<close>

text \<open>
  C3. The application only ever sees authenticated connections: a connection that came to its end
  either left no trace (it was refused, timed out or failed in the handshake), or the origin
  policy let its upgrade request through and the authorizer gave its principal, and the callbacks
  are \<open>on_connect\<close>, then one for each frame read, in order and with its content, up to the event
  that ended the loop, then \<open>on_disconnect\<close>, all with that connection's id and that principal.
\<close>

theorem application_protocol:
  fixes accept :: "('st, 'req, 'resp, 'wc, 'ws, 't) acceptor" and r :: "('t, 'i, 's, unit) ws_result"
  assumes "upgrade accept request_of response_of"
    and "quiet h" and "env_handler env = recording h" and "others_quiet evs"
    and "\<And>w. trace (drain w) = trace w"
    and "handle_connection api accept is_http wca auth env st addr cid ref now evs drain flushed w
      = Ended r w'"
  shows "w' = w \<or>
    (\<exists>p pre ev post.
       is_ok (origin_check api (config_origin_policy (env_config env)) (request_of st)) \<and>
       authorize auth (request_of st) = Inr p \<and>
       evs = pre @ ev # post \<and> can_stop ev \<and> list_all (\<lambda>r. \<not> final_read r) (reads_of pre) \<and>
       trace w' = trace w @ [Connected cid p] @
         concat (map (callback_of cid p) (reads_of (pre @ [ev]))) @ [Disconnected cid p])"
proof (cases "w' = w")
  case False
  then obtain ws p where
    hs: "(handshake api accept is_http wca st auth (env_config env)
        :: ('t, 'i, 's, ('ws \<times> principal) option) ws_result) = Inr (Some (ws, p))"
    and run: "run_session env cid addr ref p now evs drain flushed w = Ended r w'"
    using assms(6)
    by (auto simp: handle_connection_def split: sum.splits option.splits prod.splits)
  have "admit api (config_origin_policy (env_config env)) auth (request_of st) = Inr p"
    using upgrade.handshake_admitted [OF assms(1) hs] .
  then show ?thesis
    using session_trace [OF assms(2-5) run] by (auto simp: admit_Inr_iff)
qed simp

theorem application_protocol_witness:
  "\<exists>w'. handle_connection sample_http plain_accept (\<lambda>e. e \<noteq> None) sample_wc
      (Custom (\<lambda>_. Inr (principal_new ''u'')))
      (sample_env (recording (quiet_handler
        :: (http_response option, unit, unit, (fifo, bool, (http_response option, unit, unit) callback) traced) handler)))
      (Some []) sample_addr ''c'' 0 0
      ([ReadNext 1 (Some (Inr (RawText ''hi''))), Tick, ReadNext 2 None]
        :: (unit, unit, http_response option, _) event list) (\<lambda>w. w) True
      \<lparr>cells = sample_cells, room_heap = (\<lambda>_. room_new []), next_room = 0, rooms = Map.empty,
       connection_rooms = Map.empty, connections = Map.empty, trace = []\<rparr> = Ended (Inr ()) w' \<and>
     hd (trace w') = Connected ''c'' (principal_new ''u'') \<and>
     last (trace w') = Disconnected ''c'' (principal_new ''u'')"
proof -
  let ?h = "quiet_handler
    :: (http_response option, unit, unit, (fifo, bool, (http_response option, unit, unit) callback) traced) handler"
  let ?env = "sample_env (recording ?h)" and ?auth = "Custom (\<lambda>_. Inr (principal_new ''u''))"
  let ?w = "\<lparr>cells = sample_cells, room_heap = (\<lambda>_. room_new []), next_room = 0, rooms = Map.empty,
       connection_rooms = Map.empty, connections = Map.empty, trace = []\<rparr>
       :: (fifo, bool, (http_response option, unit, unit) callback) traced"
  let ?evs = "[ReadNext 1 (Some (Inr (RawText ''hi''))), Tick, ReadNext 2 None]
    :: (unit, unit, http_response option, (fifo, bool, (http_response option, unit, unit) callback) traced) event list"
  let ?r = "handle_connection sample_http plain_accept (\<lambda>e. e \<noteq> None) sample_wc ?auth ?env
      (Some []) sample_addr ''c'' 0 0 ?evs (\<lambda>w. w) True ?w"
  have "handshake sample_http plain_accept (\<lambda>e. e \<noteq> None) sample_wc (Some []) ?auth
      server_config_default = (Inr (Some ([], principal_new ''u''))
        :: (http_response option, unit, unit, (string list \<times> principal) option) ws_result)"
    by (simp add: handshake_def plain_accept_def handshake_callback_def admit_no_origin sample_http_def)
  then have "\<exists>w'. ?r = Ended (Inr ()) w' \<and> trace w' \<noteq> []"
    by (simp add: handle_connection_def session_evals recording_def note_call_def handler_evals frame_simps)
  then obtain w' where w': "?r = Ended (Inr ()) w'" and tr: "trace w' \<noteq> []" by blast
  have new: "w' \<noteq> ?w"
  proof
    assume "w' = ?w"
    with tr show False by simp
  qed
  have oq: "others_quiet ?evs" by (simp add: others_quiet_def)
  have env: "env_handler ?env = recording ?h" by (simp add: sample_env_def)
  show ?thesis
    using application_protocol [OF plain.upgrade_axioms quiet_quiet_handler env oq refl w',
        unfolded disj_imp, THEN mp, OF new] w' by auto
qed

end
